(* ===== verification/Prelude.thy ===== *)
theory Prelude
  imports Main "HOL-Library.Word"
begin

unbundle bit_operations_syntax

text \<open>
  The prelude of the Arandu development: the machine types the Rust sources use, the
  \<open>Result\<close> and panic conventions of the model, the bit-mask idioms of 64-bit words, reachability of
  a transition system, and the lemma collections the component theories share.
\<close>

section \<open>Types of the model\<close>

text \<open>
  Fixed-width integers are words. \<open>usize\<close> counts and indexes objects that live in memory; it is
  \<^typ>\<open>nat\<close>, and the places where the code itself guards against overflow of \<open>usize\<close> compare with
  \<open>usize_max\<close>.
\<close>

type_synonym u8 = "8 word"
type_synonym u32 = "32 word"
type_synonym u64 = "64 word"
type_synonym usize = nat

text \<open>\<open>Result<T, E>\<close> is a sum with the error on the left, a panic is \<^const>\<open>None\<close>.\<close>

type_synonym ('e, 'a) result = "'e + 'a"

abbreviation Err :: "'e \<Rightarrow> ('e, 'a) result" where
  "Err e \<equiv> Inl e"

abbreviation Ok :: "'a \<Rightarrow> ('e, 'a) result" where
  "Ok x \<equiv> Inr x"

definition usize_max :: nat where
  "usize_max = 2 ^ 64 - 1"

definition u32_max :: nat where
  "u32_max = 2 ^ 32 - 1"

definition isize_max :: nat where
  "isize_max = 2 ^ 63 - 1"

text \<open>\<open>usize::div_ceil\<close>.\<close>

definition div_ceil :: "nat \<Rightarrow> nat \<Rightarrow> nat" where
  "div_ceil a b = (if a mod b = 0 then a div b else a div b + 1)"

text \<open>\<open>Vec::resize\<close>.\<close>

definition vec_resize :: "'a list \<Rightarrow> nat \<Rightarrow> 'a \<Rightarrow> 'a list" where
  "vec_resize xs n v = (if n \<le> length xs then take n xs else xs @ replicate (n - length xs) v)"

section \<open>Collections of lemmas\<close>

named_theorems vec_simps \<open>rewriting of vector operations\<close>
named_theorems mask_simps \<open>single-bit masks of 64-bit words\<close>
named_theorems set_view \<open>what an operation does to the set its container denotes\<close>

section \<open>Vectors\<close>

lemma length_vec_resize [vec_simps, simp]: "length (vec_resize xs n v) = n"
  by (simp add: vec_resize_def)

lemma nth_vec_resize [vec_simps]:
  "i < n \<Longrightarrow> vec_resize xs n v ! i = (if i < length xs then xs ! i else v)"
  by (auto simp: vec_resize_def nth_append)

lemma div_ceil_mult_ge: "0 < b \<Longrightarrow> a \<le> div_ceil a b * b"
  by (auto simp: div_ceil_def) (metis le_add2 mod_less_divisor add.commute add_mult_distrib
      div_mult_mod_eq less_imp_le_nat mult_1 nat_add_left_cancel_le)

lemma div_lt_div_ceil: "0 < b \<Longrightarrow> i < a \<Longrightarrow> i div b < div_ceil a b"
  using div_ceil_mult_ge [of b a] by (meson div_less_iff_less_mult less_le_trans)

lemma div_ceil_le_Suc: "div_ceil a b \<le> a div b + 1"
  by (simp add: div_ceil_def)

lemma div_mod_inj: "(i::nat) div n = j div n \<Longrightarrow> i mod n = j mod n \<Longrightarrow> i = j"
  by (metis div_mult_mod_eq)

lemma div_mod_less_iff:
  "(i::nat) < n \<longleftrightarrow> i div k < n div k \<or> i div k = n div k \<and> i mod k < n mod k"
proof (cases "i div k" "n div k" rule: linorder_cases)
  case less
  then show ?thesis by (metis div_le_mono leD leI)
next
  case equal
  then show ?thesis by (metis div_mult_mod_eq nat_add_left_cancel_less less_irrefl)
next
  case greater
  then show ?thesis by (metis div_le_mono leD less_imp_le less_not_refl2)
qed

section \<open>Single-bit masks\<close>

text \<open>\<open>1u64 << k\<close>.\<close>

definition mask1 :: "nat \<Rightarrow> u64" where
  "mask1 k = push_bit k 1"

lemma bit_mask1 [mask_simps]: "bit (mask1 k) n \<longleftrightarrow> n = k \<and> k < 64"
  by (auto simp: mask1_def bit_simps simp del: push_bit_of_1)

lemma and_mask1_eq_0 [mask_simps]: "k < 64 \<Longrightarrow> (w AND mask1 k = 0) \<longleftrightarrow> \<not> bit w k"
proof
  assume "k < 64" and "w AND mask1 k = 0"
  then show "\<not> bit w k" by (metis bit_0_eq bit_and_iff bit_mask1 bot_apply bot_bool_def)
next
  assume "k < 64" and "\<not> bit w k"
  then show "w AND mask1 k = 0" by (intro bit_word_eqI) (auto simp: bit_and_iff bit_mask1)
qed

lemma bit_or_mask1 [mask_simps]: "k < 64 \<Longrightarrow> bit (w OR mask1 k) n \<longleftrightarrow> bit w n \<or> n = k"
  by (auto simp: bit_or_iff bit_mask1)

lemma bit_and_not_mask1 [mask_simps]:
  "bit (w AND NOT (mask1 k)) n \<longleftrightarrow> bit w n \<and> \<not> (n = k \<and> k < 64)" for w :: u64
  by (auto simp: bit_and_iff bit_not_iff bit_mask1 dest: bit_imp_le_length)

lemma word64_eq_0_iff: "w = 0 \<longleftrightarrow> (\<forall>n<64. \<not> bit w n)" for w :: u64
  by (auto intro: bit_word_eqI)

lemma word64_eq_iff: "v = w \<longleftrightarrow> (\<forall>n<64. bit v n = bit w n)" for v w :: u64
  by (auto intro: bit_word_eqI)

text \<open>\<open>u64::count_ones\<close>, \<open>u64::trailing_zeros\<close>.\<close>

definition count_ones :: "u64 \<Rightarrow> nat" where
  "count_ones w = length (filter (bit w) [0..<64])"

definition trailing_zeros :: "u64 \<Rightarrow> nat" where
  "trailing_zeros w = length (takeWhile (\<lambda>n. \<not> bit w n) [0..<64])"

lemma count_ones_card: "count_ones w = card {n. n < 64 \<and> bit w n}"
proof -
  have "count_ones w = card (set (filter (bit w) [0..<64]))"
    by (simp add: count_ones_def distinct_card [symmetric] del: set_filter)
  also have "set (filter (bit w) [0..<64]) = {n. n < 64 \<and> bit w n}"
    by auto
  finally show ?thesis .
qed

lemma takeWhile_upt_length:
  "\<exists>k. k < n \<and> \<not> P k \<Longrightarrow>
   length (takeWhile P [0..<n]) < n \<and> \<not> P (length (takeWhile P [0..<n])) \<and>
   (\<forall>j < length (takeWhile P [0..<n]). P j)"
proof -
  assume ex: "\<exists>k. k < n \<and> \<not> P k"
  let ?t = "length (takeWhile P [0..<n])"
  have lt: "?t < n"
  proof (rule ccontr)
    assume "\<not> ?t < n"
    moreover have "?t \<le> n" using length_takeWhile_le [of P "[0..<n]"] by simp
    ultimately have "takeWhile P [0..<n] = [0..<n]"
      by (metis le_antisym length_upt minus_nat.diff_0 not_le takeWhile_eq_take take_all)
    with ex show False by (metis atLeastLessThan_iff atLeastLessThan_upt le0 takeWhile_eq_all_conv)
  qed
  moreover from lt have "\<not> P ([0..<n] ! ?t)"
    by (intro nth_length_takeWhile) simp
  moreover have "P j" if "j < ?t" for j
  proof -
    have "takeWhile P [0..<n] ! j \<in> set (takeWhile P [0..<n])" using that by simp
    moreover have "takeWhile P [0..<n] ! j = j"
      using that lt by (simp add: takeWhile_nth)
    ultimately show ?thesis by (metis set_takeWhileD)
  qed
  ultimately show ?thesis by simp
qed

lemma trailing_zeros_spec:
  "w \<noteq> 0 \<Longrightarrow> trailing_zeros w < 64 \<and> bit w (trailing_zeros w) \<and>
    (\<forall>j < trailing_zeros w. \<not> bit w j)"
  using takeWhile_upt_length [of 64 "\<lambda>n. \<not> bit w n"]
  by (auto simp: trailing_zeros_def word64_eq_0_iff)

section \<open>Transition systems\<close>

text \<open>The states a system reaches from an initial state by its steps.\<close>

inductive reach :: "('s \<Rightarrow> bool) \<Rightarrow> ('s \<Rightarrow> 's \<Rightarrow> bool) \<Rightarrow> 's \<Rightarrow> bool"
  for init :: "'s \<Rightarrow> bool" and step :: "'s \<Rightarrow> 's \<Rightarrow> bool" where
  reach_init: "init s \<Longrightarrow> reach init step s"
| reach_step: "reach init step s \<Longrightarrow> step s t \<Longrightarrow> reach init step t"

text \<open>
  The contract of an inductive invariant: it holds initially and every step keeps it. Each state
  machine of the development interprets this locale with its own steps.
\<close>

locale inductive_invariant =
  fixes init :: "'s \<Rightarrow> bool"
    and step :: "'s \<Rightarrow> 's \<Rightarrow> bool"
    and inv :: "'s \<Rightarrow> bool"
  assumes inv_init: "init s \<Longrightarrow> inv s"
    and inv_step: "inv s \<Longrightarrow> step s t \<Longrightarrow> inv t"
begin

lemma reach_inv: "reach init step s \<Longrightarrow> inv s"
  by (induction rule: reach.induct) (auto intro: inv_init inv_step)

lemma steps_inv: "step\<^sup>*\<^sup>* s t \<Longrightarrow> inv s \<Longrightarrow> inv t"
  by (induction rule: rtranclp_induct) (auto intro: inv_step)

end

end
