(* ===== verification/BitSet.thy ===== *)
theory BitSet
  imports Prelude
begin

unbundle bit_operations_syntax

text \<open>
  \<open>crates/arandu_base/src/bitset.rs\<close>, first half: the dense bit set of the compiler analyses, its
  iterator, and the set it denotes. A typed index \<open>I: IdIndex\<close> is its \<open>usize\<close>
  (\<open>to_usize\<close>/\<open>from_usize\<close> are inverse), so elements are natural numbers.
\<close>

section \<open>The bit set\<close>

record bitset =
  bs_words :: "u64 list"

definition bs_new :: bitset where
  "bs_new = \<lparr>bs_words = []\<rparr>"

definition bs_with_capacity :: "usize \<Rightarrow> bitset" where
  "bs_with_capacity capacity = \<lparr>bs_words = replicate (div_ceil capacity 64) 0\<rparr>"

definition bs_from_words :: "u64 list \<Rightarrow> bitset" where
  "bs_from_words ws = \<lparr>bs_words = ws\<rparr>"

definition bs_all_set :: "usize \<Rightarrow> bitset" where
  "bs_all_set capacity =
     (let num_words = div_ceil capacity 64;
          ws = replicate num_words (- 1);
          rem = capacity mod 64
      in if 0 < capacity \<and> rem \<noteq> 0 \<and> ws \<noteq> []
         then \<lparr>bs_words = ws[length ws - 1 := last ws AND (mask1 rem - 1)]\<rparr>
         else \<lparr>bs_words = ws\<rparr>)"

definition bs_insert :: "bitset \<Rightarrow> usize \<Rightarrow> bitset \<times> bool" where
  "bs_insert s b =
     (let word_idx = b div 64; bit_idx = b mod 64;
          ws = (if length (bs_words s) \<le> word_idx then vec_resize (bs_words s) (word_idx + 1) 0
                else bs_words s);
          m = mask1 bit_idx; old = ws ! word_idx
      in (s\<lparr>bs_words := ws[word_idx := old OR m]\<rparr>, old AND m = 0))"

definition bs_remove :: "bitset \<Rightarrow> usize \<Rightarrow> bitset \<times> bool" where
  "bs_remove s b =
     (let word_idx = b div 64; bit_idx = b mod 64
      in if length (bs_words s) \<le> word_idx then (s, False)
         else let m = mask1 bit_idx; old = bs_words s ! word_idx
              in (s\<lparr>bs_words := (bs_words s)[word_idx := old AND NOT m]\<rparr>, old AND m \<noteq> 0))"

definition bs_contains :: "bitset \<Rightarrow> usize \<Rightarrow> bool" where
  "bs_contains s b =
     (let word_idx = b div 64; bit_idx = b mod 64
      in if length (bs_words s) \<le> word_idx then False
         else bs_words s ! word_idx AND mask1 bit_idx \<noteq> 0)"

definition bs_clear :: "bitset \<Rightarrow> bitset" where
  "bs_clear s = s\<lparr>bs_words := map (\<lambda>_. 0) (bs_words s)\<rparr>"

definition bs_is_empty :: "bitset \<Rightarrow> bool" where
  "bs_is_empty s = list_all (\<lambda>w. w = 0) (bs_words s)"

definition bs_len :: "bitset \<Rightarrow> usize" where
  "bs_len s = sum_list (map count_ones (bs_words s))"

text \<open>
  \<open>is_superset_of\<close>: the common prefix is compared word by word, then the words only \<open>other\<close> has must
  be zero.
\<close>

fun superset_words :: "u64 list \<Rightarrow> u64 list \<Rightarrow> bool" where
  "superset_words (a # as) (b # bs) = (if a AND b \<noteq> b then False else superset_words as bs)"
| "superset_words [] (b # bs) = (if b \<noteq> 0 then False else superset_words [] bs)"
| "superset_words as [] = True"

definition bs_is_superset_of :: "bitset \<Rightarrow> bitset \<Rightarrow> bool" where
  "bs_is_superset_of s other = superset_words (bs_words s) (bs_words other)"

text \<open>
  The in-place operations carry the flag \<open>changed\<close> through the loop over the words. The word at one
  position is read and written in the same iteration, so the loop is a recursion over the words.
\<close>

fun union_loop :: "bool \<Rightarrow> u64 list \<Rightarrow> u64 list \<Rightarrow> u64 list \<times> bool" where
  "union_loop changed (old # as) (w # bs) =
     (let new = old OR w
      in if old \<noteq> new then (let (r, c) = union_loop True as bs in (new # r, c))
         else (let (r, c) = union_loop changed as bs in (old # r, c)))"
| "union_loop changed as _ = (as, changed)"

definition bs_union_with :: "bitset \<Rightarrow> bitset \<Rightarrow> bitset \<times> bool" where
  "bs_union_with s other =
     (let ws = (if length (bs_words s) < length (bs_words other)
                then vec_resize (bs_words s) (length (bs_words other)) 0 else bs_words s);
          (r, changed) = union_loop False ws (bs_words other)
      in (s\<lparr>bs_words := r\<rparr>, changed))"

fun intersect_loop :: "bool \<Rightarrow> u64 list \<Rightarrow> u64 list \<Rightarrow> u64 list \<times> bool" where
  "intersect_loop changed (old # as) (w # bs) =
     (let new = old AND w
      in if old \<noteq> new then (let (r, c) = intersect_loop True as bs in (new # r, c))
         else (let (r, c) = intersect_loop changed as bs in (old # r, c)))"
| "intersect_loop changed (old # as) [] =
     (if old \<noteq> 0 then (let (r, c) = intersect_loop True as [] in (0 # r, c))
      else (let (r, c) = intersect_loop changed as [] in (old # r, c)))"
| "intersect_loop changed [] _ = ([], changed)"

definition bs_intersect_with :: "bitset \<Rightarrow> bitset \<Rightarrow> bitset \<times> bool" where
  "bs_intersect_with s other =
     (let (r, changed) = intersect_loop False (bs_words s) (bs_words other)
      in (s\<lparr>bs_words := r\<rparr>, changed))"

fun difference_loop :: "bool \<Rightarrow> u64 list \<Rightarrow> u64 list \<Rightarrow> u64 list \<times> bool" where
  "difference_loop changed (old # as) (w # bs) =
     (let new = old AND NOT w
      in if old \<noteq> new then (let (r, c) = difference_loop True as bs in (new # r, c))
         else (let (r, c) = difference_loop changed as bs in (old # r, c)))"
| "difference_loop changed as _ = (as, changed)"

definition bs_difference_with :: "bitset \<Rightarrow> bitset \<Rightarrow> bitset \<times> bool" where
  "bs_difference_with s other =
     (let (r, changed) = difference_loop False (bs_words s) (bs_words other)
      in (s\<lparr>bs_words := r\<rparr>, changed))"

section \<open>The iterator\<close>

text \<open>
  \<open>BitSetIter\<close> holds a position \<open>(word_idx, bit_idx)\<close>. \<open>next\<close> is a loop that skips exhausted words;
  it returns the next element with the advanced position.
\<close>

function bs_next :: "u64 list \<Rightarrow> nat \<Rightarrow> nat \<Rightarrow> (usize \<times> nat \<times> nat) option" where
  "bs_next ws word_idx bit_idx =
     (if word_idx < length ws then
        let w = ws ! word_idx in
        if w = 0 then bs_next ws (word_idx + 1) 0
        else
          let remaining_word = drop_bit bit_idx w in
          if remaining_word = 0 then bs_next ws (word_idx + 1) 0
          else
            let bit_idx' = bit_idx + trailing_zeros remaining_word;
                val = word_idx * 64 + bit_idx';
                bit_idx'' = bit_idx' + 1
            in if 64 \<le> bit_idx'' then Some (val, word_idx + 1, 0)
               else Some (val, word_idx, bit_idx'')
      else None)"
  by pat_completeness auto
termination
  by (relation "measure (\<lambda>(ws, word_idx, bit_idx). length ws - word_idx)") auto

declare bs_next.simps [simp del]

section \<open>The set a word vector denotes\<close>

definition wmem :: "u64 list \<Rightarrow> nat \<Rightarrow> bool" where
  "wmem ws i \<longleftrightarrow> i div 64 < length ws \<and> bit (ws ! (i div 64)) (i mod 64)"

definition bs_elems :: "bitset \<Rightarrow> nat set" where
  "bs_elems s = {i. wmem (bs_words s) i}"

lemma wmem_bound: "wmem ws i \<Longrightarrow> i < 64 * length ws"
  by (simp add: wmem_def) (metis div_less_iff_less_mult mult.commute zero_less_numeral)

lemma finite_wmem: "finite {i. wmem ws i}"
  by (rule finite_subset [of _ "{..< 64 * length ws}"]) (auto dest: wmem_bound)

lemma finite_bs_elems [simp]: "finite (bs_elems s)"
  by (simp add: bs_elems_def finite_wmem)

lemma wmem_pos: "b < 64 \<Longrightarrow> wmem ws (64 * k + b) \<longleftrightarrow> k < length ws \<and> bit (ws ! k) b"
  by (simp add: wmem_def)

lemma wmem_update:
  "k < length ws \<Longrightarrow>
   wmem (ws[k := w]) i \<longleftrightarrow> (if i div 64 = k then bit w (i mod 64) else wmem ws i)"
  by (auto simp: wmem_def)

lemma wmem_resize: "length ws \<le> n \<Longrightarrow> wmem (vec_resize ws n 0) i \<longleftrightarrow> wmem ws i"
  by (cases "i div 64 < length ws") (auto simp: wmem_def nth_vec_resize)

lemma wmem_replicate_0 [simp]: "\<not> wmem (replicate n 0) i"
  by (simp add: wmem_def)

lemma bs_contains_elems [set_view]: "bs_contains s i \<longleftrightarrow> i \<in> bs_elems s"
  by (auto simp: bs_contains_def bs_elems_def wmem_def Let_def and_mask1_eq_0)

lemma bs_insert_elems [set_view]: "bs_elems (fst (bs_insert s i)) = insert i (bs_elems s)"
proof -
  define ws where "ws = (if length (bs_words s) \<le> i div 64
    then vec_resize (bs_words s) (i div 64 + 1) 0 else bs_words s)"
  have len: "i div 64 < length ws" by (simp add: ws_def)
  have ws: "wmem ws j \<longleftrightarrow> wmem (bs_words s) j" for j by (simp add: ws_def wmem_resize)
  have "bs_words (fst (bs_insert s i)) = ws[i div 64 := ws ! (i div 64) OR mask1 (i mod 64)]"
    by (simp add: bs_insert_def ws_def Let_def)
  moreover have "bit (ws ! (i div 64)) (j mod 64) \<longleftrightarrow> wmem ws j" if "j div 64 = i div 64" for j
    using len that by (simp add: wmem_def)
  ultimately have "wmem (bs_words (fst (bs_insert s i))) j \<longleftrightarrow> wmem ws j \<or> j = i" for j
    using len by (auto simp: wmem_update bit_or_mask1 dest: div_mod_inj)
  then show ?thesis by (auto simp: bs_elems_def ws)
qed

lemma bs_insert_fresh [set_view]: "snd (bs_insert s i) \<longleftrightarrow> i \<notin> bs_elems s"
  by (auto simp: bs_insert_def bs_elems_def Let_def wmem_def nth_vec_resize and_mask1_eq_0)

lemma bs_remove_elems [set_view]: "bs_elems (fst (bs_remove s i)) = bs_elems s - {i}"
proof (cases "length (bs_words s) \<le> i div 64")
  case True
  then show ?thesis by (auto simp: bs_remove_def bs_elems_def wmem_def)
next
  case False
  have "bit (bs_words s ! (i div 64)) (j mod 64) \<longleftrightarrow> wmem (bs_words s) j"
    if "j div 64 = i div 64" for j
    using False that by (simp add: wmem_def)
  with False have "wmem (bs_words (fst (bs_remove s i))) j \<longleftrightarrow> wmem (bs_words s) j \<and> j \<noteq> i" for j
    by (auto simp: bs_remove_def Let_def wmem_update bit_and_not_mask1 dest: div_mod_inj)
  then show ?thesis by (auto simp: bs_elems_def)
qed

lemma bs_remove_present [set_view]: "snd (bs_remove s i) \<longleftrightarrow> i \<in> bs_elems s"
  by (auto simp: bs_remove_def bs_elems_def Let_def wmem_def and_mask1_eq_0)

lemma bs_new_elems [set_view]: "bs_elems bs_new = {}"
  by (simp add: bs_elems_def bs_new_def wmem_def)

lemma bs_with_capacity_elems [set_view]: "bs_elems (bs_with_capacity n) = {}"
  by (simp add: bs_elems_def bs_with_capacity_def)

lemma bs_clear_elems [set_view]: "bs_elems (bs_clear s) = {}"
  by (simp add: bs_elems_def bs_clear_def wmem_def)

lemma bs_clear_capacity: "length (bs_words (bs_clear s)) = length (bs_words s)"
  by (simp add: bs_clear_def)

lemma wmem_empty_iff: "(\<forall>i. \<not> wmem ws i) \<longleftrightarrow> (\<forall>w \<in> set ws. w = 0)"
proof
  assume none: "\<forall>i. \<not> wmem ws i"
  show "\<forall>w \<in> set ws. w = 0"
  proof
    fix w assume "w \<in> set ws"
    then obtain k where k: "k < length ws" "w = ws ! k" by (auto simp: in_set_conv_nth)
    have "\<not> bit w b" if "b < 64" for b
      using none k that wmem_pos [OF that, of ws k] by auto
    then show "w = 0" by (simp add: word64_eq_0_iff)
  qed
qed (auto simp: wmem_def dest!: nth_mem)

lemma bs_is_empty_elems [set_view]: "bs_is_empty s \<longleftrightarrow> bs_elems s = {}"
  using wmem_empty_iff [of "bs_words s"]
  by (auto simp: bs_is_empty_def bs_elems_def list_all_iff)

section \<open>Loops over the words\<close>

text \<open>The common shape of the three loops: a word operation with missing words read as zero.\<close>

primrec pad_zip :: "(u64 \<Rightarrow> u64 \<Rightarrow> u64) \<Rightarrow> u64 list \<Rightarrow> u64 list \<Rightarrow> u64 list" where
  "pad_zip f [] bs = []"
| "pad_zip f (a # as) bs = f a (case bs of [] \<Rightarrow> 0 | b # _ \<Rightarrow> b) # pad_zip f as (tl bs)"

lemma length_pad_zip [simp]: "length (pad_zip f as bs) = length as"
  by (induction as arbitrary: bs) auto

lemma nth_pad_zip:
  "k < length as \<Longrightarrow> pad_zip f as bs ! k = f (as ! k) (if k < length bs then bs ! k else 0)"
proof (induction as arbitrary: bs k)
  case (Cons a as)
  then show ?case by (cases k; cases bs) auto
qed simp

lemma pad_zip_Nil: "(\<And>a. f a 0 = a) \<Longrightarrow> pad_zip f as [] = as"
  by (induction as) auto

lemma union_loop_eq:
  "union_loop c as bs = (pad_zip (OR) as bs, c \<or> pad_zip (OR) as bs \<noteq> as)"
  by (induction c as bs rule: union_loop.induct) (auto simp: Let_def pad_zip_Nil)

lemma intersect_loop_eq:
  "intersect_loop c as bs = (pad_zip (AND) as bs, c \<or> pad_zip (AND) as bs \<noteq> as)"
  by (induction c as bs rule: intersect_loop.induct) (auto simp: Let_def)

lemma difference_loop_eq:
  "difference_loop c as bs =
     (pad_zip (\<lambda>a b. a AND NOT b) as bs, c \<or> pad_zip (\<lambda>a b. a AND NOT b) as bs \<noteq> as)"
  by (induction c as bs rule: difference_loop.induct) (auto simp: Let_def pad_zip_Nil)

lemma wmem_ext: "length vs = length ws \<Longrightarrow> (\<And>i. wmem vs i = wmem ws i) \<Longrightarrow> vs = ws"
proof (rule nth_equalityI)
  fix k assume len: "length vs = length ws" and eq: "\<And>i. wmem vs i = wmem ws i" and "k < length vs"
  show "vs ! k = ws ! k"
    unfolding word64_eq_iff
  proof (intro allI impI)
    fix b :: nat assume "b < 64"
    then show "bit (vs ! k) b = bit (ws ! k) b"
      using eq [of "64 * k + b"] \<open>k < length vs\<close> len by (simp add: wmem_pos)
  qed
qed simp

lemma changed_iff: "pad_zip f as bs \<noteq> as \<longleftrightarrow> (\<exists>i. wmem (pad_zip f as bs) i \<noteq> wmem as i)"
  using wmem_ext [of "pad_zip f as bs" as] by auto

lemma bs_union_with_spec:
  assumes "bs_union_with s t = (s', changed)"
  shows "bs_elems s' = bs_elems s \<union> bs_elems t \<and> (changed \<longleftrightarrow> bs_elems s' \<noteq> bs_elems s)"
proof -
  define ws where "ws = (if length (bs_words s) < length (bs_words t)
    then vec_resize (bs_words s) (length (bs_words t)) 0 else bs_words s)"
  define r where "r = pad_zip (OR) ws (bs_words t)"
  have len: "length (bs_words t) \<le> length ws" by (simp add: ws_def)
  have ws: "wmem ws i \<longleftrightarrow> wmem (bs_words s) i" for i by (simp add: ws_def wmem_resize)
  have s': "bs_words s' = r" "changed \<longleftrightarrow> r \<noteq> ws"
    using assms by (auto simp: bs_union_with_def ws_def [symmetric] r_def Let_def union_loop_eq)
  have "wmem r i \<longleftrightarrow> wmem ws i \<or> wmem (bs_words t) i" for i
    using len by (auto simp: r_def nth_pad_zip wmem_def bit_or_iff split: if_splits)
  then show ?thesis using s' changed_iff [of "(OR)" ws "bs_words t"]
    by (auto simp: bs_elems_def ws r_def [symmetric])
qed

lemma bs_intersect_with_spec:
  assumes "bs_intersect_with s t = (s', changed)"
  shows "bs_elems s' = bs_elems s \<inter> bs_elems t \<and> (changed \<longleftrightarrow> bs_elems s' \<noteq> bs_elems s)"
proof -
  define r where "r = pad_zip (AND) (bs_words s) (bs_words t)"
  have s': "bs_words s' = r" "changed \<longleftrightarrow> r \<noteq> bs_words s"
    using assms by (auto simp: bs_intersect_with_def r_def intersect_loop_eq)
  have "wmem r i \<longleftrightarrow> wmem (bs_words s) i \<and> wmem (bs_words t) i" for i
    by (auto simp: r_def nth_pad_zip wmem_def bit_and_iff split: if_splits)
  then show ?thesis using s' changed_iff [of "(AND)" "bs_words s" "bs_words t"]
    by (auto simp: bs_elems_def r_def [symmetric])
qed

lemma bs_difference_with_spec:
  assumes "bs_difference_with s t = (s', changed)"
  shows "bs_elems s' = bs_elems s - bs_elems t \<and> (changed \<longleftrightarrow> bs_elems s' \<noteq> bs_elems s)"
proof -
  let ?f = "\<lambda>a b. a AND NOT b"
  define r where "r = pad_zip ?f (bs_words s) (bs_words t)"
  have s': "bs_words s' = r" "changed \<longleftrightarrow> r \<noteq> bs_words s"
    using assms by (auto simp: bs_difference_with_def r_def difference_loop_eq)
  have "wmem r i \<longleftrightarrow> wmem (bs_words s) i \<and> \<not> wmem (bs_words t) i" for i
    by (auto simp: r_def nth_pad_zip wmem_def bit_and_iff bit_not_iff split: if_splits)
  then show ?thesis using s' changed_iff [of ?f "bs_words s" "bs_words t"]
    by (auto simp: bs_elems_def r_def [symmetric])
qed

section \<open>Cardinality, inclusion and the full set\<close>

lemma wmem_append1:
  "wmem (ws @ [w]) i \<longleftrightarrow> wmem ws i \<or> (i div 64 = length ws \<and> bit w (i mod 64))"
  by (auto simp: wmem_def nth_append less_Suc_eq)

lemma card_wmem: "card {i. wmem ws i} = sum_list (map count_ones ws)"
proof (induction ws rule: rev_induct)
  case Nil
  then show ?case by (simp add: wmem_def)
next
  case (snoc w ws)
  let ?top = "(\<lambda>b. 64 * length ws + b) ` {b. b < 64 \<and> bit w b}"
  have "{i. wmem (ws @ [w]) i} = {i. wmem ws i} \<union> ?top" (is "?l = ?r")
  proof
    show "?l \<subseteq> ?r"
    proof
      fix i assume "i \<in> ?l"
      moreover have "i = 64 * (i div 64) + i mod 64" by simp
      moreover have "i mod 64 < 64" by simp
      ultimately show "i \<in> ?r" by (metis (mono_tags, lifting) UnI1 UnI2 image_eqI mem_Collect_eq wmem_append1)
    qed
  qed (auto simp: wmem_append1)
  moreover have "{i. wmem ws i} \<inter> ?top = {}" by (auto dest: wmem_bound)
  moreover have "card ?top = count_ones w"
    by (subst card_image) (auto simp: inj_on_def count_ones_card)
  ultimately show ?case
    using snoc finite_wmem [of ws] by (simp add: card_Un_disjoint)
qed

lemma bs_len_card [set_view]: "bs_len s = card (bs_elems s)"
  by (simp add: bs_len_def bs_elems_def card_wmem)

lemma superset_words_iff:
  "superset_words as bs \<longleftrightarrow>
   (\<forall>k < length bs. (if k < length as then as ! k else 0) AND bs ! k = bs ! k)"
proof (induction as bs rule: superset_words.induct)
  case (1 a as b bs)
  then show ?case by (auto simp: All_less_Suc2)
next
  case (2 b bs)
  then show ?case by (auto simp: All_less_Suc2)
qed simp

lemma and_eq_right_iff: "a AND b = b \<longleftrightarrow> (\<forall>n<64. bit b n \<longrightarrow> bit a n)" for a b :: u64
  by (auto simp: word64_eq_iff [of "a AND b"] bit_and_iff)

lemma bs_is_superset_of_elems [set_view]: "bs_is_superset_of s t \<longleftrightarrow> bs_elems t \<subseteq> bs_elems s"
proof -
  let ?ws = "bs_words s" and ?vs = "bs_words t"
  have "bs_elems t \<subseteq> bs_elems s \<longleftrightarrow>
      (\<forall>k < length ?vs. \<forall>b < 64. bit (?vs ! k) b \<longrightarrow> k < length ?ws \<and> bit (?ws ! k) b)"
    (is "?l \<longleftrightarrow> ?r")
  proof
    assume ?l
    then have "\<And>i. wmem ?vs i \<Longrightarrow> wmem ?ws i" by (auto simp: bs_elems_def)
    then show ?r by (metis wmem_pos)
  next
    assume ?r
    then have "wmem ?ws i" if "wmem ?vs i" for i
      using that unfolding wmem_def by (metis mod_less_divisor zero_less_numeral)
    then show ?l by (auto simp: bs_elems_def)
  qed
  then show ?thesis
    by (auto simp: bs_is_superset_of_def superset_words_iff and_eq_right_iff)
qed

lemma bit_mask1_minus_1: "k < 64 \<Longrightarrow> bit (mask1 k - 1) n \<longleftrightarrow> n < k"
  by (auto simp: mask1_def mask_eq_exp_minus_1 [symmetric] bit_mask_iff)

lemma bs_all_set_elems [set_view]: "bs_elems (bs_all_set n) = {..<n}"
proof -
  let ?m = "div_ceil n 64"
  define ws where "ws = bs_words (bs_all_set n)"
  have len: "length ws = ?m" by (simp add: ws_def bs_all_set_def Let_def)
  have "wmem ws i \<longleftrightarrow> i < n" for i
  proof (cases "n mod 64 = 0")
    case True
    then have "ws = replicate ?m (- 1)" by (simp add: ws_def bs_all_set_def Let_def)
    moreover have "i div 64 < ?m \<longleftrightarrow> i < n"
      using True by (auto simp: div_ceil_def div_less_iff_less_mult elim!: dvdE)
    ultimately show ?thesis by (auto simp: wmem_def)
  next
    case False
    then have m: "?m = n div 64 + 1" by (simp add: div_ceil_def)
    have "0 < n" using False by (cases n) auto
    with False m have "ws = (replicate ?m (- 1))[n div 64 := - 1 AND (mask1 (n mod 64) - 1)]"
      by (simp add: ws_def bs_all_set_def Let_def last_replicate del: replicate_Suc)
    then have "wmem ws i \<longleftrightarrow> i div 64 < n div 64 \<or> i div 64 = n div 64 \<and> i mod 64 < n mod 64"
      using m by (auto simp: wmem_def nth_list_update bit_mask1_minus_1 less_Suc_eq simp del: replicate_Suc)
    also have "\<dots> \<longleftrightarrow> i < n"
      by (rule div_mod_less_iff [symmetric])
    finally show ?thesis .
  qed
  then show ?thesis by (auto simp: bs_elems_def ws_def)
qed

section \<open>The iterator enumerates the set in order\<close>

lemma bs_next_unfold:
  "bs_next ws wi bi =
     (if wi < length ws then
        if drop_bit bi (ws ! wi) = 0 then bs_next ws (wi + 1) 0
        else let b = bi + trailing_zeros (drop_bit bi (ws ! wi))
             in Some (wi * 64 + b, if 63 \<le> b then (wi + 1, 0) else (wi, b + 1))
      else None)"
  by (subst bs_next.simps) (auto simp: Let_def)

lemma word_gap:
  "(\<forall>n < k. \<not> bit (drop_bit bi (ws ! wi)) n) \<Longrightarrow> 64 * wi + bi \<le> u \<Longrightarrow> u < 64 * wi + bi + k \<Longrightarrow>
   u < 64 * (wi + 1) \<Longrightarrow> \<not> wmem ws u"
proof
  assume gap: "\<forall>n < k. \<not> bit (drop_bit bi (ws ! wi)) n" and u: "64 * wi + bi \<le> u"
    "u < 64 * wi + bi + k" "u < 64 * (wi + 1)" and mem: "wmem ws u"
  define b where "b = u - 64 * wi"
  have b: "u = 64 * wi + b" "bi \<le> b" "b < 64" "b - bi < k" using u by (auto simp: b_def)
  with mem have "bit (ws ! wi) b" by (simp add: wmem_pos)
  then have "bit (drop_bit bi (ws ! wi)) (b - bi)" using b by (simp add: bit_drop_bit_eq)
  with gap b show False by auto
qed

lemma bs_next_Some:
  "bs_next ws wi bi = Some (v, wi', bi') \<Longrightarrow>
   wi < length ws \<and> wi \<le> wi' \<and> (wi' = wi \<longrightarrow> bi < bi') \<and> bi' < 64 \<and> Suc v = 64 * wi' + bi' \<and>
   wmem ws v \<and> (bi < 64 \<longrightarrow> 64 * wi + bi \<le> v) \<and>
   (\<forall>u. 64 * wi + bi \<le> u \<and> u < v \<longrightarrow> \<not> wmem ws u)"
proof (induction "length ws - wi" arbitrary: wi bi)
  case 0
  then show ?case by (simp add: bs_next_unfold [of ws wi bi])
next
  case (Suc n)
  then have wi: "wi < length ws" by simp
  show ?case
  proof (cases "drop_bit bi (ws ! wi) = 0")
    case True
    with Suc.prems wi have "bs_next ws (wi + 1) 0 = Some (v, wi', bi')"
      by (simp add: bs_next_unfold [of ws wi bi])
    then have IH: "wi + 1 \<le> wi' \<and> bi' < 64 \<and> Suc v = 64 * wi' + bi' \<and> wmem ws v \<and>
        64 * (wi + 1) \<le> v \<and> (\<forall>u. 64 * (wi + 1) \<le> u \<and> u < v \<longrightarrow> \<not> wmem ws u)"
      using Suc.hyps(1) [of "wi + 1" 0] Suc.hyps(2) by simp
    have gap: "\<not> wmem ws u" if "64 * wi + bi \<le> u" "u < 64 * (wi + 1)" for u
      using word_gap [of 64 bi ws wi u] True that by simp
    have "\<not> wmem ws u" if "64 * wi + bi \<le> u" "u < v" for u
      using IH gap that by (cases "u < 64 * (wi + 1)") auto
    with IH wi show ?thesis by auto
  next
    case False
    define t where "t = trailing_zeros (drop_bit bi (ws ! wi))"
    note t = trailing_zeros_spec [OF False, folded t_def]
    have "bit (ws ! wi) (bi + t)" using t by (simp add: bit_drop_bit_eq)
    then have bt: "bi + t < 64" by (auto dest: bit_imp_le_length)
    have res: "v = 64 * wi + (bi + t)" "(wi', bi') = (if 63 \<le> bi + t then (wi + 1, 0) else (wi, bi + t + 1))"
      using Suc.prems wi False by (auto simp: bs_next_unfold [of ws wi bi] Let_def t_def mult.commute)
    moreover have "wmem ws v" using res(1) bt wi \<open>bit (ws ! wi) (bi + t)\<close> by (simp add: wmem_pos)
    moreover have "\<not> wmem ws u" if "64 * wi + bi \<le> u" "u < v" for u
      using word_gap [of t bi ws wi u] t that res(1) bt by simp
    ultimately show ?thesis using bt wi by (auto split: if_splits)
  qed
qed

lemma bs_next_None:
  "bs_next ws wi bi = None \<Longrightarrow> 64 * wi + bi \<le> u \<Longrightarrow> \<not> wmem ws u"
proof (induction "length ws - wi" arbitrary: wi bi)
  case 0
  then show ?case by (auto dest: wmem_bound)
next
  case (Suc n)
  then have drop: "drop_bit bi (ws ! wi) = 0" and tail: "bs_next ws (wi + 1) 0 = None"
    by (auto simp: bs_next_unfold [of ws wi bi] Let_def split: if_splits)
  show ?case
  proof (cases "u < 64 * (wi + 1)")
    case True
    then show ?thesis using word_gap [of 64 bi ws wi u] drop Suc.prems(2) by simp
  next
    case False
    then show ?thesis using Suc.hyps(1) [OF _ tail] Suc.hyps(2) by simp
  qed
qed

text \<open>Draining the iterator, as \<open>for id in set.iter()\<close> does.\<close>

function bs_drain :: "u64 list \<Rightarrow> nat \<Rightarrow> nat \<Rightarrow> usize list" where
  "bs_drain ws wi bi =
     (case bs_next ws wi bi of None \<Rightarrow> [] | Some (v, wi', bi') \<Rightarrow> v # bs_drain ws wi' bi')"
  by pat_completeness auto
termination
proof (relation "measures [\<lambda>(ws, wi, bi). length ws - wi, \<lambda>(ws, wi, bi). 64 - bi]", goal_cases)
  case 1
  then show ?case by simp
next
  case (2 ws wi bi r v q wi' bi')
  then have "wi < length ws \<and> wi \<le> wi' \<and> (wi' = wi \<longrightarrow> bi < bi') \<and> bi' < 64"
    using bs_next_Some [of ws wi bi v wi' bi'] by simp
  then show ?case by (cases "wi' = wi") auto
qed

declare bs_drain.simps [simp del]

definition bs_iter :: "bitset \<Rightarrow> usize list" where
  "bs_iter s = bs_drain (bs_words s) 0 0"

lemma bs_drain_spec:
  "bi < 64 \<Longrightarrow> sorted_wrt (<) (bs_drain ws wi bi) \<and>
     set (bs_drain ws wi bi) = {u. 64 * wi + bi \<le> u \<and> wmem ws u}"
proof (induction ws wi bi rule: bs_drain.induct)
  case (1 ws wi bi)
  show ?case
  proof (cases "bs_next ws wi bi")
    case None
    then show ?thesis by (auto simp: bs_drain.simps [of ws wi bi] dest: bs_next_None)
  next
    case (Some r)
    obtain v wi' bi' where r: "r = (v, wi', bi')" by (cases r)
    note nx = bs_next_Some [OF Some [unfolded r]]
    then have IH: "sorted_wrt (<) (bs_drain ws wi' bi') \<and>
        set (bs_drain ws wi' bi') = {u. Suc v \<le> u \<and> wmem ws u}"
      using "1.IH" [OF Some r [symmetric] refl] by simp
    have "{u. 64 * wi + bi \<le> u \<and> wmem ws u} = insert v {u. Suc v \<le> u \<and> wmem ws u}"
      using nx "1.prems" by (auto simp: Suc_le_eq)
    then show ?thesis
      using IH Some r by (auto simp: bs_drain.simps [of ws wi bi])
  qed
qed

lemma bs_iter_sorted_list [set_view]: "bs_iter s = sorted_list_of_set (bs_elems s)"
proof (rule strict_sorted_equal)
  show "sorted_wrt (<) (bs_iter s)"
    using bs_drain_spec [of 0 "bs_words s" 0] by (simp add: bs_iter_def)
  show "set (bs_iter s) = set (sorted_list_of_set (bs_elems s))"
    using bs_drain_spec [of 0 "bs_words s" 0] finite_wmem by (simp add: bs_iter_def bs_elems_def)
qed simp

section \<open>Properties\<close>

text \<open>
  C36: the point operations implement those of a set of numbers: \<open>insert\<close> adds the element (growing the
  vector when needed) and answers whether it was new, \<open>remove\<close> deletes it and answers whether it was
  present, \<open>contains\<close> is membership, also beyond the allocated words.
\<close>

theorem bitset_point_operations:
  "bs_elems (fst (bs_insert s i)) = insert i (bs_elems s) \<and> snd (bs_insert s i) = (i \<notin> bs_elems s) \<and>
   bs_elems (fst (bs_remove s i)) = bs_elems s - {i} \<and> snd (bs_remove s i) = (i \<in> bs_elems s) \<and>
   bs_contains s i = (i \<in> bs_elems s)"
  by (simp add: set_view)

text \<open>
  C37: the word-wise loops implement union, intersection and difference for operands of different
  lengths, and the flag they return is true exactly when the receiver changed: the fixpoint loops of
  the dataflow analyses stop on it.
\<close>

theorem bitset_bulk_operations:
  "bs_elems (fst (bs_union_with s t)) = bs_elems s \<union> bs_elems t \<and>
   snd (bs_union_with s t) = (\<not> bs_elems t \<subseteq> bs_elems s) \<and>
   bs_elems (fst (bs_intersect_with s t)) = bs_elems s \<inter> bs_elems t \<and>
   snd (bs_intersect_with s t) = (\<not> bs_elems s \<subseteq> bs_elems t) \<and>
   bs_elems (fst (bs_difference_with s t)) = bs_elems s - bs_elems t \<and>
   snd (bs_difference_with s t) = (bs_elems s \<inter> bs_elems t \<noteq> {})"
proof -
  obtain u cu where u: "bs_union_with s t = (u, cu)" by fastforce
  obtain v cv where v: "bs_intersect_with s t = (v, cv)" by fastforce
  obtain w cw where w: "bs_difference_with s t = (w, cw)" by fastforce
  note spec = bs_union_with_spec [OF u] bs_intersect_with_spec [OF v] bs_difference_with_spec [OF w]
  have "cu \<longleftrightarrow> \<not> bs_elems t \<subseteq> bs_elems s" using spec(1) by blast
  moreover have "cv \<longleftrightarrow> \<not> bs_elems s \<subseteq> bs_elems t" using spec(2) by blast
  moreover have "cw \<longleftrightarrow> bs_elems s \<inter> bs_elems t \<noteq> {}" using spec(3) by blast
  ultimately show ?thesis unfolding u v w using spec by simp
qed

text \<open>
  C38: the queries read the denoted set: \<open>len\<close> is its cardinality, \<open>is_superset_of\<close> is inclusion whatever
  the lengths of the two vectors, \<open>iter\<close> yields every element once in ascending order, and
  \<open>all_set(n)\<close> holds exactly the numbers below \<open>n\<close>, with the padding bits of the last word clear.
\<close>

theorem bitset_queries:
  "bs_len s = card (bs_elems s) \<and> bs_is_empty s = (bs_elems s = {}) \<and>
   bs_is_superset_of s t = (bs_elems t \<subseteq> bs_elems s) \<and>
   bs_iter s = sorted_list_of_set (bs_elems s) \<and>
   bs_elems (bs_all_set n) = {..<n} \<and> bs_iter (bs_all_set n) = [0..<n]"
  using sorted_list_of_set_range [of 0 n]
  by (simp add: bs_len_card bs_is_empty_elems bs_is_superset_of_elems bs_iter_sorted_list
      bs_all_set_elems atLeast0LessThan)

end
