(* ===== verification/BitMatrix.thy ===== *)
theory BitMatrix
  imports BitSet
begin

unbundle bit_operations_syntax

text \<open>
  \<open>crates/arandu_base/src/bitset.rs\<close>, second half: the row-major bit matrix of the dataflow analyses.
  An \<open>assert!\<close> or an index out of bounds is a panic, \<^const>\<open>None\<close>.
\<close>

record bitmatrix =
  bm_words :: "u64 list"
  bm_num_rows :: usize
  bm_num_cols :: usize
  bm_words_per_row :: usize

definition bm_new :: "usize \<Rightarrow> usize \<Rightarrow> bitmatrix option" where
  "bm_new rows cols =
     (let wpr = div_ceil cols 64
      in if usize_max < rows * wpr then None
         else Some \<lparr>bm_words = replicate (rows * wpr) 0, bm_num_rows = rows, bm_num_cols = cols,
                    bm_words_per_row = wpr\<rparr>)"

definition bm_insert :: "bitmatrix \<Rightarrow> usize \<Rightarrow> usize \<Rightarrow> (bitmatrix \<times> bool) option" where
  "bm_insert m r c =
     (if \<not> r < bm_num_rows m then None
      else if \<not> c < bm_num_cols m then None
      else
        let word_idx = r * bm_words_per_row m + c div 64; mk = mask1 (c mod 64) in
        if \<not> word_idx < length (bm_words m) then None
        else let old = bm_words m ! word_idx
             in Some (m\<lparr>bm_words := (bm_words m)[word_idx := old OR mk]\<rparr>, old AND mk = 0))"

definition bm_remove :: "bitmatrix \<Rightarrow> usize \<Rightarrow> usize \<Rightarrow> (bitmatrix \<times> bool) option" where
  "bm_remove m r c =
     (if \<not> r < bm_num_rows m then None
      else if \<not> c < bm_num_cols m then None
      else
        let word_idx = r * bm_words_per_row m + c div 64; mk = mask1 (c mod 64) in
        if \<not> word_idx < length (bm_words m) then None
        else let old = bm_words m ! word_idx
             in Some (m\<lparr>bm_words := (bm_words m)[word_idx := old AND NOT mk]\<rparr>, old AND mk \<noteq> 0))"

definition bm_contains :: "bitmatrix \<Rightarrow> usize \<Rightarrow> usize \<Rightarrow> bool option" where
  "bm_contains m r c =
     (if \<not> r < bm_num_rows m then None
      else if \<not> c < bm_num_cols m then None
      else
        let word_idx = r * bm_words_per_row m + c div 64 in
        if \<not> word_idx < length (bm_words m) then None
        else Some (bm_words m ! word_idx AND mask1 (c mod 64) \<noteq> 0))"

definition bm_clear :: "bitmatrix \<Rightarrow> bitmatrix" where
  "bm_clear m = m\<lparr>bm_words := map (\<lambda>_. 0) (bm_words m)\<rparr>"

text \<open>\<open>slice[a..b].fill(v)\<close> and \<open>&slice[a..b]\<close>; out of bounds is a panic.\<close>

definition fill_range :: "u64 list \<Rightarrow> nat \<Rightarrow> nat \<Rightarrow> u64 \<Rightarrow> u64 list option" where
  "fill_range ws a b v =
     (if a \<le> b \<and> b \<le> length ws then Some (take a ws @ replicate (b - a) v @ drop b ws) else None)"

definition sub_slice :: "u64 list \<Rightarrow> nat \<Rightarrow> nat \<Rightarrow> u64 list option" where
  "sub_slice ws a b = (if a \<le> b \<and> b \<le> length ws then Some (take (b - a) (drop a ws)) else None)"

definition bm_clear_row :: "bitmatrix \<Rightarrow> usize \<Rightarrow> bitmatrix option" where
  "bm_clear_row m r =
     (if \<not> r < bm_num_rows m then None
      else let start = r * bm_words_per_row m; fin = start + bm_words_per_row m in
        map_option (\<lambda>ws. m\<lparr>bm_words := ws\<rparr>) (fill_range (bm_words m) start fin 0))"

definition bm_set_row :: "bitmatrix \<Rightarrow> usize \<Rightarrow> bitmatrix option" where
  "bm_set_row m r =
     (if \<not> r < bm_num_rows m then None
      else let start = r * bm_words_per_row m; fin = start + bm_words_per_row m in
        case fill_range (bm_words m) start fin (- 1) of
          None \<Rightarrow> None
        | Some ws \<Rightarrow>
            if 0 < bm_num_cols m \<and> bm_num_cols m mod 64 \<noteq> 0 then
              if fin = 0 \<or> \<not> fin - 1 < length ws then None
              else Some (m\<lparr>bm_words :=
                     ws[fin - 1 := ws ! (fin - 1) AND (mask1 (bm_num_cols m mod 64) - 1)]\<rparr>)
            else Some (m\<lparr>bm_words := ws\<rparr>))"

definition bm_row_set :: "bitmatrix \<Rightarrow> usize \<Rightarrow> bitset option" where
  "bm_row_set m r =
     (if \<not> r < bm_num_rows m then None
      else let start = r * bm_words_per_row m; fin = start + bm_words_per_row m in
        map_option bs_from_words (sub_slice (bm_words m) start fin))"

definition bm_set_row_from_set :: "bitmatrix \<Rightarrow> usize \<Rightarrow> bitset \<Rightarrow> bitmatrix option" where
  "bm_set_row_from_set m r s =
     (if \<not> r < bm_num_rows m then None
      else
        let start = r * bm_words_per_row m; fin = start + bm_words_per_row m;
            src = (if bm_words_per_row m < length (bs_words s) then take (bm_words_per_row m) (bs_words s)
                   else bs_words s)
        in if \<not> start + length src \<le> length (bm_words m) then None
           else
             let ws = take start (bm_words m) @ src @ drop (start + length src) (bm_words m)
             in if length src < bm_words_per_row m
                then map_option (\<lambda>ws'. m\<lparr>bm_words := ws'\<rparr>) (fill_range ws (start + length src) fin 0)
                else Some (m\<lparr>bm_words := ws\<rparr>))"

text \<open>
  \<open>union_rows\<close> and \<open>intersect_rows\<close> run the same loop \<open>for i in 0..words_per_row\<close> with \<open>|\<close> and \<open>&\<close>;
  \<open>row_loop f s d n\<close> is its first \<open>n\<close> iterations on the shared vector.
\<close>

primrec row_loop ::
  "(u64 \<Rightarrow> u64 \<Rightarrow> u64) \<Rightarrow> nat \<Rightarrow> nat \<Rightarrow> nat \<Rightarrow> u64 list \<times> bool \<Rightarrow> (u64 list \<times> bool) option" where
  "row_loop f start_s start_d 0 st = Some st"
| "row_loop f start_s start_d (Suc i) st =
     (case row_loop f start_s start_d i st of
        None \<Rightarrow> None
      | Some (ws, changed) \<Rightarrow>
          if \<not> (start_d + i < length ws \<and> start_s + i < length ws) then None
          else let old = ws ! (start_d + i); new = f old (ws ! (start_s + i))
               in if old \<noteq> new then Some (ws[start_d + i := new], True) else Some (ws, changed))"

definition bm_union_rows :: "bitmatrix \<Rightarrow> usize \<Rightarrow> usize \<Rightarrow> (bitmatrix \<times> bool) option" where
  "bm_union_rows m src dest =
     (if \<not> src < bm_num_rows m then None
      else if \<not> dest < bm_num_rows m then None
      else if src = dest then Some (m, False)
      else
        let start_s = src * bm_words_per_row m; start_d = dest * bm_words_per_row m
        in map_option (\<lambda>(ws, changed). (m\<lparr>bm_words := ws\<rparr>, changed))
             (row_loop (OR) start_s start_d (bm_words_per_row m) (bm_words m, False)))"

definition bm_intersect_rows :: "bitmatrix \<Rightarrow> usize \<Rightarrow> usize \<Rightarrow> (bitmatrix \<times> bool) option" where
  "bm_intersect_rows m src dest =
     (if \<not> src < bm_num_rows m then None
      else if \<not> dest < bm_num_rows m then None
      else if src = dest then Some (m, False)
      else
        let start_s = src * bm_words_per_row m; start_d = dest * bm_words_per_row m
        in map_option (\<lambda>(ws, changed). (m\<lparr>bm_words := ws\<rparr>, changed))
             (row_loop (AND) start_s start_d (bm_words_per_row m) (bm_words m, False)))"

text \<open>\<open>BitMatrixRowIter::next\<close> has the body of \<open>BitSetIter::next\<close> over the row's slice.\<close>

definition bm_iter_row :: "bitmatrix \<Rightarrow> usize \<Rightarrow> usize list option" where
  "bm_iter_row m r =
     (if \<not> r < bm_num_rows m then None
      else let start = r * bm_words_per_row m; fin = start + bm_words_per_row m in
        map_option (\<lambda>slice. bs_drain slice 0 0) (sub_slice (bm_words m) start fin))"

section \<open>Well-formed matrices and the rows they denote\<close>

definition bm_wf :: "bitmatrix \<Rightarrow> bool" where
  "bm_wf m \<longleftrightarrow> bm_words_per_row m = div_ceil (bm_num_cols m) 64 \<and>
     length (bm_words m) = bm_num_rows m * bm_words_per_row m"

definition row_words :: "bitmatrix \<Rightarrow> nat \<Rightarrow> u64 list" where
  "row_words m r = take (bm_words_per_row m) (drop (r * bm_words_per_row m) (bm_words m))"

definition bm_row :: "bitmatrix \<Rightarrow> nat \<Rightarrow> nat set" where
  "bm_row m r = {c. wmem (row_words m r) c}"

text \<open>Two matrices have the same shape when only the words may differ.\<close>

definition same_shape :: "bitmatrix \<Rightarrow> bitmatrix \<Rightarrow> bool" where
  "same_shape m m' \<longleftrightarrow> (\<exists>ws. m' = m\<lparr>bm_words := ws\<rparr> \<and> length ws = length (bm_words m))"

lemma same_shape_refl [simp]: "same_shape m m"
  unfolding same_shape_def by (rule exI [of _ "bm_words m"]) simp

lemma same_shape_wf: "same_shape m m' \<Longrightarrow> bm_wf m \<Longrightarrow> bm_wf m'"
  by (auto simp: same_shape_def bm_wf_def)

lemma row_end_le: "r < n \<Longrightarrow> r * k + k \<le> n * k" for r n k :: nat
  by (metis Suc_leI add.commute mult_Suc mult_le_mono1)

lemma row_index_lt: "r < n \<Longrightarrow> j < k \<Longrightarrow> r * k + j < n * k" for r n k :: nat
  using row_end_le [of r n k] by simp

lemma row_index_div: "j < k \<Longrightarrow> (r * k + j) div k = r" for r j k :: nat
  by (metis add.right_neutral div_less div_mult_self3 less_nat_zero_code add.commute)

lemma row_index_eq_iff:
  "j < k \<Longrightarrow> j' < k \<Longrightarrow> r * k + j = r' * k + j' \<longleftrightarrow> r = r' \<and> j = j'" for r r' j k :: nat
  by (metis add_left_cancel row_index_div)

lemma bm_row_iff:
  assumes "bm_wf m" "r < bm_num_rows m"
  shows "c \<in> bm_row m r \<longleftrightarrow> c div 64 < bm_words_per_row m \<and>
    bit (bm_words m ! (r * bm_words_per_row m + c div 64)) (c mod 64)"
  using assms row_end_le [of r "bm_num_rows m" "bm_words_per_row m"]
  by (auto simp: bm_row_def wmem_def row_words_def bm_wf_def min_def)

text \<open>The word of a row that holds a column.\<close>

abbreviation bm_word :: "bitmatrix \<Rightarrow> nat \<Rightarrow> nat \<Rightarrow> u64" where
  "bm_word m r j \<equiv> bm_words m ! (r * bm_words_per_row m + j)"

lemma col_word_lt: "bm_wf m \<Longrightarrow> c < bm_num_cols m \<Longrightarrow> c div 64 < bm_words_per_row m"
  by (simp add: bm_wf_def div_lt_div_ceil)

lemma bm_word_idx_lt:
  "bm_wf m \<Longrightarrow> r < bm_num_rows m \<Longrightarrow> j < bm_words_per_row m \<Longrightarrow>
   r * bm_words_per_row m + j < length (bm_words m)"
  by (simp add: bm_wf_def row_index_lt)

text \<open>An operation that rewrites one word leaves every other word of the matrix alone.\<close>

lemma bm_word_update:
  assumes "bm_wf m" "r < bm_num_rows m" "j < bm_words_per_row m" "j' < bm_words_per_row m"
  shows "bm_word (m\<lparr>bm_words := (bm_words m)[r * bm_words_per_row m + j := w]\<rparr>) r' j' =
    (if r' = r \<and> j' = j then w else bm_word m r' j')"
  using assms bm_word_idx_lt [OF assms(1-3)]
  by (auto simp: nth_list_update row_index_eq_iff)

lemma bm_wf_words [simp]:
  "length ws = length (bm_words m) \<Longrightarrow> bm_wf (m\<lparr>bm_words := ws\<rparr>) \<longleftrightarrow> bm_wf m"
  by (simp add: bm_wf_def)

lemma bm_insert_spec:
  assumes "bm_wf m" "r < bm_num_rows m" "c < bm_num_cols m"
  obtains m' where "bm_insert m r c = Some (m', c \<notin> bm_row m r)" "bm_wf m'" "same_shape m m'"
    "\<And>r'. r' < bm_num_rows m \<Longrightarrow> bm_row m' r' = (if r' = r then insert c (bm_row m r) else bm_row m r')"
proof -
  let ?i = "r * bm_words_per_row m + c div 64"
  let ?m = "m\<lparr>bm_words := (bm_words m)[?i := bm_words m ! ?i OR mask1 (c mod 64)]\<rparr>"
  note cw = col_word_lt [OF assms(1,3)]
  note lt = bm_word_idx_lt [OF assms(1,2) cw]
  have "bm_insert m r c = Some (?m, c \<notin> bm_row m r)"
    using assms lt cw by (simp add: bm_insert_def Let_def and_mask1_eq_0 bm_row_iff)
  moreover have "bm_wf ?m" using assms(1) by simp
  moreover have "same_shape m ?m" by (auto simp: same_shape_def intro!: exI)
  moreover have "bm_row ?m r' = (if r' = r then insert c (bm_row m r) else bm_row m r')"
    if "r' < bm_num_rows m" for r'
  proof (rule set_eqI)
    fix d
    show "d \<in> bm_row ?m r' \<longleftrightarrow> d \<in> (if r' = r then insert c (bm_row m r) else bm_row m r')"
      using that assms cw \<open>bm_wf ?m\<close> bm_word_update [OF assms(1,2) cw, of "d div 64" _ r']
      by (cases "d div 64 < bm_words_per_row m")
        (auto simp: bm_row_iff bit_or_mask1 dest: div_mod_inj)
  qed
  ultimately show ?thesis by (rule that)
qed

lemma bm_remove_spec:
  assumes "bm_wf m" "r < bm_num_rows m" "c < bm_num_cols m"
  obtains m' where "bm_remove m r c = Some (m', c \<in> bm_row m r)" "bm_wf m'" "same_shape m m'"
    "\<And>r'. r' < bm_num_rows m \<Longrightarrow> bm_row m' r' = (if r' = r then bm_row m r - {c} else bm_row m r')"
proof -
  let ?i = "r * bm_words_per_row m + c div 64"
  let ?m = "m\<lparr>bm_words := (bm_words m)[?i := bm_words m ! ?i AND NOT (mask1 (c mod 64))]\<rparr>"
  note cw = col_word_lt [OF assms(1,3)]
  note lt = bm_word_idx_lt [OF assms(1,2) cw]
  have "bm_remove m r c = Some (?m, c \<in> bm_row m r)"
    using assms lt cw by (simp add: bm_remove_def Let_def and_mask1_eq_0 bm_row_iff)
  moreover have "bm_wf ?m" using assms(1) by simp
  moreover have "same_shape m ?m" by (auto simp: same_shape_def intro!: exI)
  moreover have "bm_row ?m r' = (if r' = r then bm_row m r - {c} else bm_row m r')"
    if "r' < bm_num_rows m" for r'
  proof (rule set_eqI)
    fix d
    show "d \<in> bm_row ?m r' \<longleftrightarrow> d \<in> (if r' = r then bm_row m r - {c} else bm_row m r')"
      using that assms cw \<open>bm_wf ?m\<close> bm_word_update [OF assms(1,2) cw, of "d div 64" _ r']
      by (cases "d div 64 < bm_words_per_row m")
        (auto simp: bm_row_iff bit_and_not_mask1 dest: div_mod_inj)
  qed
  ultimately show ?thesis by (rule that)
qed

lemma bm_contains_row [set_view]:
  "bm_wf m \<Longrightarrow> bm_contains m r c =
    (if r < bm_num_rows m \<and> c < bm_num_cols m then Some (c \<in> bm_row m r) else None)"
  using bm_word_idx_lt [of m r "c div 64"] col_word_lt [of m c]
  by (auto simp: bm_contains_def Let_def and_mask1_eq_0 bm_row_iff)

lemma bm_new_rows:
  "bm_new rows cols = Some m \<Longrightarrow> bm_wf m \<and> bm_num_rows m = rows \<and> bm_num_cols m = cols \<and>
     (\<forall>r < rows. bm_row m r = {})"
  by (auto simp: bm_new_def Let_def bm_wf_def bm_row_def row_words_def wmem_def split: if_splits)

section \<open>Operations on whole rows\<close>

lemma row_loop_spec:
  assumes "start_s + n \<le> length ws" "start_d + n \<le> length ws"
    "start_s + n \<le> start_d \<or> start_d + n \<le> start_s"
  shows "\<exists>ws' c'. row_loop f start_s start_d n (ws, c) = Some (ws', c') \<and> length ws' = length ws \<and>
    (\<forall>k. ws' ! k = (if start_d \<le> k \<and> k < start_d + n
       then f (ws ! k) (ws ! (start_s + (k - start_d))) else ws ! k)) \<and>
    (c' \<longleftrightarrow> c \<or> (\<exists>i < n. f (ws ! (start_d + i)) (ws ! (start_s + i)) \<noteq> ws ! (start_d + i)))"
  using assms
proof (induction n)
  case 0
  then show ?case by auto
next
  case (Suc n)
  then obtain ws' c' where IH: "row_loop f start_s start_d n (ws, c) = Some (ws', c')"
    "length ws' = length ws"
    "\<And>k. ws' ! k = (if start_d \<le> k \<and> k < start_d + n
       then f (ws ! k) (ws ! (start_s + (k - start_d))) else ws ! k)"
    "c' \<longleftrightarrow> c \<or> (\<exists>i < n. f (ws ! (start_d + i)) (ws ! (start_s + i)) \<noteq> ws ! (start_d + i))"
    by auto
  have old: "ws' ! (start_d + n) = ws ! (start_d + n)" "ws' ! (start_s + n) = ws ! (start_s + n)"
    using IH(3) Suc.prems(3) by auto
  have bounds: "start_d + n < length ws'" "start_s + n < length ws'"
    using Suc.prems IH(2) by auto
  let ?new = "f (ws ! (start_d + n)) (ws ! (start_s + n))"
  have run: "row_loop f start_s start_d (Suc n) (ws, c) =
      Some (ws'[start_d + n := ?new], c' \<or> ?new \<noteq> ws ! (start_d + n))"
    using IH(1) old bounds by (auto simp: Let_def) (metis list_update_id)
  have "(ws'[start_d + n := ?new]) ! k = (if start_d \<le> k \<and> k < start_d + Suc n
       then f (ws ! k) (ws ! (start_s + (k - start_d))) else ws ! k)" for k
    using bounds by (auto simp: nth_list_update IH(3) less_Suc_eq)
  then show ?case using run IH(2,4) by (auto simp: less_Suc_eq)
qed

lemma rows_disjoint:
  "r \<noteq> r' \<Longrightarrow> r * k + k \<le> r' * k \<or> r' * k + k \<le> r * k" for r r' k :: nat
  by (metis linorder_neqE_nat row_end_le)

lemma in_row_iff:
  "j < k \<Longrightarrow> r * k \<le> r' * k + j \<and> r' * k + j < r * k + k \<longleftrightarrow> r' = r" for r r' j k :: nat
  using rows_disjoint [of r r' k] by (cases "r' = r") auto

lemma row_loop_rows:
  assumes wf: "bm_wf m" "src < bm_num_rows m" "dest < bm_num_rows m" "src \<noteq> dest"
    and run: "row_loop f (src * bm_words_per_row m) (dest * bm_words_per_row m)
      (bm_words_per_row m) (bm_words m, False) = Some (ws, changed)"
  shows "length ws = length (bm_words m)"
    "\<And>r j. j < bm_words_per_row m \<Longrightarrow> bm_word (m\<lparr>bm_words := ws\<rparr>) r j =
       (if r = dest then f (bm_word m dest j) (bm_word m src j) else bm_word m r j)"
    "changed \<longleftrightarrow> (\<exists>j < bm_words_per_row m. f (bm_word m dest j) (bm_word m src j) \<noteq> bm_word m dest j)"
proof -
  let ?k = "bm_words_per_row m"
  have le: "src * ?k + ?k \<le> length (bm_words m)" "dest * ?k + ?k \<le> length (bm_words m)"
    using wf row_end_le [of _ "bm_num_rows m" ?k] by (auto simp: bm_wf_def)
  note spec = row_loop_spec [OF le rows_disjoint [OF wf(4)], of f False]
  from spec run show "length ws = length (bm_words m)" by auto
  from spec run
  show "changed \<longleftrightarrow> (\<exists>j < ?k. f (bm_word m dest j) (bm_word m src j) \<noteq> bm_word m dest j)" by auto
  fix r j assume j: "j < ?k"
  from spec run have "ws ! (r * ?k + j) =
      (if dest * ?k \<le> r * ?k + j \<and> r * ?k + j < dest * ?k + ?k
       then f (bm_words m ! (r * ?k + j)) (bm_words m ! (src * ?k + (r * ?k + j - dest * ?k)))
       else bm_words m ! (r * ?k + j))" by auto
  then show "bm_word (m\<lparr>bm_words := ws\<rparr>) r j =
      (if r = dest then f (bm_word m dest j) (bm_word m src j) else bm_word m r j)"
    using in_row_iff [OF j, of dest r] by simp
qed

lemma row_loop_total:
  assumes "bm_wf m" "src < bm_num_rows m" "dest < bm_num_rows m" "src \<noteq> dest"
  shows "\<exists>ws changed. row_loop f (src * bm_words_per_row m) (dest * bm_words_per_row m)
      (bm_words_per_row m) (bm_words m, False) = Some (ws, changed)"
proof -
  have "src * bm_words_per_row m + bm_words_per_row m \<le> length (bm_words m)"
    "dest * bm_words_per_row m + bm_words_per_row m \<le> length (bm_words m)"
    using assms row_end_le [of _ "bm_num_rows m" "bm_words_per_row m"] by (auto simp: bm_wf_def)
  from row_loop_spec [OF this rows_disjoint [OF assms(4)], of f False] show ?thesis by blast
qed

lemma row_changed_iff:
  assumes "bm_wf m" "bm_wf m'" "same_shape m m'" "r < bm_num_rows m"
  shows "bm_row m' r \<noteq> bm_row m r \<longleftrightarrow>
    (\<exists>j < bm_words_per_row m. bm_word m' r j \<noteq> bm_word m r j)"
proof
  have sh: "bm_num_rows m' = bm_num_rows m" "bm_words_per_row m' = bm_words_per_row m"
    using assms(3) by (auto simp: same_shape_def)
  assume "bm_row m' r \<noteq> bm_row m r"
  then show "\<exists>j < bm_words_per_row m. bm_word m' r j \<noteq> bm_word m r j"
    using assms sh by (fastforce simp: bm_row_iff set_eq_iff)
next
  have sh: "bm_num_rows m' = bm_num_rows m" "bm_words_per_row m' = bm_words_per_row m"
    using assms(3) by (auto simp: same_shape_def)
  assume "\<exists>j < bm_words_per_row m. bm_word m' r j \<noteq> bm_word m r j"
  then obtain j b where j: "j < bm_words_per_row m" "b < 64"
    "bit (bm_word m' r j) b \<noteq> bit (bm_word m r j) b"
    by (metis word64_eq_iff)
  then have "64 * j + b \<in> bm_row m' r \<longleftrightarrow> 64 * j + b \<notin> bm_row m r"
    using assms sh by (simp add: bm_row_iff)
  then show "bm_row m' r \<noteq> bm_row m r" by auto
qed

lemma bm_union_rows_spec:
  assumes "bm_wf m" "src < bm_num_rows m" "dest < bm_num_rows m"
  obtains m' changed where "bm_union_rows m src dest = Some (m', changed)" "bm_wf m'"
    "same_shape m m'"
    "\<And>r. r < bm_num_rows m \<Longrightarrow> bm_row m' r =
       (if r = dest then bm_row m dest \<union> bm_row m src else bm_row m r)"
    "changed \<longleftrightarrow> bm_row m' dest \<noteq> bm_row m dest"
proof (cases "src = dest")
  case True
  then show ?thesis using assms that [of m False]
    by (simp add: bm_union_rows_def)
next
  case False
  obtain ws changed where run: "row_loop (OR) (src * bm_words_per_row m) (dest * bm_words_per_row m)
      (bm_words_per_row m) (bm_words m, False) = Some (ws, changed)"
    using row_loop_total [OF assms False, of "(OR)"] by auto
  note spec = row_loop_rows [OF assms False run]
  let ?m = "m\<lparr>bm_words := ws\<rparr>"
  have m': "bm_union_rows m src dest = Some (?m, changed)"
    using assms False run by (simp add: bm_union_rows_def Let_def)
  have wf': "bm_wf ?m" and sh: "same_shape m ?m"
    using assms(1) spec(1) by (auto simp: same_shape_def)
  have rows: "bm_row ?m r = (if r = dest then bm_row m dest \<union> bm_row m src else bm_row m r)"
    if "r < bm_num_rows m" for r
    using that assms wf' spec(2) [of _ r] by (auto simp: bm_row_iff bit_or_iff)
  have "changed \<longleftrightarrow> bm_row ?m dest \<noteq> bm_row m dest"
    unfolding row_changed_iff [OF assms(1) wf' sh assms(3)] spec(3) using spec(2) [of _ dest] by auto
  with m' wf' sh rows show ?thesis by (intro that) auto
qed

lemma bm_intersect_rows_spec:
  assumes "bm_wf m" "src < bm_num_rows m" "dest < bm_num_rows m"
  obtains m' changed where "bm_intersect_rows m src dest = Some (m', changed)" "bm_wf m'"
    "same_shape m m'"
    "\<And>r. r < bm_num_rows m \<Longrightarrow> bm_row m' r =
       (if r = dest then bm_row m dest \<inter> bm_row m src else bm_row m r)"
    "changed \<longleftrightarrow> bm_row m' dest \<noteq> bm_row m dest"
proof (cases "src = dest")
  case True
  then show ?thesis using assms that [of m False]
    by (simp add: bm_intersect_rows_def)
next
  case False
  obtain ws changed where run: "row_loop (AND) (src * bm_words_per_row m) (dest * bm_words_per_row m)
      (bm_words_per_row m) (bm_words m, False) = Some (ws, changed)"
    using row_loop_total [OF assms False, of "(AND)"] by auto
  note spec = row_loop_rows [OF assms False run]
  let ?m = "m\<lparr>bm_words := ws\<rparr>"
  have m': "bm_intersect_rows m src dest = Some (?m, changed)"
    using assms False run by (simp add: bm_intersect_rows_def Let_def)
  have wf': "bm_wf ?m" and sh: "same_shape m ?m"
    using assms(1) spec(1) by (auto simp: same_shape_def)
  have rows: "bm_row ?m r = (if r = dest then bm_row m dest \<inter> bm_row m src else bm_row m r)"
    if "r < bm_num_rows m" for r
    using that assms wf' spec(2) [of _ r] by (auto simp: bm_row_iff bit_and_iff)
  have "changed \<longleftrightarrow> bm_row ?m dest \<noteq> bm_row m dest"
    unfolding row_changed_iff [OF assms(1) wf' sh assms(3)] spec(3) using spec(2) [of _ dest] by auto
  with m' wf' sh rows show ?thesis by (intro that) auto
qed

text \<open>Overwriting a whole row: the row's words are replaced, the other rows are kept.\<close>

lemma put_row_rows:
  assumes "bm_wf m" "r < bm_num_rows m" "length vs = bm_words_per_row m"
  defines "m' \<equiv> m\<lparr>bm_words := take (r * bm_words_per_row m) (bm_words m) @ vs @
    drop (r * bm_words_per_row m + bm_words_per_row m) (bm_words m)\<rparr>"
  shows "bm_wf m'" "same_shape m m'"
    "\<And>r'. r' < bm_num_rows m \<Longrightarrow> bm_row m' r' = (if r' = r then {c. wmem vs c} else bm_row m r')"
proof -
  let ?k = "bm_words_per_row m" and ?ws = "bm_words m"
  have le: "r * ?k + ?k \<le> length ?ws"
    using assms(1,2) row_end_le [of r "bm_num_rows m" ?k] by (simp add: bm_wf_def)
  then have len: "length (bm_words m') = length ?ws" using assms(3) by (simp add: m'_def)
  then show "bm_wf m'" and "same_shape m m'"
    using assms(1) by (auto simp: m'_def bm_wf_def same_shape_def intro!: exI)
  have word: "bm_words m' ! (r' * ?k + j) = (if r' = r then vs ! j else ?ws ! (r' * ?k + j))"
    if j: "j < ?k" for r' j
  proof (cases r' r rule: linorder_cases)
    case less
    then have "r' * ?k + j < r * ?k" using row_index_lt [OF less j] by simp
    then show ?thesis using le less by (simp add: m'_def nth_append)
  next
    case equal
    then show ?thesis using j assms(3) le by (simp add: m'_def nth_append min_def)
  next
    case greater
    then have ge: "r * ?k + ?k \<le> r' * ?k + j" using row_end_le [OF greater, of ?k] by simp
    have "length (take (r * ?k) ?ws) = r * ?k" using le by simp
    with ge le greater assms(3) show ?thesis
      by (auto simp: m'_def nth_append simp del: length_take)
  qed
  fix r' assume r': "r' < bm_num_rows m"
  have "bm_words_per_row m' = ?k" "bm_num_rows m' = bm_num_rows m" by (simp_all add: m'_def)
  with \<open>bm_wf m'\<close> show "bm_row m' r' = (if r' = r then {c. wmem vs c} else bm_row m r')"
    using r' assms(1-3) by (auto simp: bm_row_iff word wmem_def)
qed

lemma Collect_wmem_replicate_0 [simp]: "Collect (wmem (replicate n 0)) = {}"
  by auto

lemma replicate_Suc_snoc: "replicate (Suc n) x = replicate n x @ [x]"
  by (simp add: replicate_append_same)

lemma bm_clear_row_spec:
  assumes "bm_wf m" "r < bm_num_rows m"
  obtains m' where "bm_clear_row m r = Some m'" "bm_wf m'" "same_shape m m'"
    "\<And>r'. r' < bm_num_rows m \<Longrightarrow> bm_row m' r' = (if r' = r then {} else bm_row m r')"
proof -
  let ?k = "bm_words_per_row m"
  let ?m = "m\<lparr>bm_words := take (r * ?k) (bm_words m) @ replicate ?k 0 @
    drop (r * ?k + ?k) (bm_words m)\<rparr>"
  have "r * ?k + ?k \<le> length (bm_words m)"
    using assms row_end_le [of r "bm_num_rows m"] by (simp add: bm_wf_def)
  then have "bm_clear_row m r = Some ?m"
    using assms(2) by (simp add: bm_clear_row_def fill_range_def Let_def)
  moreover have len: "length (replicate ?k (0 :: u64)) = ?k" by simp
  ultimately show ?thesis using put_row_rows [OF assms len] by (intro that) auto
qed

lemma wmem_all_set: "wmem (bs_words (bs_all_set n)) c \<longleftrightarrow> c < n"
  using bs_all_set_elems [of n] by (auto simp: bs_elems_def)

lemma bs_all_set_words:
  "bs_words (bs_all_set n) =
     (if n mod 64 = 0 then replicate (div_ceil n 64) (- 1)
      else replicate (n div 64) (- 1) @ [mask1 (n mod 64) - 1])"
proof (cases "n mod 64 = 0")
  case False
  then have "0 < n" by (cases n) auto
  with False show ?thesis
    by (simp add: bs_all_set_def Let_def div_ceil_def replicate_Suc_snoc list_update_append
        del: replicate_Suc)
qed (simp add: bs_all_set_def Let_def)

lemma bm_set_row_spec:
  assumes "bm_wf m" "r < bm_num_rows m"
  obtains m' where "bm_set_row m r = Some m'" "bm_wf m'" "same_shape m m'"
    "\<And>r'. r' < bm_num_rows m \<Longrightarrow>
       bm_row m' r' = (if r' = r then {..<bm_num_cols m} else bm_row m r')"
proof -
  let ?k = "bm_words_per_row m" and ?n = "bm_num_cols m" and ?ws = "bm_words m"
  let ?vs = "bs_words (bs_all_set ?n)"
  let ?m = "m\<lparr>bm_words := take (r * ?k) ?ws @ ?vs @ drop (r * ?k + ?k) ?ws\<rparr>"
  have k: "?k = div_ceil ?n 64" using assms(1) by (simp add: bm_wf_def)
  have le: "r * ?k + ?k \<le> length ?ws"
    using assms row_end_le [of r "bm_num_rows m"] by (simp add: bm_wf_def)
  have len: "length ?vs = ?k" by (auto simp: bs_all_set_words k div_ceil_def)
  have "bm_set_row m r = Some ?m"
  proof (cases "?n mod 64 = 0")
    case True
    then show ?thesis using assms(2) le
      by (simp add: bm_set_row_def fill_range_def Let_def bs_all_set_words k)
  next
    case False
    then have kS: "?k = Suc (?n div 64)" and "0 < ?n" using k by (auto simp: div_ceil_def intro: gr0I)
    have fill: "fill_range ?ws (r * ?k) (r * ?k + ?k) (- 1) =
        Some (take (r * ?k) ?ws @ replicate (?n div 64) (- 1) @ [- 1] @ drop (r * ?k + ?k) ?ws)"
      using le by (simp add: fill_range_def kS replicate_Suc_snoc del: replicate_Suc)
    have idx: "r * ?k + ?k - 1 = length (take (r * ?k) ?ws @ replicate (?n div 64) (- 1 :: u64))"
      using le kS by simp
    show ?thesis
      using assms(2) False \<open>0 < ?n\<close> le kS unfolding bm_set_row_def Let_def fill
      by (simp add: idx bs_all_set_words nth_append list_update_append)
  qed
  with put_row_rows [OF assms len] show ?thesis
    by (intro that) (auto simp: wmem_all_set)
qed

text \<open>
  \<open>set_row_from_set\<close> copies whole words: columns that fit into the row's words are copied even when
  they are not below \<open>num_cols\<close>; columns beyond them are dropped.
\<close>

lemma bm_set_row_from_set_spec:
  assumes "bm_wf m" "r < bm_num_rows m"
  obtains m' where "bm_set_row_from_set m r s = Some m'" "bm_wf m'" "same_shape m m'"
    "\<And>r'. r' < bm_num_rows m \<Longrightarrow> bm_row m' r' =
       (if r' = r then {c \<in> bs_elems s. c < 64 * bm_words_per_row m} else bm_row m r')"
proof -
  let ?k = "bm_words_per_row m" and ?ws = "bm_words m"
  let ?src = "take ?k (bs_words s)"
  let ?vs = "?src @ replicate (?k - length ?src) 0"
  let ?m = "m\<lparr>bm_words := take (r * ?k) ?ws @ ?vs @ drop (r * ?k + ?k) ?ws\<rparr>"
  have le: "r * ?k + ?k \<le> length ?ws"
    using assms row_end_le [of r "bm_num_rows m"] by (simp add: bm_wf_def)
  have len: "length ?vs = ?k" by simp
  have src: "(if ?k < length (bs_words s) then take ?k (bs_words s) else bs_words s) = ?src"
    by simp
  have "bm_set_row_from_set m r s = Some ?m"
    using assms(2) le unfolding bm_set_row_from_set_def Let_def src
    by (auto simp: fill_range_def min_def add.commute)
  moreover have "wmem ?vs c \<longleftrightarrow> c \<in> bs_elems s \<and> c < 64 * ?k" for c
    by (auto simp: wmem_def bs_elems_def nth_append div_less_iff_less_mult mult.commute)
  ultimately show ?thesis using put_row_rows [OF assms len]
    by (intro that) auto
qed

lemma sub_slice_row:
  "bm_wf m \<Longrightarrow> r < bm_num_rows m \<Longrightarrow>
   sub_slice (bm_words m) (r * bm_words_per_row m) (r * bm_words_per_row m + bm_words_per_row m) =
     Some (row_words m r)"
  using row_end_le [of r "bm_num_rows m" "bm_words_per_row m"]
  by (simp add: sub_slice_def row_words_def bm_wf_def)

lemma bm_row_set_elems:
  "bm_wf m \<Longrightarrow> r < bm_num_rows m \<Longrightarrow> \<exists>s. bm_row_set m r = Some s \<and> bs_elems s = bm_row m r"
  by (auto simp: bm_row_set_def Let_def sub_slice_row bs_from_words_def bs_elems_def bm_row_def)

lemma bm_iter_row_sorted [set_view]:
  assumes "bm_wf m" "r < bm_num_rows m"
  shows "bm_iter_row m r = Some (sorted_list_of_set (bm_row m r))"
  using assms bs_iter_sorted_list [of "bs_from_words (row_words m r)"]
  by (simp add: bm_iter_row_def Let_def sub_slice_row bs_iter_def bs_from_words_def bs_elems_def
      bm_row_def)

lemma bm_clear_rows:
  "bm_wf m \<Longrightarrow> bm_wf (bm_clear m) \<and> same_shape m (bm_clear m) \<and>
     (r < bm_num_rows m \<longrightarrow> bm_row (bm_clear m) r = {})"
  by (auto simp: bm_clear_def same_shape_def map_replicate_const bm_row_def row_words_def bm_wf_def
      take_replicate drop_replicate)

lemma bm_insert_None:
  "bm_wf m \<Longrightarrow> bm_insert m r c = None \<longleftrightarrow> \<not> (r < bm_num_rows m \<and> c < bm_num_cols m)"
  by (cases "r < bm_num_rows m"; cases "c < bm_num_cols m")
    (auto simp: bm_insert_def Let_def dest: bm_word_idx_lt [OF _ _ col_word_lt])

lemma bm_remove_None:
  "bm_wf m \<Longrightarrow> bm_remove m r c = None \<longleftrightarrow> \<not> (r < bm_num_rows m \<and> c < bm_num_cols m)"
  by (cases "r < bm_num_rows m"; cases "c < bm_num_cols m")
    (auto simp: bm_remove_def Let_def dest: bm_word_idx_lt [OF _ _ col_word_lt])

lemma bm_insert_Some:
  assumes "bm_wf m" "bm_insert m r c = Some (m', fresh)"
  shows "bm_wf m' \<and> fresh = (c \<notin> bm_row m r) \<and>
    (\<forall>r' < bm_num_rows m. bm_row m' r' = (if r' = r then insert c (bm_row m r) else bm_row m r'))"
proof -
  have "r < bm_num_rows m" "c < bm_num_cols m" using assms(2) bm_insert_None [OF assms(1), of r c] by auto
  then show ?thesis by (rule bm_insert_spec [OF assms(1)]) (use assms(2) in auto)
qed

lemma bm_remove_Some:
  assumes "bm_wf m" "bm_remove m r c = Some (m', present)"
  shows "bm_wf m' \<and> present = (c \<in> bm_row m r) \<and>
    (\<forall>r' < bm_num_rows m. bm_row m' r' = (if r' = r then bm_row m r - {c} else bm_row m r'))"
proof -
  have "r < bm_num_rows m" "c < bm_num_cols m" using assms(2) bm_remove_None [OF assms(1), of r c] by auto
  then show ?thesis by (rule bm_remove_spec [OF assms(1)]) (use assms(2) in auto)
qed

lemma bm_union_rows_Some:
  assumes "bm_wf m" "src < bm_num_rows m" "dest < bm_num_rows m"
  shows "\<exists>m'. bm_union_rows m src dest = Some (m', \<not> bm_row m src \<subseteq> bm_row m dest) \<and> bm_wf m' \<and>
    (\<forall>r < bm_num_rows m. bm_row m' r = (if r = dest then bm_row m dest \<union> bm_row m src else bm_row m r))"
proof (rule bm_union_rows_spec [OF assms])
  fix m' changed
  assume run: "bm_union_rows m src dest = Some (m', changed)" "bm_wf m'"
    and ch: "changed \<longleftrightarrow> bm_row m' dest \<noteq> bm_row m dest"
    and rows: "\<And>r. r < bm_num_rows m \<Longrightarrow>
      bm_row m' r = (if r = dest then bm_row m dest \<union> bm_row m src else bm_row m r)"
  have "changed \<longleftrightarrow> \<not> bm_row m src \<subseteq> bm_row m dest" using ch rows [OF assms(3)] by auto
  with run rows show ?thesis by (intro exI [of _ m']) simp
qed

lemma bm_intersect_rows_Some:
  assumes "bm_wf m" "src < bm_num_rows m" "dest < bm_num_rows m"
  shows "\<exists>m'. bm_intersect_rows m src dest = Some (m', \<not> bm_row m dest \<subseteq> bm_row m src) \<and> bm_wf m' \<and>
    (\<forall>r < bm_num_rows m. bm_row m' r = (if r = dest then bm_row m dest \<inter> bm_row m src else bm_row m r))"
proof (rule bm_intersect_rows_spec [OF assms])
  fix m' changed
  assume run: "bm_intersect_rows m src dest = Some (m', changed)" "bm_wf m'"
    and ch: "changed \<longleftrightarrow> bm_row m' dest \<noteq> bm_row m dest"
    and rows: "\<And>r. r < bm_num_rows m \<Longrightarrow>
      bm_row m' r = (if r = dest then bm_row m dest \<inter> bm_row m src else bm_row m r)"
  have "changed \<longleftrightarrow> \<not> bm_row m dest \<subseteq> bm_row m src" using ch rows [OF assms(3)] by auto
  with run rows show ?thesis by (intro exI [of _ m']) simp
qed

section \<open>Properties\<close>

text \<open>A matrix of two rows of seventy columns with column 69 in row 0.\<close>

definition ex_matrix :: bitmatrix where
  "ex_matrix = \<lparr>bm_words = [0, 32, 0, 0], bm_num_rows = 2, bm_num_cols = 70, bm_words_per_row = 2\<rparr>"

lemma ex_matrix_wf: "bm_wf ex_matrix"
  by (simp add: ex_matrix_def bm_wf_def div_ceil_def)

lemma ex_matrix_shape [simp]: "bm_num_rows ex_matrix = 2" "bm_num_cols ex_matrix = 70"
  by (simp_all add: ex_matrix_def)

text \<open>
  C39: a matrix behaves as a vector of independent sets: on a well-formed matrix and two rows in
  range, \<open>union_rows\<close> and \<open>intersect_rows\<close> do not panic, keep the matrix well-formed, combine the
  destination row with the source row, leave every other row alone, and answer whether the
  destination changed.
\<close>

theorem bitmatrix_row_operations:
  assumes "bm_wf m" "src < bm_num_rows m" "dest < bm_num_rows m"
  shows "(\<exists>m'. bm_union_rows m src dest = Some (m', \<not> bm_row m src \<subseteq> bm_row m dest) \<and> bm_wf m' \<and>
      (\<forall>r < bm_num_rows m. bm_row m' r = (if r = dest then bm_row m dest \<union> bm_row m src else bm_row m r))) \<and>
    (\<exists>m'. bm_intersect_rows m src dest = Some (m', \<not> bm_row m dest \<subseteq> bm_row m src) \<and> bm_wf m' \<and>
      (\<forall>r < bm_num_rows m. bm_row m' r = (if r = dest then bm_row m dest \<inter> bm_row m src else bm_row m r)))"
  using bm_union_rows_Some [OF assms] bm_intersect_rows_Some [OF assms] by (rule conjI)

theorem bitmatrix_row_operations_witness:
  "\<exists>m'. bm_union_rows ex_matrix 0 1 = Some (m', \<not> bm_row ex_matrix 0 \<subseteq> bm_row ex_matrix 1) \<and>
     bm_row m' 1 = bm_row ex_matrix 1 \<union> bm_row ex_matrix 0 \<and> bm_row m' 0 = bm_row ex_matrix 0"
  using bitmatrix_row_operations [OF ex_matrix_wf, of 0 1] by fastforce

text \<open>
  C40: on a well-formed matrix the point operations panic exactly when the row or the column is out of
  range, and otherwise read or update the one element asked for, in its row alone, keeping the
  matrix well-formed and answering as those of a set do.
\<close>

theorem bitmatrix_point_operations:
  assumes "bm_wf m"
  shows "bm_contains m r c =
      (if r < bm_num_rows m \<and> c < bm_num_cols m then Some (c \<in> bm_row m r) else None) \<and>
    (bm_insert m r c = None) = (\<not> (r < bm_num_rows m \<and> c < bm_num_cols m)) \<and>
    (bm_remove m r c = None) = (\<not> (r < bm_num_rows m \<and> c < bm_num_cols m)) \<and>
    (\<forall>m' fresh. bm_insert m r c = Some (m', fresh) \<longrightarrow> bm_wf m' \<and> fresh = (c \<notin> bm_row m r) \<and>
      (\<forall>r' < bm_num_rows m. bm_row m' r' = (if r' = r then insert c (bm_row m r) else bm_row m r'))) \<and>
    (\<forall>m' present. bm_remove m r c = Some (m', present) \<longrightarrow> bm_wf m' \<and> present = (c \<in> bm_row m r) \<and>
      (\<forall>r' < bm_num_rows m. bm_row m' r' = (if r' = r then bm_row m r - {c} else bm_row m r')))"
  using bm_contains_row [OF assms, of r c] bm_insert_None [OF assms, of r c]
    bm_remove_None [OF assms, of r c] bm_insert_Some [OF assms, of r c]
    bm_remove_Some [OF assms, of r c]
  by blast

theorem bitmatrix_point_operations_witness:
  "bm_contains ex_matrix 0 69 = Some (69 \<in> bm_row ex_matrix 0) \<and> bm_contains ex_matrix 0 70 = None \<and>
   bm_insert ex_matrix 2 0 = None"
  using bitmatrix_point_operations [OF ex_matrix_wf, of 0 69]
    bitmatrix_point_operations [OF ex_matrix_wf, of 0 70]
    bitmatrix_point_operations [OF ex_matrix_wf, of 2 0]
  by simp

text \<open>
  The row views agree with the rows: \<open>iter_row\<close> lists the columns of a row in ascending order,
  \<open>row_set\<close> copies it into a bit set, \<open>set_row\<close> fills exactly the columns below \<open>num_cols\<close>, and
  \<open>clear_row\<close> empties one row; none of them panics on a row in range.
\<close>

theorem bitmatrix_row_views:
  assumes "bm_wf m" "r < bm_num_rows m"
  shows "bm_iter_row m r = Some (sorted_list_of_set (bm_row m r)) \<and>
    (\<exists>s. bm_row_set m r = Some s \<and> bs_elems s = bm_row m r) \<and>
    (\<exists>m'. bm_set_row m r = Some m' \<and> bm_wf m' \<and>
      (\<forall>r' < bm_num_rows m. bm_row m' r' = (if r' = r then {..<bm_num_cols m} else bm_row m r'))) \<and>
    (\<exists>m'. bm_clear_row m r = Some m' \<and> bm_wf m' \<and>
      (\<forall>r' < bm_num_rows m. bm_row m' r' = (if r' = r then {} else bm_row m r')))"
proof (intro conjI)
  show "bm_iter_row m r = Some (sorted_list_of_set (bm_row m r))"
    by (rule bm_iter_row_sorted [OF assms])
  show "\<exists>s. bm_row_set m r = Some s \<and> bs_elems s = bm_row m r"
    by (rule bm_row_set_elems [OF assms])
  show "\<exists>m'. bm_set_row m r = Some m' \<and> bm_wf m' \<and>
      (\<forall>r' < bm_num_rows m. bm_row m' r' = (if r' = r then {..<bm_num_cols m} else bm_row m r'))"
    by (rule bm_set_row_spec [OF assms]) blast
  show "\<exists>m'. bm_clear_row m r = Some m' \<and> bm_wf m' \<and>
      (\<forall>r' < bm_num_rows m. bm_row m' r' = (if r' = r then {} else bm_row m r'))"
    by (rule bm_clear_row_spec [OF assms]) blast
qed

theorem bitmatrix_row_views_witness:
  "bm_iter_row ex_matrix 0 = Some (sorted_list_of_set (bm_row ex_matrix 0)) \<and>
   (\<exists>m'. bm_set_row ex_matrix 1 = Some m' \<and> bm_row m' 1 = {..<70})"
  using bitmatrix_row_views [OF ex_matrix_wf, of 0] bitmatrix_row_views [OF ex_matrix_wf, of 1]
  by fastforce

end
