(* ===== verification/SlotPool.thy ===== *)
theory SlotPool
  imports Prelude
begin

text \<open>
  The contract the arenas of values and the registry of arenas share: a vector of slots, each with a
  generation counter, and a stack of vacant slot numbers. The locale states what claiming and
  releasing a slot do to that view; its lemmas give the well-formedness invariant and the life cycle
  of a (slot, generation) pair: never issued, then live, then dead for ever.
\<close>

datatype slot_kind = KVacant | KOccupied | KRetired

type_synonym slot_view = "(u32 \<times> slot_kind) list"

named_theorems pool_intros \<open>life cycle of slots\<close>

definition pool_inv :: "slot_view \<Rightarrow> u32 list \<Rightarrow> u32 \<Rightarrow> bool" where
  "pool_inv vw fr lim \<longleftrightarrow>
     0 < lim \<and> length vw \<le> 2 ^ 32 \<and> distinct fr \<and>
     (\<forall>i. i \<in> set fr \<longleftrightarrow> unat i < length vw \<and> snd (vw ! unat i) = KVacant) \<and>
     (\<forall>s \<in> set vw. 0 < fst s \<and> fst s \<le> lim \<and> (snd s = KVacant \<longrightarrow> fst s < lim) \<and>
        (snd s = KRetired \<longrightarrow> fst s = lim))"

text \<open>A pair is live when its slot is occupied under that generation, dead when it was and no longer is.\<close>

definition slot_live :: "slot_view \<Rightarrow> u32 \<Rightarrow> u32 \<Rightarrow> bool" where
  "slot_live vw i g \<longleftrightarrow> unat i < length vw \<and> vw ! unat i = (g, KOccupied)"

definition slot_dead :: "slot_view \<Rightarrow> u32 \<Rightarrow> u32 \<Rightarrow> bool" where
  "slot_dead vw i g \<longleftrightarrow> unat i < length vw \<and>
     (g < fst (vw ! unat i) \<or> g = fst (vw ! unat i) \<and> snd (vw ! unat i) \<noteq> KOccupied)"

text \<open>What claiming a slot may do: reuse the last vacant slot, or append a fresh one.\<close>

definition pool_claimed ::
  "slot_view \<Rightarrow> u32 list \<Rightarrow> u32 \<Rightarrow> slot_view \<Rightarrow> u32 list \<Rightarrow> u32 \<Rightarrow> u32 \<Rightarrow> bool" where
  "pool_claimed vw fr lim vw' fr' i g \<longleftrightarrow>
     (fr = fr' @ [i] \<and> unat i < length vw \<and> fst (vw ! unat i) < g \<and> g \<le> lim \<and>
      vw' = vw[unat i := (g, KOccupied)]) \<or>
     (fr = [] \<and> fr' = [] \<and> length vw < 2 ^ 32 \<and> i = of_nat (length vw) \<and> g = 1 \<and>
      vw' = vw @ [(1, KOccupied)])"

text \<open>What releasing a live slot may do: retire it at the limit, make it vacant below.\<close>

definition pool_released ::
  "slot_view \<Rightarrow> u32 list \<Rightarrow> u32 \<Rightarrow> slot_view \<Rightarrow> u32 list \<Rightarrow> u32 \<Rightarrow> u32 \<Rightarrow> bool" where
  "pool_released vw fr lim vw' fr' i g \<longleftrightarrow>
     slot_live vw i g \<and>
     (if g = lim then vw' = vw[unat i := (g, KRetired)] \<and> fr' = fr
      else vw' = vw[unat i := (g, KVacant)] \<and> fr' = fr @ [i])"

lemma unat_of_nat_len: "n < 2 ^ 32 \<Longrightarrow> unat (of_nat n :: u32) = n"
  by (simp add: unat_of_nat)

lemma u32_unat_eq [simp]: "unat i = unat j \<longleftrightarrow> i = j" for i j :: u32
  by (simp add: word_unat_eq_iff)

lemma slot_live_not_dead: "slot_live vw i g \<Longrightarrow> \<not> slot_dead vw i g"
  by (simp add: slot_live_def slot_dead_def)

lemma slot_live_unique: "slot_live vw i g \<Longrightarrow> slot_live vw i g' \<Longrightarrow> g = g'"
  by (simp add: slot_live_def)

lemma pool_inv_empty: "0 < lim \<Longrightarrow> pool_inv [] [] lim"
  by (simp add: pool_inv_def)

lemma pool_inv_live_gen: "pool_inv vw fr lim \<Longrightarrow> slot_live vw i g \<Longrightarrow> 0 < g \<and> g \<le> lim"
  by (metis fst_conv nth_mem pool_inv_def slot_live_def)

lemma pool_inv_nth:
  "pool_inv vw fr lim \<Longrightarrow> i < length vw \<Longrightarrow> 0 < fst (vw ! i) \<and> fst (vw ! i) \<le> lim \<and>
    (snd (vw ! i) = KVacant \<longrightarrow> fst (vw ! i) < lim) \<and> (snd (vw ! i) = KRetired \<longrightarrow> fst (vw ! i) = lim)"
  by (auto simp: pool_inv_def)

lemma pool_invI:
  assumes "0 < lim" "length vw \<le> 2 ^ 32" "distinct fr"
    and "\<And>i. i \<in> set fr \<longleftrightarrow> unat i < length vw \<and> snd (vw ! unat i) = KVacant"
    and "\<And>i. i < length vw \<Longrightarrow> 0 < fst (vw ! i) \<and> fst (vw ! i) \<le> lim \<and>
      (snd (vw ! i) = KVacant \<longrightarrow> fst (vw ! i) < lim) \<and> (snd (vw ! i) = KRetired \<longrightarrow> fst (vw ! i) = lim)"
  shows "pool_inv vw fr lim"
  unfolding pool_inv_def using assms by (metis in_set_conv_nth)

lemma pool_inv_parts:
  assumes "pool_inv vw fr lim"
  shows "0 < lim" "length vw \<le> 2 ^ 32" "distinct fr"
    "\<And>i. i \<in> set fr \<longleftrightarrow> unat i < length vw \<and> snd (vw ! unat i) = KVacant"
  using assms by (auto simp: pool_inv_def)

section \<open>The contract\<close>

locale generational_pool =
  fixes view :: "'p \<Rightarrow> slot_view"
    and free :: "'p \<Rightarrow> u32 list"
    and limit :: "'p \<Rightarrow> u32"
    and claims :: "'p \<Rightarrow> 'p \<Rightarrow> u32 \<Rightarrow> u32 \<Rightarrow> bool"
    and releases :: "'p \<Rightarrow> 'p \<Rightarrow> u32 \<Rightarrow> u32 \<Rightarrow> bool"
  assumes claims_law: "claims p p' i g \<Longrightarrow> limit p' = limit p \<and>
      pool_claimed (view p) (free p) (limit p) (view p') (free p') i g"
    and releases_law: "releases p p' i g \<Longrightarrow> limit p' = limit p \<and>
      pool_released (view p) (free p) (limit p) (view p') (free p') i g"
begin

abbreviation inv :: "'p \<Rightarrow> bool" where
  "inv p \<equiv> pool_inv (view p) (free p) (limit p)"

lemma claim_inv:
  assumes inv: "inv p" and "claims p p' i g"
  shows "inv p'"
proof -
  note parts = pool_inv_parts [OF inv] and nth = pool_inv_nth [OF inv]
  from claims_law [OF assms(2)] have lim: "limit p' = limit p"
    and cl: "pool_claimed (view p) (free p) (limit p) (view p') (free p') i g" by auto
  from cl consider
      (reuse) "free p = free p' @ [i]" "unat i < length (view p)" "fst (view p ! unat i) < g"
        "g \<le> limit p" "view p' = (view p)[unat i := (g, KOccupied)]"
    | (fresh) "free p = []" "free p' = []" "length (view p) < 2 ^ 32"
        "view p' = view p @ [(1, KOccupied)]"
    unfolding pool_claimed_def by blast
  then show ?thesis
  proof cases
    case reuse
    have "0 < g" using le_less_trans [OF word_zero_le reuse(3)] .
    then show ?thesis
    proof (intro pool_invI)
      fix j
      have "j \<in> set (free p') \<longleftrightarrow> j \<in> set (free p) \<and> j \<noteq> i"
        using reuse(1) parts(3) by auto
      then show "j \<in> set (free p') \<longleftrightarrow> unat j < length (view p') \<and> snd (view p' ! unat j) = KVacant"
        using reuse(2,5) parts(4) by (auto simp: nth_list_update)
    qed (use parts(1-3) reuse nth lim in \<open>auto simp: nth_list_update\<close>)
  next
    case fresh
    show ?thesis
    proof (rule pool_invI)
      fix j
      show "j \<in> set (free p') \<longleftrightarrow> unat j < length (view p') \<and> snd (view p' ! unat j) = KVacant"
        using fresh parts(4) [of j] by (auto simp: nth_append)
      fix k assume "k < length (view p')"
      then show "0 < fst (view p' ! k) \<and> fst (view p' ! k) \<le> limit p' \<and>
          (snd (view p' ! k) = KVacant \<longrightarrow> fst (view p' ! k) < limit p') \<and>
          (snd (view p' ! k) = KRetired \<longrightarrow> fst (view p' ! k) = limit p')"
        using fresh(4) nth [of k] inc_le [OF parts(1)] lim
        by (cases "k < length (view p)") (auto simp: nth_append less_Suc_eq word_gt_0 inc_le)
    qed (use parts(1-3) fresh lim in auto)
  qed
qed

lemma release_inv:
  assumes inv: "inv p" and "releases p p' i g"
  shows "inv p'"
proof -
  note parts = pool_inv_parts [OF inv] and nth = pool_inv_nth [OF inv]
  from releases_law [OF assms(2)] have lim: "limit p' = limit p"
    and rl: "pool_released (view p) (free p) (limit p) (view p') (free p') i g" by auto
  then have live: "unat i < length (view p)" "view p ! unat i = (g, KOccupied)"
    by (auto simp: pool_released_def slot_live_def)
  have bounds: "0 < g" "g \<le> limit p" using nth [OF live(1)] live(2) by auto
  have notfree: "i \<notin> set (free p)" using parts(4) [of i] live by simp
  show ?thesis
  proof (cases "g = limit p")
    case True
    then have eq: "view p' = (view p)[unat i := (g, KRetired)]" "free p' = free p"
      using rl by (auto simp: pool_released_def)
    show ?thesis
      by (rule pool_invI)
        (use eq parts nth lim live True bounds in \<open>auto simp: nth_list_update\<close>)
  next
    case False
    then have eq: "view p' = (view p)[unat i := (g, KVacant)]" "free p' = free p @ [i]"
      using rl by (auto simp: pool_released_def)
    show ?thesis
      by (rule pool_invI)
        (use eq parts nth lim live False bounds notfree in \<open>auto simp: nth_list_update\<close>)
  qed
qed

lemma claim_fresh:
  assumes "inv p" "claims p p' i g"
  shows "slot_live (view p') i g" "\<not> slot_live (view p) i g" "\<not> slot_dead (view p) i g"
  using claims_law [OF assms(2)] pool_inv_parts(2) [OF assms(1)]
  by (auto simp: pool_claimed_def slot_live_def slot_dead_def unat_of_nat_len nth_append)

lemma claim_live_iff:
  assumes "inv p" "claims p p' i g"
  shows "slot_live (view p') j h \<longleftrightarrow> slot_live (view p) j h \<or> j = i \<and> h = g"
proof -
  note parts = pool_inv_parts [OF assms(1)]
  from claims_law [OF assms(2)] consider
      (reuse) "i \<in> set (free p)" "unat i < length (view p)"
        "view p' = (view p)[unat i := (g, KOccupied)]"
    | (new) "length (view p) < 2 ^ 32" "i = of_nat (length (view p))" "g = 1"
        "view p' = view p @ [(1, KOccupied)]"
    unfolding pool_claimed_def by auto
  then show ?thesis
  proof cases
    case reuse
    then have "snd (view p ! unat i) = KVacant" using parts(4) by blast
    then show ?thesis using reuse(2,3)
      by (auto simp: slot_live_def nth_list_update)
  next
    case new
    then have "unat j = length (view p) \<longleftrightarrow> j = i"
      by (metis u32_unat_eq unat_of_nat_len)
    then show ?thesis using new(1,3,4) by (auto simp: slot_live_def nth_append less_Suc_eq)
  qed
qed

lemma claim_dead [pool_intros]:
  assumes "claims p p' i g" "slot_dead (view p) j h"
  shows "slot_dead (view p') j h"
  using claims_law [OF assms(1)] assms(2)
  by (cases "j = i") (auto simp: pool_claimed_def slot_dead_def nth_append dest: less_trans)

lemma release_dead:
  assumes "releases p p' i g"
  shows "slot_live (view p) i g" "slot_dead (view p') i g"
  using releases_law [OF assms]
  by (auto simp: pool_released_def slot_live_def slot_dead_def split: if_splits)

lemma release_live_iff:
  assumes "releases p p' i g"
  shows "slot_live (view p') j h \<longleftrightarrow> slot_live (view p) j h \<and> j \<noteq> i"
  using releases_law [OF assms]
  by (auto simp: pool_released_def slot_live_def nth_list_update split: if_splits)

lemma release_keeps_dead [pool_intros]:
  assumes "releases p p' i g" "slot_dead (view p) j h"
  shows "slot_dead (view p') j h"
  using releases_law [OF assms(1)] assms(2)
  by (auto simp: pool_released_def slot_live_def slot_dead_def nth_list_update split: if_splits)

end

end
