(* ===== verification/GenRef.thy ===== *)
theory GenRef
  imports SlotPool
begin

text \<open>
  \<open>crates/arandu_runtime/src/genref.rs\<close>: the generational arenas behind the runtime's \<open>GenRef\<close> handles.
  A registry owns arenas, an arena owns values; both hand out a slot number together with the
  generation of the slot, reuse a freed slot under the next generation, and retire a slot whose
  generation reached the limit. The methods that take \<open>&mut self\<close> return the state after the call
  together with their \<open>Result\<close>. The allocator is a parameter: \<open>hp_try_reserve\<close> says whether
  \<open>Vec::try_reserve(1)\<close> succeeds on a vector of the given element size and length.
\<close>

section \<open>Data\<close>

record arena_id =
  ai_slot :: u32
  ai_generation :: u32

definition ArenaId_INVALID :: arena_id where
  "ArenaId_INVALID = \<lparr>ai_slot = 0, ai_generation = 0\<rparr>"

definition arena_id_is_invalid :: "arena_id \<Rightarrow> bool" where
  "arena_id_is_invalid aid \<longleftrightarrow> ai_slot aid = 0 \<and> ai_generation aid = 0"

record gen_ref =
  gr_arena_slot :: u32
  gr_arena_generation :: u32
  gr_value_slot :: u32
  gr_value_generation :: u32

definition GenRef_INVALID :: gen_ref where
  "GenRef_INVALID = \<lparr>gr_arena_slot = 0, gr_arena_generation = 0, gr_value_slot = 0,
     gr_value_generation = 0\<rparr>"

definition gen_ref_is_invalid :: "gen_ref \<Rightarrow> bool" where
  "gen_ref_is_invalid h \<longleftrightarrow> gr_arena_slot h = 0 \<and> gr_arena_generation h = 0 \<and>
     gr_value_slot h = 0 \<and> gr_value_generation h = 0"

definition gr_arena_id :: "gen_ref \<Rightarrow> arena_id" where
  "gr_arena_id h = \<lparr>ai_slot = gr_arena_slot h, ai_generation = gr_arena_generation h\<rparr>"

datatype gen_error =
    InvalidHandle
  | WrongArena
  | ArenaGone
  | Stale
  | CapacityOverflow
  | AllocationFailed
  | InvalidLayout
  | InvalidPayloadPointer

record registry_metrics =
  rm_live_arenas :: usize
  rm_occupied_slots :: usize
  rm_vacant_slots :: usize
  rm_retired_slots :: usize
  rm_retired_arenas :: usize

datatype 'a value_state = VVacant | VOccupied 'a | VRetired

record 'a value_slot =
  vs_generation :: u32
  vs_state :: "'a value_state"

record 'a arena =
  ar_slots :: "'a value_slot list"
  ar_free :: "u32 list"
  ar_generation_limit :: u32

datatype 'a arena_state = AVacant | ALive "'a arena" | ARetired

record 'a arena_slot =
  as_generation :: u32
  as_state :: "'a arena_state"

record 'a registry =
  rg_arenas :: "'a arena_slot list"
  rg_free :: "u32 list"
  rg_generation_limit :: u32

text \<open>The allocator and the sizes of the two kinds of slot, which depend on the payload type.\<close>

record heap =
  hp_value_slot_size :: nat
  hp_arena_slot_size :: nat
  hp_try_reserve :: "nat \<Rightarrow> nat \<Rightarrow> bool"

text \<open>\<open>matches!(state, Occupied(_))\<close> and \<open>matches!(state, Live(_))\<close>.\<close>

fun is_occupied :: "'a value_state \<Rightarrow> bool" where
  "is_occupied (VOccupied _) = True"
| "is_occupied _ = False"

fun is_live :: "'a arena_state \<Rightarrow> bool" where
  "is_live (ALive _) = True"
| "is_live _ = False"

section \<open>Free functions of the module\<close>

definition make_handle :: "arena_id \<Rightarrow> u32 \<Rightarrow> u32 \<Rightarrow> gen_ref" where
  "make_handle aid value_slot value_generation =
     \<lparr>gr_arena_slot = ai_slot aid, gr_arena_generation = ai_generation aid,
      gr_value_slot = value_slot, gr_value_generation = value_generation\<rparr>"

definition next_generation :: "u32 \<Rightarrow> u32 \<Rightarrow> (gen_error, u32) result" where
  "next_generation current limit =
     (if current = - 1 then Err CapacityOverflow
      else if current + 1 \<le> limit then Ok (current + 1)
      else Err CapacityOverflow)"

definition reserve_one :: "heap \<Rightarrow> nat \<Rightarrow> nat \<Rightarrow> (gen_error, unit) result" where
  "reserve_one hp elem_size len =
     (if usize_max < len + 1 then Err CapacityOverflow
      else if usize_max < (len + 1) * elem_size then Err CapacityOverflow
      else if isize_max < (len + 1) * elem_size then Err CapacityOverflow
      else if hp_try_reserve hp elem_size len then Ok ()
      else Err AllocationFailed)"

text \<open>\<open>Vec::pop\<close>; \<open>size_of::<u32>()\<close>.\<close>

definition vec_pop :: "'a list \<Rightarrow> ('a list \<times> 'a) option" where
  "vec_pop xs = (if xs = [] then None else Some (butlast xs, last xs))"

definition size_of_u32 :: nat where
  "size_of_u32 = 4"

section \<open>Arenas\<close>

definition arena_new :: "u32 \<Rightarrow> 'a arena" where
  "arena_new limit = \<lparr>ar_slots = [], ar_free = [], ar_generation_limit = limit\<rparr>"

definition arena_insert ::
  "heap \<Rightarrow> 'a arena \<Rightarrow> arena_id \<Rightarrow> 'a \<Rightarrow> 'a arena \<times> (gen_error, gen_ref) result" where
  "arena_insert hp a aid v =
     (case vec_pop (ar_free a) of
        Some (free', index) \<Rightarrow>
          let a1 = a\<lparr>ar_free := free'\<rparr> in
          if \<not> unat index < length (ar_slots a) then (a1, Err CapacityOverflow)
          else (case next_generation (vs_generation (ar_slots a ! unat index))
                  (ar_generation_limit a) of
                  Inl e \<Rightarrow> (a1, Err e)
                | Inr generation \<Rightarrow>
                    (a1\<lparr>ar_slots := (ar_slots a)[unat index :=
                        \<lparr>vs_generation = generation, vs_state = VOccupied v\<rparr>]\<rparr>,
                     Ok (make_handle aid index generation)))
      | None \<Rightarrow>
          if u32_max < length (ar_slots a) then (a, Err CapacityOverflow)
          else (case reserve_one hp (hp_value_slot_size hp) (length (ar_slots a)) of
                  Inl e \<Rightarrow> (a, Err e)
                | Inr _ \<Rightarrow>
                    (a\<lparr>ar_slots := ar_slots a @ [\<lparr>vs_generation = 1, vs_state = VOccupied v\<rparr>]\<rparr>,
                     Ok (make_handle aid (of_nat (length (ar_slots a))) 1))))"

definition arena_value_slot :: "'a arena \<Rightarrow> gen_ref \<Rightarrow> (gen_error, 'a value_slot) result" where
  "arena_value_slot a h =
     (if \<not> unat (gr_value_slot h) < length (ar_slots a) then Err Stale
      else let slot = ar_slots a ! unat (gr_value_slot h)
           in if vs_generation slot \<noteq> gr_value_generation h then Err Stale else Ok slot)"

definition arena_get :: "'a arena \<Rightarrow> gen_ref \<Rightarrow> (gen_error, 'a) result" where
  "arena_get a h =
     (case arena_value_slot a h of
        Inl e \<Rightarrow> Err e
      | Inr slot \<Rightarrow>
          (case vs_state slot of
             VOccupied v \<Rightarrow> Ok v
           | VVacant \<Rightarrow> Err Stale
           | VRetired \<Rightarrow> Err Stale))"

text \<open>
  \<open>get_mut\<close> hands out a mutable reference; the model takes the update \<open>f\<close> the caller performs through
  it and returns the value read.
\<close>

definition arena_get_mut ::
  "'a arena \<Rightarrow> gen_ref \<Rightarrow> ('a \<Rightarrow> 'a) \<Rightarrow> 'a arena \<times> (gen_error, 'a) result" where
  "arena_get_mut a h f =
     (let index = unat (gr_value_slot h) in
      if \<not> index < length (ar_slots a) then (a, Err Stale)
      else let slot = ar_slots a ! index in
        if vs_generation slot \<noteq> gr_value_generation h then (a, Err Stale)
        else (case vs_state slot of
                VOccupied v \<Rightarrow>
                  (a\<lparr>ar_slots := (ar_slots a)[index := slot\<lparr>vs_state := VOccupied (f v)\<rparr>]\<rparr>, Ok v)
              | VVacant \<Rightarrow> (a, Err Stale)
              | VRetired \<Rightarrow> (a, Err Stale)))"

definition arena_remove ::
  "heap \<Rightarrow> 'a arena \<Rightarrow> gen_ref \<Rightarrow> 'a arena \<times> (gen_error, 'a) result" where
  "arena_remove hp a h =
     (let index = unat (gr_value_slot h) in
      if \<not> index < length (ar_slots a) then (a, Err Stale)
      else let slot = ar_slots a ! index in
        if vs_generation slot \<noteq> gr_value_generation h \<or> \<not> is_occupied (vs_state slot)
        then (a, Err Stale)
        else let retire = (vs_generation slot = ar_generation_limit a) in
          case (if \<not> retire then reserve_one hp size_of_u32 (length (ar_free a)) else Ok ()) of
            Inl e \<Rightarrow> (a, Err e)
          | Inr _ \<Rightarrow>
              let next_state = (if retire then VRetired else VVacant);
                  a1 = a\<lparr>ar_slots := (ar_slots a)[index := slot\<lparr>vs_state := next_state\<rparr>]\<rparr>
              in (case vs_state slot of
                    VOccupied v \<Rightarrow>
                      (if \<not> retire then a1\<lparr>ar_free := ar_free a @ [gr_value_slot h]\<rparr> else a1, Ok v)
                  | VVacant \<Rightarrow> (a1, Err Stale)
                  | VRetired \<Rightarrow> (a1, Err Stale)))"

section \<open>The registry\<close>

definition reg_new :: "'a registry" where
  "reg_new = \<lparr>rg_arenas = [], rg_free = [], rg_generation_limit = - 1\<rparr>"

definition reg_with_generation_limit :: "u32 \<Rightarrow> (gen_error, 'a registry) result" where
  "reg_with_generation_limit limit =
     (if limit = 0 then Err CapacityOverflow
      else Ok \<lparr>rg_arenas = [], rg_free = [], rg_generation_limit = limit\<rparr>)"

definition reg_create_arena ::
  "heap \<Rightarrow> 'a registry \<Rightarrow> 'a registry \<times> (gen_error, arena_id) result" where
  "reg_create_arena hp r =
     (case vec_pop (rg_free r) of
        Some (free', index) \<Rightarrow>
          let r1 = r\<lparr>rg_free := free'\<rparr> in
          if \<not> unat index < length (rg_arenas r) then (r1, Err CapacityOverflow)
          else (case next_generation (as_generation (rg_arenas r ! unat index))
                  (rg_generation_limit r) of
                  Inl e \<Rightarrow> (r1, Err e)
                | Inr generation \<Rightarrow>
                    (r1\<lparr>rg_arenas := (rg_arenas r)[unat index :=
                        \<lparr>as_generation = generation,
                         as_state = ALive (arena_new (rg_generation_limit r))\<rparr>]\<rparr>,
                     Ok \<lparr>ai_slot = index, ai_generation = generation\<rparr>))
      | None \<Rightarrow>
          if u32_max < length (rg_arenas r) then (r, Err CapacityOverflow)
          else (case reserve_one hp (hp_arena_slot_size hp) (length (rg_arenas r)) of
                  Inl e \<Rightarrow> (r, Err e)
                | Inr _ \<Rightarrow>
                    (r\<lparr>rg_arenas := rg_arenas r @
                        [\<lparr>as_generation = 1, as_state = ALive (arena_new (rg_generation_limit r))\<rparr>]\<rparr>,
                     Ok \<lparr>ai_slot = of_nat (length (rg_arenas r)), ai_generation = 1\<rparr>)))"

definition reg_validate_identity :: "arena_id \<Rightarrow> gen_ref \<Rightarrow> (gen_error, unit) result" where
  "reg_validate_identity aid h =
     (if arena_id_is_invalid aid \<or> gen_ref_is_invalid h then Err InvalidHandle
      else if gr_arena_id h \<noteq> aid then Err WrongArena
      else Ok ())"

definition reg_arena :: "'a registry \<Rightarrow> arena_id \<Rightarrow> (gen_error, 'a arena) result" where
  "reg_arena r aid =
     (if \<not> unat (ai_slot aid) < length (rg_arenas r) then Err ArenaGone
      else let slot = rg_arenas r ! unat (ai_slot aid) in
        if as_generation slot \<noteq> ai_generation aid then Err ArenaGone
        else (case as_state slot of
                ALive a \<Rightarrow> Ok a
              | AVacant \<Rightarrow> Err ArenaGone
              | ARetired \<Rightarrow> Err ArenaGone))"

text \<open>\<open>arena_mut\<close> has the same guards; the operation \<open>op\<close> the caller runs on the arena is a parameter.\<close>

definition reg_arena_mut ::
  "'a registry \<Rightarrow> arena_id \<Rightarrow> ('a arena \<Rightarrow> 'a arena \<times> (gen_error, 'b) result) \<Rightarrow>
   'a registry \<times> (gen_error, 'b) result" where
  "reg_arena_mut r aid op =
     (if \<not> unat (ai_slot aid) < length (rg_arenas r) then (r, Err ArenaGone)
      else let slot = rg_arenas r ! unat (ai_slot aid) in
        if as_generation slot \<noteq> ai_generation aid then (r, Err ArenaGone)
        else (case as_state slot of
                ALive a \<Rightarrow>
                  let (a', res) = op a in
                  (r\<lparr>rg_arenas := (rg_arenas r)[unat (ai_slot aid) := slot\<lparr>as_state := ALive a'\<rparr>]\<rparr>,
                   res)
              | AVacant \<Rightarrow> (r, Err ArenaGone)
              | ARetired \<Rightarrow> (r, Err ArenaGone)))"

definition reg_insert ::
  "heap \<Rightarrow> 'a registry \<Rightarrow> arena_id \<Rightarrow> 'a \<Rightarrow> 'a registry \<times> (gen_error, gen_ref) result" where
  "reg_insert hp r aid v = reg_arena_mut r aid (\<lambda>a. arena_insert hp a aid v)"

definition reg_get :: "'a registry \<Rightarrow> arena_id \<Rightarrow> gen_ref \<Rightarrow> (gen_error, 'a) result" where
  "reg_get r aid h =
     (case reg_validate_identity aid h of
        Inl e \<Rightarrow> Err e
      | Inr _ \<Rightarrow> (case reg_arena r aid of Inl e \<Rightarrow> Err e | Inr a \<Rightarrow> arena_get a h))"

definition reg_get_mut ::
  "'a registry \<Rightarrow> arena_id \<Rightarrow> gen_ref \<Rightarrow> ('a \<Rightarrow> 'a) \<Rightarrow> 'a registry \<times> (gen_error, 'a) result" where
  "reg_get_mut r aid h f =
     (case reg_validate_identity aid h of
        Inl e \<Rightarrow> (r, Err e)
      | Inr _ \<Rightarrow> reg_arena_mut r aid (\<lambda>a. arena_get_mut a h f))"

definition reg_remove ::
  "heap \<Rightarrow> 'a registry \<Rightarrow> arena_id \<Rightarrow> gen_ref \<Rightarrow> 'a registry \<times> (gen_error, 'a) result" where
  "reg_remove hp r aid h =
     (case reg_validate_identity aid h of
        Inl e \<Rightarrow> (r, Err e)
      | Inr _ \<Rightarrow> reg_arena_mut r aid (\<lambda>a. arena_remove hp a h))"

definition reg_destroy_arena ::
  "heap \<Rightarrow> 'a registry \<Rightarrow> arena_id \<Rightarrow> 'a registry \<times> (gen_error, unit) result" where
  "reg_destroy_arena hp r aid =
     (let index = unat (ai_slot aid) in
      if \<not> index < length (rg_arenas r) then (r, Err ArenaGone)
      else let slot = rg_arenas r ! index in
        if as_generation slot \<noteq> ai_generation aid \<or> \<not> is_live (as_state slot)
        then (r, Err ArenaGone)
        else let retire = (as_generation slot = rg_generation_limit r) in
          case (if \<not> retire then reserve_one hp size_of_u32 (length (rg_free r)) else Ok ()) of
            Inl e \<Rightarrow> (r, Err e)
          | Inr _ \<Rightarrow>
              (if retire
               then r\<lparr>rg_arenas := (rg_arenas r)[index := slot\<lparr>as_state := ARetired\<rparr>]\<rparr>
               else r\<lparr>rg_arenas := (rg_arenas r)[index := slot\<lparr>as_state := AVacant\<rparr>],
                      rg_free := rg_free r @ [ai_slot aid]\<rparr>,
               Ok ()))"

text \<open>The two nested loops of \<open>metrics\<close>.\<close>

definition count_value :: "registry_metrics \<Rightarrow> 'a value_slot \<Rightarrow> registry_metrics" where
  "count_value mt slot =
     (case vs_state slot of
        VVacant \<Rightarrow> mt\<lparr>rm_vacant_slots := rm_vacant_slots mt + 1\<rparr>
      | VOccupied _ \<Rightarrow> mt\<lparr>rm_occupied_slots := rm_occupied_slots mt + 1\<rparr>
      | VRetired \<Rightarrow> mt\<lparr>rm_retired_slots := rm_retired_slots mt + 1\<rparr>)"

definition count_arena :: "registry_metrics \<Rightarrow> 'a arena_slot \<Rightarrow> registry_metrics" where
  "count_arena mt slot =
     (case as_state slot of
        ALive a \<Rightarrow> foldl count_value (mt\<lparr>rm_live_arenas := rm_live_arenas mt + 1\<rparr>) (ar_slots a)
      | ARetired \<Rightarrow> mt\<lparr>rm_retired_arenas := rm_retired_arenas mt + 1\<rparr>
      | AVacant \<Rightarrow> mt)"

definition reg_metrics :: "'a registry \<Rightarrow> registry_metrics" where
  "reg_metrics r = foldl count_arena
     \<lparr>rm_live_arenas = 0, rm_occupied_slots = 0, rm_vacant_slots = 0, rm_retired_slots = 0,
      rm_retired_arenas = 0\<rparr> (rg_arenas r)"

section \<open>Arenas and registries as slot pools\<close>

named_theorems genref_simps \<open>unfolding of the arena operations\<close>

fun value_kind :: "'a value_state \<Rightarrow> slot_kind" where
  "value_kind VVacant = KVacant"
| "value_kind (VOccupied _) = KOccupied"
| "value_kind VRetired = KRetired"

fun arena_kind :: "'a arena_state \<Rightarrow> slot_kind" where
  "arena_kind AVacant = KVacant"
| "arena_kind (ALive _) = KOccupied"
| "arena_kind ARetired = KRetired"

definition arena_view :: "'a arena \<Rightarrow> slot_view" where
  "arena_view a = map (\<lambda>s. (vs_generation s, value_kind (vs_state s))) (ar_slots a)"

definition reg_view :: "'a registry \<Rightarrow> slot_view" where
  "reg_view r = map (\<lambda>s. (as_generation s, arena_kind (as_state s))) (rg_arenas r)"

definition arena_claims :: "'a arena \<Rightarrow> 'a arena \<Rightarrow> u32 \<Rightarrow> u32 \<Rightarrow> bool" where
  "arena_claims a a' i g \<longleftrightarrow> (\<exists>hp aid v. arena_insert hp a aid v = (a', Ok (make_handle aid i g)))"

definition arena_releases :: "'a arena \<Rightarrow> 'a arena \<Rightarrow> u32 \<Rightarrow> u32 \<Rightarrow> bool" where
  "arena_releases a a' i g \<longleftrightarrow>
     (\<exists>hp h v. arena_remove hp a h = (a', Ok v) \<and> gr_value_slot h = i \<and> gr_value_generation h = g)"

definition reg_claims :: "'a registry \<Rightarrow> 'a registry \<Rightarrow> u32 \<Rightarrow> u32 \<Rightarrow> bool" where
  "reg_claims r r' i g \<longleftrightarrow>
     (\<exists>hp. reg_create_arena hp r = (r', Ok \<lparr>ai_slot = i, ai_generation = g\<rparr>))"

definition reg_releases :: "'a registry \<Rightarrow> 'a registry \<Rightarrow> u32 \<Rightarrow> u32 \<Rightarrow> bool" where
  "reg_releases r r' i g \<longleftrightarrow>
     (\<exists>hp aid. reg_destroy_arena hp r aid = (r', Ok ()) \<and> ai_slot aid = i \<and> ai_generation aid = g)"

lemma value_kind_occupied [simp]: "value_kind st = KOccupied \<longleftrightarrow> is_occupied st"
  by (cases st) auto

lemma arena_kind_live [simp]: "arena_kind st = KOccupied \<longleftrightarrow> is_live st"
  by (cases st) auto

lemma is_occupied_iff: "is_occupied st \<longleftrightarrow> (\<exists>v. st = VOccupied v)"
  by (cases st) auto

lemma is_live_iff: "is_live st \<longleftrightarrow> (\<exists>a. st = ALive a)"
  by (cases st) auto

lemma length_arena_view [simp]: "length (arena_view a) = length (ar_slots a)"
  by (simp add: arena_view_def)

lemma length_reg_view [simp]: "length (reg_view r) = length (rg_arenas r)"
  by (simp add: reg_view_def)

lemma nth_arena_view: "i < length (ar_slots a) \<Longrightarrow>
    arena_view a ! i = (vs_generation (ar_slots a ! i), value_kind (vs_state (ar_slots a ! i)))"
  by (simp add: arena_view_def)

lemma nth_reg_view: "i < length (rg_arenas r) \<Longrightarrow>
    reg_view r ! i = (as_generation (rg_arenas r ! i), arena_kind (as_state (rg_arenas r ! i)))"
  by (simp add: reg_view_def)

lemma next_generation_Ok:
  "next_generation c lim = Inr g \<longleftrightarrow> c \<noteq> - 1 \<and> g = c + 1 \<and> c + 1 \<le> lim"
  by (auto simp: next_generation_def)

lemma u32_less_Suc: "c \<noteq> - 1 \<Longrightarrow> c < c + 1" for c :: u32
  using inc_less_eq_iff [of c "c + 1"] by simp

lemma next_generation_total: "c < lim \<Longrightarrow> next_generation c lim = Inr (c + 1)"
  using word_order.extremum_strict [of lim] by (auto simp: next_generation_Ok inc_le)

lemma vec_pop_Some: "vec_pop xs = Some (ys, y) \<longleftrightarrow> xs = ys @ [y]"
  by (auto simp: vec_pop_def)

lemma vec_pop_None: "vec_pop xs = None \<longleftrightarrow> xs = []"
  by (simp add: vec_pop_def)

lemma make_handle_inj [simp]:
  "make_handle aid i g = make_handle aid' j h \<longleftrightarrow> aid = aid' \<and> i = j \<and> g = h"
  by (auto simp: make_handle_def)

lemma gr_arena_id_make_handle [simp]: "gr_arena_id (make_handle aid i g) = aid"
  by (simp add: gr_arena_id_def make_handle_def)

lemma make_handle_sel [simp]:
  "gr_value_slot (make_handle aid i g) = i" "gr_value_generation (make_handle aid i g) = g"
  "gr_arena_slot (make_handle aid i g) = ai_slot aid"
  "gr_arena_generation (make_handle aid i g) = ai_generation aid"
  by (simp_all add: make_handle_def)

text \<open>The two ways an insertion succeeds.\<close>

lemma arena_insert_Ok:
  assumes "arena_insert hp a aid v = (a', Inr h)"
  obtains (reuse) fr i where "ar_free a = fr @ [i]" "unat i < length (ar_slots a)"
      "vs_generation (ar_slots a ! unat i) < gr_value_generation h"
      "gr_value_generation h \<le> ar_generation_limit a" "h = make_handle aid i (gr_value_generation h)"
      "a' = a\<lparr>ar_free := fr, ar_slots := (ar_slots a)[unat i :=
        \<lparr>vs_generation = gr_value_generation h, vs_state = VOccupied v\<rparr>]\<rparr>"
    | (fresh) "ar_free a = []" "length (ar_slots a) < 2 ^ 32"
      "h = make_handle aid (of_nat (length (ar_slots a))) 1"
      "a' = a\<lparr>ar_slots := ar_slots a @ [\<lparr>vs_generation = 1, vs_state = VOccupied v\<rparr>]\<rparr>"
proof (cases "vec_pop (ar_free a)")
  case None
  then show ?thesis using assms fresh
    by (auto simp: arena_insert_def vec_pop_def u32_max_def split: if_splits sum.splits)
next
  case (Some p)
  then obtain fr i where p: "p = (fr, i)" "ar_free a = fr @ [i]" by (cases p) (auto simp: vec_pop_Some)
  then show ?thesis using assms Some reuse [of fr i]
    by (auto simp: arena_insert_def Let_def next_generation_Ok u32_less_Suc
        split: if_splits sum.splits)
qed

text \<open>A removal that succeeds.\<close>

lemma arena_remove_Ok:
  assumes "arena_remove hp a h = (a', Inr v)"
  shows "unat (gr_value_slot h) < length (ar_slots a)"
    and "ar_slots a ! unat (gr_value_slot h) =
      \<lparr>vs_generation = gr_value_generation h, vs_state = VOccupied v\<rparr>"
    and "a' = (if gr_value_generation h = ar_generation_limit a
       then a\<lparr>ar_slots := (ar_slots a)[unat (gr_value_slot h) :=
         \<lparr>vs_generation = gr_value_generation h, vs_state = VRetired\<rparr>]\<rparr>
       else a\<lparr>ar_slots := (ar_slots a)[unat (gr_value_slot h) :=
         \<lparr>vs_generation = gr_value_generation h, vs_state = VVacant\<rparr>],
         ar_free := ar_free a @ [gr_value_slot h]\<rparr>)"
  using assms
  by (cases "ar_slots a ! unat (gr_value_slot h)",
      auto simp: arena_remove_def Let_def is_occupied_iff split: if_splits sum.splits)+

lemma arena_remove_Err: "arena_remove hp a h = (a', Inl e) \<Longrightarrow> a' = a"
  by (auto simp: arena_remove_def Let_def is_occupied_iff split: if_splits sum.splits)

interpretation apool: generational_pool arena_view ar_free ar_generation_limit arena_claims
  arena_releases
proof unfold_locales
  fix a a' :: "'a arena" and i g
  assume "arena_claims a a' i g"
  then obtain hp aid v where "arena_insert hp a aid v = (a', Inr (make_handle aid i g))"
    by (auto simp: arena_claims_def)
  then show "ar_generation_limit a' = ar_generation_limit a \<and>
      pool_claimed (arena_view a) (ar_free a) (ar_generation_limit a) (arena_view a') (ar_free a') i g"
    by (cases rule: arena_insert_Ok)
      (auto simp: pool_claimed_def arena_view_def map_update)
next
  fix a a' :: "'a arena" and i g
  assume "arena_releases a a' i g"
  then obtain hp h v where "arena_remove hp a h = (a', Inr v)"
    and [simp]: "gr_value_slot h = i" "gr_value_generation h = g"
    by (auto simp: arena_releases_def)
  from arena_remove_Ok [OF this(1)]
  show "ar_generation_limit a' = ar_generation_limit a \<and>
      pool_released (arena_view a) (ar_free a) (ar_generation_limit a) (arena_view a') (ar_free a') i g"
    by (auto simp: pool_released_def slot_live_def nth_arena_view) (auto simp: arena_view_def map_update)
qed

lemma reg_create_Ok:
  assumes "reg_create_arena hp r = (r', Inr aid)"
  obtains (reuse) fr where "rg_free r = fr @ [ai_slot aid]"
      "unat (ai_slot aid) < length (rg_arenas r)"
      "as_generation (rg_arenas r ! unat (ai_slot aid)) < ai_generation aid"
      "ai_generation aid \<le> rg_generation_limit r"
      "r' = r\<lparr>rg_free := fr, rg_arenas := (rg_arenas r)[unat (ai_slot aid) :=
        \<lparr>as_generation = ai_generation aid, as_state = ALive (arena_new (rg_generation_limit r))\<rparr>]\<rparr>"
    | (fresh) "rg_free r = []" "length (rg_arenas r) < 2 ^ 32"
      "ai_slot aid = of_nat (length (rg_arenas r))" "ai_generation aid = 1"
      "r' = r\<lparr>rg_arenas := rg_arenas r @
        [\<lparr>as_generation = 1, as_state = ALive (arena_new (rg_generation_limit r))\<rparr>]\<rparr>"
proof (cases "vec_pop (rg_free r)")
  case None
  then show ?thesis using assms fresh
    by (auto simp: reg_create_arena_def vec_pop_def u32_max_def split: if_splits sum.splits)
next
  case (Some p)
  then obtain fr i where p: "p = (fr, i)" "rg_free r = fr @ [i]"
    by (cases p) (auto simp: vec_pop_Some)
  then show ?thesis using assms Some reuse [of fr]
    by (auto simp: reg_create_arena_def Let_def next_generation_Ok u32_less_Suc
        split: if_splits sum.splits)
qed

lemma reg_destroy_Ok:
  assumes "reg_destroy_arena hp r aid = (r', Inr ())"
  obtains a where "unat (ai_slot aid) < length (rg_arenas r)"
    "rg_arenas r ! unat (ai_slot aid) = \<lparr>as_generation = ai_generation aid, as_state = ALive a\<rparr>"
    "r' = (if ai_generation aid = rg_generation_limit r
       then r\<lparr>rg_arenas := (rg_arenas r)[unat (ai_slot aid) :=
         \<lparr>as_generation = ai_generation aid, as_state = ARetired\<rparr>]\<rparr>
       else r\<lparr>rg_arenas := (rg_arenas r)[unat (ai_slot aid) :=
         \<lparr>as_generation = ai_generation aid, as_state = AVacant\<rparr>],
         rg_free := rg_free r @ [ai_slot aid]\<rparr>)"
  using assms
  by (cases "rg_arenas r ! unat (ai_slot aid)")
    (auto simp: reg_destroy_arena_def Let_def is_live_iff split: if_splits sum.splits)

lemma reg_destroy_Err: "reg_destroy_arena hp r aid = (r', Inl e) \<Longrightarrow> r' = r"
  by (auto simp: reg_destroy_arena_def Let_def split: if_splits sum.splits)

interpretation rpool: generational_pool reg_view rg_free rg_generation_limit reg_claims reg_releases
proof unfold_locales
  fix r r' :: "'a registry" and i g
  assume "reg_claims r r' i g"
  then obtain hp where "reg_create_arena hp r = (r', Inr \<lparr>ai_slot = i, ai_generation = g\<rparr>)"
    by (auto simp: reg_claims_def)
  then show "rg_generation_limit r' = rg_generation_limit r \<and>
      pool_claimed (reg_view r) (rg_free r) (rg_generation_limit r) (reg_view r') (rg_free r') i g"
    by (cases rule: reg_create_Ok) (auto simp: pool_claimed_def reg_view_def map_update)
next
  fix r r' :: "'a registry" and i g
  assume "reg_releases r r' i g"
  then obtain hp aid where "reg_destroy_arena hp r aid = (r', Inr ())"
    and [simp]: "ai_slot aid = i" "ai_generation aid = g"
    by (auto simp: reg_releases_def)
  from this(1) show "rg_generation_limit r' = rg_generation_limit r \<and>
      pool_released (reg_view r) (rg_free r) (rg_generation_limit r) (reg_view r') (rg_free r') i g"
    by (cases rule: reg_destroy_Ok)
      (auto simp: pool_released_def slot_live_def nth_reg_view, auto simp: reg_view_def map_update)
qed

section \<open>The abstract contents of an arena\<close>

definition arena_map :: "'a arena \<Rightarrow> u32 \<Rightarrow> u32 \<Rightarrow> 'a option" where
  "arena_map a i g =
     (if unat i < length (ar_slots a) \<and> vs_generation (ar_slots a ! unat i) = g
      then case vs_state (ar_slots a ! unat i) of VOccupied v \<Rightarrow> Some v | _ \<Rightarrow> None
      else None)"

abbreviation arena_inv :: "'a arena \<Rightarrow> bool" where
  "arena_inv a \<equiv> apool.inv a"

lemma arena_map_live: "arena_map a i g \<noteq> None \<longleftrightarrow> slot_live (arena_view a) i g"
  by (auto simp: arena_map_def slot_live_def nth_arena_view is_occupied_iff
      split: value_state.splits)

lemma arena_get_map:
  "arena_get a h = (case arena_map a (gr_value_slot h) (gr_value_generation h) of
     Some v \<Rightarrow> Ok v | None \<Rightarrow> Err Stale)"
  by (auto simp: arena_get_def arena_value_slot_def arena_map_def Let_def split: value_state.splits)

lemma arena_new_inv: "0 < lim \<Longrightarrow> arena_inv (arena_new lim)"
  by (simp add: arena_new_def arena_view_def pool_inv_empty)

lemma arena_new_map [simp]: "arena_map (arena_new lim) i g = None"
  by (simp add: arena_map_def arena_new_def)

lemma arena_insert_claims: "arena_insert hp a aid v = (a', Inr h) \<Longrightarrow>
    arena_claims a a' (gr_value_slot h) (gr_value_generation h) \<and> gr_arena_id h = aid"
proof -
  assume run: "arena_insert hp a aid v = (a', Inr h)"
  then obtain i g where "h = make_handle aid i g" by (cases rule: arena_insert_Ok) auto
  with run show ?thesis unfolding arena_claims_def by auto
qed

lemma arena_remove_releases: "arena_remove hp a h = (a', Inr v) \<Longrightarrow>
    arena_releases a a' (gr_value_slot h) (gr_value_generation h)"
  unfolding arena_releases_def by blast

lemma arena_insert_map:
  assumes inv: "arena_inv a" and run: "arena_insert hp a aid v = (a', Inr h)"
  shows "arena_map a' i g =
    (if i = gr_value_slot h \<and> g = gr_value_generation h then Some v else arena_map a i g)"
proof -
  have stale: "\<not> slot_live (arena_view a) (gr_value_slot h) (gr_value_generation h)"
    using arena_insert_claims [OF run] apool.claim_fresh(2) [OF inv] by blast
  from run show ?thesis
  proof (cases rule: arena_insert_Ok)
    case (reuse fr k)
    have "snd (arena_view a ! unat k) = KVacant"
      using pool_inv_parts(4) [OF inv, of k] reuse(1) by simp
    then have vac: "vs_state (ar_slots a ! unat k) = VVacant"
      using reuse(2) by (cases "vs_state (ar_slots a ! unat k)") (auto simp: nth_arena_view)
    have "gr_value_slot h = k" using reuse(5) by (metis make_handle_sel(1))
    then show ?thesis using reuse(2,6) vac by (auto simp: arena_map_def nth_list_update)
  next
    case fresh
    have "unat i = length (ar_slots a) \<longleftrightarrow> i = gr_value_slot h"
      using fresh(2,3) by (metis make_handle_sel(1) u32_unat_eq unat_of_nat_len)
    then show ?thesis using fresh by (auto simp: arena_map_def nth_append less_Suc_eq)
  qed
qed

lemma arena_insert_Err:
  assumes inv: "arena_inv a" and run: "arena_insert hp a aid v = (a', Inl e)"
  shows "a' = a"
proof (cases "vec_pop (ar_free a)")
  case None
  then show ?thesis using run by (auto simp: arena_insert_def split: if_splits sum.splits)
next
  case (Some p)
  then obtain fr i where p: "p = (fr, i)" "ar_free a = fr @ [i]"
    by (cases p) (auto simp: vec_pop_Some)
  then have "unat i < length (ar_slots a)" "snd (arena_view a ! unat i) = KVacant"
    using pool_inv_parts(4) [OF inv, of i] by auto
  moreover from this have "vs_generation (ar_slots a ! unat i) < ar_generation_limit a"
    using pool_inv_nth [OF inv, of "unat i"] by (auto simp: nth_arena_view)
  ultimately show ?thesis using run Some p
    by (auto simp: arena_insert_def Let_def next_generation_total)
qed

lemma arena_remove_map:
  assumes run: "arena_remove hp a h = (a', Inr v)"
  shows "arena_map a (gr_value_slot h) (gr_value_generation h) = Some v"
    and "arena_map a' i g =
      (if i = gr_value_slot h \<and> g = gr_value_generation h then None else arena_map a i g)"
  using arena_remove_Ok [OF run] by (auto simp: arena_map_def nth_list_update)

lemma arena_get_mut_cases:
  "arena_get_mut a h f = (case arena_map a (gr_value_slot h) (gr_value_generation h) of
     None \<Rightarrow> (a, Err Stale)
   | Some v \<Rightarrow> (a\<lparr>ar_slots := (ar_slots a)[unat (gr_value_slot h) :=
       \<lparr>vs_generation = gr_value_generation h, vs_state = VOccupied (f v)\<rparr>]\<rparr>, Ok v))"
  by (cases "ar_slots a ! unat (gr_value_slot h)")
    (auto simp: arena_get_mut_def arena_map_def Let_def split: value_state.splits)

lemma arena_get_mut_Ok:
  assumes "arena_get_mut a h f = (a', Inr v)"
  shows "arena_map a (gr_value_slot h) (gr_value_generation h) = Some v"
    "arena_view a' = arena_view a" "ar_free a' = ar_free a"
    "ar_generation_limit a' = ar_generation_limit a"
    "arena_map a' i g = (if i = gr_value_slot h \<and> g = gr_value_generation h then Some (f v)
       else arena_map a i g)"
proof -
  have run: "arena_map a (gr_value_slot h) (gr_value_generation h) = Some v"
    "a' = a\<lparr>ar_slots := (ar_slots a)[unat (gr_value_slot h) :=
       \<lparr>vs_generation = gr_value_generation h, vs_state = VOccupied (f v)\<rparr>]\<rparr>"
    using assms by (auto simp: arena_get_mut_cases split: option.splits)
  then have live: "slot_live (arena_view a) (gr_value_slot h) (gr_value_generation h)"
    using arena_map_live by fastforce
  then have "(arena_view a)[unat (gr_value_slot h) := (gr_value_generation h, KOccupied)] = arena_view a"
    by (metis list_update_id slot_live_def)
  with run show "arena_view a' = arena_view a"
    by (simp add: arena_view_def map_update)
  show "arena_map a' i g = (if i = gr_value_slot h \<and> g = gr_value_generation h then Some (f v)
       else arena_map a i g)"
    using run live by (auto simp: arena_map_def slot_live_def nth_arena_view nth_list_update)
qed (use assms in \<open>auto simp: arena_get_mut_cases split: option.splits\<close>)

lemma arena_get_mut_Err: "arena_get_mut a h f = (a', Inl e) \<Longrightarrow> a' = a"
  by (auto simp: arena_get_mut_cases split: option.splits)

section \<open>The abstract contents of a registry\<close>

definition reg_map :: "'a registry \<Rightarrow> gen_ref \<Rightarrow> 'a option" where
  "reg_map r h =
     (case reg_arena r (gr_arena_id h) of
        Inl _ \<Rightarrow> None
      | Inr a \<Rightarrow> arena_map a (gr_value_slot h) (gr_value_generation h))"

definition reg_inv :: "'a registry \<Rightarrow> bool" where
  "reg_inv r \<longleftrightarrow> rpool.inv r \<and>
     (\<forall>aid a. reg_arena r aid = Inr a \<longrightarrow>
        arena_inv a \<and> ar_generation_limit a = rg_generation_limit r)"

lemma gr_arena_id_sel [simp]:
  "ai_slot (gr_arena_id h) = gr_arena_slot h" "ai_generation (gr_arena_id h) = gr_arena_generation h"
  by (simp_all add: gr_arena_id_def)

lemma reg_arena_Ok:
  "reg_arena r aid = Inr a \<longleftrightarrow> unat (ai_slot aid) < length (rg_arenas r) \<and>
     rg_arenas r ! unat (ai_slot aid) = \<lparr>as_generation = ai_generation aid, as_state = ALive a\<rparr>"
  by (cases "rg_arenas r ! unat (ai_slot aid)")
    (auto simp: reg_arena_def Let_def split: arena_state.splits)

lemma reg_arena_Err: "reg_arena r aid = Inl e \<Longrightarrow> e = ArenaGone"
  by (auto simp: reg_arena_def Let_def split: if_splits arena_state.splits)

lemma reg_arena_live:
  "(\<exists>a. reg_arena r aid = Inr a) \<longleftrightarrow> slot_live (reg_view r) (ai_slot aid) (ai_generation aid)"
  by (cases "rg_arenas r ! unat (ai_slot aid)")
    (auto simp: reg_arena_Ok slot_live_def nth_reg_view is_live_iff)

definition put_arena :: "'a registry \<Rightarrow> arena_id \<Rightarrow> 'a arena \<Rightarrow> 'a registry" where
  "put_arena r aid a = r\<lparr>rg_arenas := (rg_arenas r)[unat (ai_slot aid) :=
     \<lparr>as_generation = ai_generation aid, as_state = ALive a\<rparr>]\<rparr>"

lemma reg_arena_mut_cases:
  "reg_arena_mut r aid opr = (case reg_arena r aid of
     Inl e \<Rightarrow> (r, Inl e)
   | Inr a \<Rightarrow> let (a', res) = opr a in (put_arena r aid a', res))"
  by (cases "rg_arenas r ! unat (ai_slot aid)")
    (auto simp: reg_arena_mut_def reg_arena_def put_arena_def Let_def split: arena_state.splits)

lemma arena_id_eq_iff: "aid = aid' \<longleftrightarrow> ai_slot aid = ai_slot aid' \<and> ai_generation aid = ai_generation aid'"
  for aid aid' :: arena_id
  by (cases aid; cases aid') simp

lemma put_arena_arena:
  assumes "reg_arena r aid = Inr a"
  shows "reg_arena (put_arena r aid a') aid' = (if aid' = aid then Inr a' else reg_arena r aid')"
proof (cases "ai_slot aid' = ai_slot aid")
  case True
  with assms show ?thesis
    by (auto simp: reg_arena_def put_arena_def Let_def reg_arena_Ok arena_id_eq_iff
        split: if_splits arena_state.splits)
next
  case False
  then show ?thesis by (auto simp: reg_arena_def put_arena_def Let_def)
qed

lemma put_arena_pool:
  assumes "reg_arena r aid = Inr a"
  shows "reg_view (put_arena r aid a') = reg_view r" "rg_free (put_arena r aid a') = rg_free r"
    "rg_generation_limit (put_arena r aid a') = rg_generation_limit r"
proof -
  have "(reg_view r)[unat (ai_slot aid) := (ai_generation aid, KOccupied)] = reg_view r"
    using assms reg_arena_live by (metis list_update_id slot_live_def)
  then show "reg_view (put_arena r aid a') = reg_view r"
    by (simp add: put_arena_def reg_view_def map_update)
qed (simp_all add: put_arena_def)

lemma put_arena_same:
  assumes "reg_arena r aid = Inr a"
  shows "put_arena r aid a = r"
  using assms by (cases r) (auto simp: reg_arena_Ok put_arena_def list_update_same_conv)

lemma put_arena_inv:
  assumes "reg_inv r" "reg_arena r aid = Inr a" "arena_inv a'"
    "ar_generation_limit a' = ar_generation_limit a"
  shows "reg_inv (put_arena r aid a')"
  using assms(1,3,4) put_arena_pool [OF assms(2), of a'] put_arena_arena [OF assms(2), of a'] assms(2)
  unfolding reg_inv_def by (metis sum.inject(2))

lemma put_arena_map:
  assumes "reg_arena r aid = Inr a"
  shows "reg_map (put_arena r aid a') h =
    (if gr_arena_id h = aid then arena_map a' (gr_value_slot h) (gr_value_generation h)
     else reg_map r h)"
  by (simp add: reg_map_def put_arena_arena [OF assms])

lemma reg_inv_arena:
  "reg_inv r \<Longrightarrow> reg_arena r aid = Inr a \<Longrightarrow>
     arena_inv a \<and> ar_generation_limit a = rg_generation_limit r"
  unfolding reg_inv_def by blast

text \<open>Handles that name a value are never the reserved ones.\<close>

lemma reg_arena_not_invalid: "reg_inv r \<Longrightarrow> reg_arena r aid = Inr a \<Longrightarrow> \<not> arena_id_is_invalid aid"
  using pool_inv_live_gen [of "reg_view r" "rg_free r" "rg_generation_limit r"] reg_arena_live
  by (fastforce simp: reg_inv_def arena_id_is_invalid_def)

lemma reg_map_not_invalid: "reg_inv r \<Longrightarrow> reg_map r h = Some v \<Longrightarrow>
    \<not> arena_id_is_invalid (gr_arena_id h) \<and> \<not> gen_ref_is_invalid h"
  using reg_arena_not_invalid [of r "gr_arena_id h"]
  by (auto simp: reg_map_def arena_id_is_invalid_def gen_ref_is_invalid_def split: sum.splits)

text \<open>Which error every failing access gets.\<close>

definition access_error :: "'a registry \<Rightarrow> arena_id \<Rightarrow> gen_ref \<Rightarrow> gen_error" where
  "access_error r aid h =
     (if arena_id_is_invalid aid \<or> gen_ref_is_invalid h then InvalidHandle
      else if gr_arena_id h \<noteq> aid then WrongArena
      else if \<not> slot_live (reg_view r) (ai_slot aid) (ai_generation aid) then ArenaGone
      else Stale)"

lemma reg_get_map:
  assumes "reg_inv r"
  shows "reg_get r aid h = (if gr_arena_id h = aid then case reg_map r h of
      Some v \<Rightarrow> Ok v | None \<Rightarrow> Err (access_error r aid h) else Err (access_error r aid h))"
proof (cases "reg_arena r aid")
  case (Inl e)
  then have "\<not> slot_live (reg_view r) (ai_slot aid) (ai_generation aid)"
    using reg_arena_live [of r aid] by simp
  with Inl reg_arena_Err [OF Inl] show ?thesis
    by (auto simp: reg_get_def reg_validate_identity_def access_error_def reg_map_def)
next
  case (Inr a)
  then have live: "slot_live (reg_view r) (ai_slot aid) (ai_generation aid)"
    using reg_arena_live [of r aid] by auto
  with Inr reg_arena_not_invalid [OF assms Inr] show ?thesis
    using reg_map_not_invalid [OF assms, of h]
    by (auto simp: reg_get_def reg_validate_identity_def access_error_def reg_map_def arena_get_map
        split: option.splits)
qed

section \<open>Every operation against the abstract contents\<close>

lemma gen_ref_eq_iff:
  "h = h' \<longleftrightarrow> gr_arena_id h = gr_arena_id h' \<and> gr_value_slot h = gr_value_slot h' \<and>
     gr_value_generation h = gr_value_generation h'" for h h' :: gen_ref
  by (cases h; cases h') (auto simp: gr_arena_id_def)

text \<open>A handle is dead when its arena is, or when its slot moved on inside a live arena.\<close>

definition reg_dead :: "'a registry \<Rightarrow> gen_ref \<Rightarrow> bool" where
  "reg_dead r h \<longleftrightarrow>
     slot_dead (reg_view r) (gr_arena_slot h) (gr_arena_generation h) \<or>
     (\<exists>a. reg_arena r (gr_arena_id h) = Inr a \<and>
        slot_dead (arena_view a) (gr_value_slot h) (gr_value_generation h))"

lemma reg_arena_not_dead:
  "reg_arena r aid = Inr a \<Longrightarrow> \<not> slot_dead (reg_view r) (ai_slot aid) (ai_generation aid)"
  using reg_arena_live slot_live_not_dead by blast

lemma reg_dead_map: "reg_dead r h \<Longrightarrow> reg_map r h = None"
  using reg_arena_not_dead [of r "gr_arena_id h"]
  by (auto simp: reg_dead_def reg_map_def split: sum.splits)
    (meson arena_map_live slot_live_not_dead)

lemma put_arena_dead:
  assumes "reg_arena r aid = Inr a"
  shows "reg_dead (put_arena r aid a') h \<longleftrightarrow>
    (if gr_arena_id h = aid then slot_dead (arena_view a') (gr_value_slot h) (gr_value_generation h)
     else reg_dead r h)"
  using assms reg_arena_not_dead [OF assms]
  by (auto simp: reg_dead_def put_arena_arena [OF assms] put_arena_pool [OF assms])

lemma put_arena_dead_mono:
  assumes a: "reg_arena r aid = Inr a"
    and mono: "\<And>i g. slot_dead (arena_view a) i g \<Longrightarrow> slot_dead (arena_view a') i g"
  shows "reg_dead r k \<Longrightarrow> reg_dead (put_arena r aid a') k"
  using a mono reg_arena_not_dead [OF a] unfolding put_arena_dead [OF a] by (auto simp: reg_dead_def)

lemma put_arena_map_upd:
  assumes a: "reg_arena r aid = Inr a" and aid: "gr_arena_id h = aid"
    and upd: "\<And>i g. arena_map a' i g =
      (if i = gr_value_slot h \<and> g = gr_value_generation h then w else arena_map a i g)"
  shows "reg_map (put_arena r aid a') = (reg_map r)(h := w)"
proof
  fix k
  show "reg_map (put_arena r aid a') k = ((reg_map r)(h := w)) k"
    unfolding put_arena_map [OF a] using a aid upd by (auto simp: gen_ref_eq_iff reg_map_def)
qed

lemma reg_insert_Ok:
  assumes inv: "reg_inv r" and run: "reg_insert hp r aid v = (r', Inr h)"
  shows "reg_inv r' \<and> gr_arena_id h = aid \<and> reg_map r h = None \<and> \<not> reg_dead r h \<and>
    reg_map r' = (reg_map r)(h \<mapsto> v) \<and> (\<forall>k. reg_dead r k \<longrightarrow> reg_dead r' k)"
proof -
  obtain a a' where a: "reg_arena r aid = Inr a" and ins: "arena_insert hp a aid v = (a', Inr h)"
    and r': "r' = put_arena r aid a'"
    using run by (auto simp: reg_insert_def reg_arena_mut_cases split: sum.splits prod.splits)
  note ainv = conjunct1 [OF reg_inv_arena [OF inv a]]
  from arena_insert_claims [OF ins] have aid: "gr_arena_id h = aid"
    and claims: "arena_claims a a' (gr_value_slot h) (gr_value_generation h)" by auto
  note fresh = apool.claim_fresh [OF ainv claims]
  have "reg_inv r'"
    using put_arena_inv [OF inv a apool.claim_inv [OF ainv claims]] apool.claims_law [OF claims] r'
    by simp
  moreover have "reg_map r h = None"
    using fresh(2) a aid arena_map_live by (fastforce simp: reg_map_def)
  moreover have "\<not> reg_dead r h"
    using fresh(3) a aid reg_arena_not_dead [OF a] by (auto simp: reg_dead_def)
  moreover have "reg_map r' = (reg_map r)(h \<mapsto> v)"
    unfolding r' by (rule put_arena_map_upd [OF a aid arena_insert_map [OF ainv ins]])
  moreover have "reg_dead r' k" if "reg_dead r k" for k
    unfolding r' by (rule put_arena_dead_mono [OF a apool.claim_dead [OF claims] that])
  ultimately show ?thesis using aid by blast
qed

lemma reg_insert_Err:
  assumes inv: "reg_inv r" and run: "reg_insert hp r aid v = (r', Inl e)"
  shows "r' = r"
proof (cases "reg_arena r aid")
  case (Inr a)
  with run obtain a' where "arena_insert hp a aid v = (a', Inl e)" "r' = put_arena r aid a'"
    by (auto simp: reg_insert_def reg_arena_mut_cases split: prod.splits)
  then show ?thesis
    using arena_insert_Err [OF conjunct1 [OF reg_inv_arena [OF inv Inr]]] put_arena_same [OF Inr]
    by blast
qed (use run in \<open>simp add: reg_insert_def reg_arena_mut_cases\<close>)

lemma reg_remove_Ok:
  assumes inv: "reg_inv r" and run: "reg_remove hp r aid h = (r', Inr v)"
  shows "reg_inv r' \<and> gr_arena_id h = aid \<and> reg_map r h = Some v \<and> reg_dead r' h \<and>
    reg_map r' = (reg_map r)(h := None) \<and> (\<forall>k. reg_dead r k \<longrightarrow> reg_dead r' k)"
proof -
  obtain a a' where a: "reg_arena r aid = Inr a" and rem: "arena_remove hp a h = (a', Inr v)"
    and r': "r' = put_arena r aid a'" and aid: "gr_arena_id h = aid"
    using run by (auto simp: reg_remove_def reg_validate_identity_def reg_arena_mut_cases
        split: sum.splits prod.splits if_splits)
  note ainv = conjunct1 [OF reg_inv_arena [OF inv a]]
  note rel = arena_remove_releases [OF rem]
  have "reg_inv r'"
    using put_arena_inv [OF inv a apool.release_inv [OF ainv rel]] apool.releases_law [OF rel] r'
    by simp
  moreover have "reg_map r h = Some v"
    using arena_remove_map(1) [OF rem] a aid by (simp add: reg_map_def)
  moreover have "reg_dead r' h"
    using apool.release_dead(2) [OF rel] aid r' by (simp add: put_arena_dead [OF a])
  moreover have "reg_map r' = (reg_map r)(h := None)"
    unfolding r' by (rule put_arena_map_upd [OF a aid arena_remove_map(2) [OF rem]])
  moreover have "reg_dead r' k" if "reg_dead r k" for k
    unfolding r' by (rule put_arena_dead_mono [OF a apool.release_keeps_dead [OF rel] that])
  ultimately show ?thesis using aid by blast
qed

lemma reg_remove_Err: "reg_remove hp r aid h = (r', Inl e) \<Longrightarrow> r' = r"
  by (cases "reg_arena r aid")
    (auto simp: reg_remove_def reg_arena_mut_cases put_arena_same split: sum.splits prod.splits
      dest!: arena_remove_Err)

lemma reg_get_mut_Ok:
  assumes inv: "reg_inv r" and run: "reg_get_mut r aid h f = (r', Inr v)"
  shows "reg_inv r' \<and> gr_arena_id h = aid \<and> reg_map r h = Some v \<and>
    reg_map r' = (reg_map r)(h \<mapsto> f v) \<and> (\<forall>k. reg_dead r k \<longrightarrow> reg_dead r' k)"
proof -
  obtain a a' where a: "reg_arena r aid = Inr a" and upd: "arena_get_mut a h f = (a', Inr v)"
    and r': "r' = put_arena r aid a'" and aid: "gr_arena_id h = aid"
    using run by (auto simp: reg_get_mut_def reg_validate_identity_def reg_arena_mut_cases
        split: sum.splits prod.splits if_splits)
  note spec = arena_get_mut_Ok [OF upd]
  have "arena_inv a'" unfolding spec(2-4) using reg_inv_arena [OF inv a] by blast
  then have "reg_inv r'" using put_arena_inv [OF inv a] spec(4) r' by simp
  moreover have "reg_map r h = Some v" using spec(1) a aid by (simp add: reg_map_def)
  moreover have "reg_map r' = (reg_map r)(h \<mapsto> f v)"
    unfolding r' by (rule put_arena_map_upd [OF a aid spec(5)])
  moreover have "reg_dead r' k" if "reg_dead r k" for k
    unfolding r' by (rule put_arena_dead_mono [OF a _ that]) (simp add: spec(2))
  ultimately show ?thesis using aid by blast
qed

lemma reg_get_mut_Err: "reg_get_mut r aid h f = (r', Inl e) \<Longrightarrow> r' = r"
  by (cases "reg_arena r aid")
    (auto simp: reg_get_mut_def reg_arena_mut_cases put_arena_same split: sum.splits prod.splits
      dest!: arena_get_mut_Err)

lemma reg_arena_eqI:
  "(\<And>a. reg_arena r aid = Inr a \<longleftrightarrow> reg_arena r' aid' = Inr a) \<Longrightarrow> reg_arena r aid = reg_arena r' aid'"
  by (metis reg_arena_Err sumE)

lemma reg_create_claims: "reg_create_arena hp r = (r', Inr aid) \<Longrightarrow>
    reg_claims r r' (ai_slot aid) (ai_generation aid)"
  unfolding reg_claims_def by (cases aid) auto

lemma reg_create_arena_arena:
  assumes inv: "reg_inv r" and run: "reg_create_arena hp r = (r', Inr aid)"
  shows "reg_arena r' aid' =
    (if aid' = aid then Inr (arena_new (rg_generation_limit r)) else reg_arena r aid')"
  using run
proof (cases rule: reg_create_Ok)
  case (reuse fr)
  have "snd (reg_view r ! unat (ai_slot aid)) = KVacant"
    using inv reuse(1) pool_inv_parts(4) [of "reg_view r" "rg_free r" _ "ai_slot aid"]
    by (auto simp: reg_inv_def)
  then have "\<not> is_live (as_state (rg_arenas r ! unat (ai_slot aid)))"
    using reuse(2) by (cases "as_state (rg_arenas r ! unat (ai_slot aid))") (auto simp: nth_reg_view)
  then have "reg_arena r aid' = Inl ArenaGone" if "ai_slot aid' = ai_slot aid"
    using that reg_arena_Err [of r aid'] by (cases "reg_arena r aid'") (auto simp: reg_arena_Ok)
  with reuse(2,5) show ?thesis
    by (auto simp: arena_id_eq_iff reg_arena_def Let_def nth_list_update)
next
  case fresh
  have "unat (ai_slot aid') = length (rg_arenas r) \<longleftrightarrow> ai_slot aid' = ai_slot aid"
    using fresh(2,3) by (metis u32_unat_eq unat_of_nat_len)
  with fresh(4,5) show ?thesis
    by (auto simp: arena_id_eq_iff reg_arena_def Let_def nth_append less_Suc_eq)
qed

lemma reg_create_arena_Ok:
  assumes inv: "reg_inv r" and run: "reg_create_arena hp r = (r', Inr aid)"
  shows "reg_inv r' \<and> reg_arena r' aid = Inr (arena_new (rg_generation_limit r)) \<and>
    reg_map r' = reg_map r \<and> (\<forall>k. reg_dead r k \<longrightarrow> reg_dead r' k) \<and>
    (\<forall>k. gr_arena_id k = aid \<longrightarrow> \<not> reg_dead r k \<and> reg_map r k = None)"
proof -
  note claims = reg_create_claims [OF run]
  have pool: "rpool.inv r" using inv by (simp add: reg_inv_def)
  note arena = reg_create_arena_arena [OF inv run] and fresh = rpool.claim_fresh [OF pool claims]
  have lim: "rg_generation_limit r' = rg_generation_limit r" using rpool.claims_law [OF claims] by simp
  have none: "reg_arena r aid = Inl ArenaGone"
    using fresh(2) reg_arena_live [of r aid] reg_arena_Err [of r aid] by (cases "reg_arena r aid") auto
  have "arena_inv (arena_new (rg_generation_limit r)) \<and>
      ar_generation_limit (arena_new (rg_generation_limit r)) = rg_generation_limit r"
    using arena_new_inv [OF pool_inv_parts(1) [OF pool]] by (simp add: arena_new_def)
  then have "reg_inv r'"
    unfolding reg_inv_def lim using rpool.claim_inv [OF pool claims] arena lim inv
    by (metis reg_inv_arena sum.inject(2))
  moreover have "reg_map r' = reg_map r"
    using none by (auto simp: fun_eq_iff reg_map_def arena)
  moreover have "reg_dead r' k" if "reg_dead r k" for k
    using that rpool.claim_dead [OF claims] none by (auto simp: reg_dead_def arena)
  moreover have "\<not> reg_dead r k \<and> reg_map r k = None" if "gr_arena_id k = aid" for k
    using that none fresh(3) by (auto simp: reg_dead_def reg_map_def)
  ultimately show ?thesis using arena [of aid] by simp
qed

lemma reg_create_arena_Err:
  assumes inv: "reg_inv r" and run: "reg_create_arena hp r = (r', Inl e)"
  shows "r' = r"
proof (cases "vec_pop (rg_free r)")
  case None
  then show ?thesis using run by (auto simp: reg_create_arena_def split: if_splits sum.splits)
next
  case (Some p)
  have pool: "rpool.inv r" using inv by (simp add: reg_inv_def)
  from Some obtain fr i where p: "p = (fr, i)" "rg_free r = fr @ [i]"
    by (cases p) (auto simp: vec_pop_Some)
  then have "unat i < length (rg_arenas r)" "snd (reg_view r ! unat i) = KVacant"
    using pool_inv_parts(4) [OF pool, of i] by auto
  moreover from this have "as_generation (rg_arenas r ! unat i) < rg_generation_limit r"
    using pool_inv_nth [OF pool, of "unat i"] by (auto simp: nth_reg_view)
  ultimately show ?thesis using run Some p
    by (auto simp: reg_create_arena_def Let_def next_generation_total)
qed

lemma reg_destroy_arena_arena:
  assumes run: "reg_destroy_arena hp r aid = (r', Inr ())"
  shows "reg_arena r' aid' = (if aid' = aid then Inl ArenaGone else reg_arena r aid')"
  using run
  by (cases rule: reg_destroy_Ok)
    (auto simp: arena_id_eq_iff reg_arena_def Let_def nth_list_update split: if_splits)

lemma reg_destroy_arena_Ok:
  assumes inv: "reg_inv r" and run: "reg_destroy_arena hp r aid = (r', Inr ())"
  shows "reg_inv r' \<and> reg_arena r' aid = Inl ArenaGone \<and> (\<exists>a. reg_arena r aid = Inr a) \<and>
    reg_map r' = (\<lambda>h. if gr_arena_id h = aid then None else reg_map r h) \<and>
    (\<forall>k. reg_dead r k \<or> gr_arena_id k = aid \<longrightarrow> reg_dead r' k)"
proof -
  have rel: "reg_releases r r' (ai_slot aid) (ai_generation aid)"
    using run unfolding reg_releases_def by blast
  have pool: "rpool.inv r" using inv by (simp add: reg_inv_def)
  note arena = reg_destroy_arena_arena [OF run]
  have lim: "rg_generation_limit r' = rg_generation_limit r" using rpool.releases_law [OF rel] by simp
  have "reg_inv r'"
    unfolding reg_inv_def lim using rpool.release_inv [OF pool rel] arena lim inv
    by (metis reg_inv_arena sum.distinct(1))
  moreover have "\<exists>a. reg_arena r aid = Inr a"
    using rpool.release_dead(1) [OF rel] reg_arena_live by blast
  moreover have "reg_map r' = (\<lambda>h. if gr_arena_id h = aid then None else reg_map r h)"
    by (auto simp: fun_eq_iff reg_map_def arena)
  moreover have "reg_dead r' k" if "reg_dead r k \<or> gr_arena_id k = aid" for k
    using that rpool.release_dead(2) [OF rel] rpool.release_keeps_dead [OF rel]
    by (auto simp: reg_dead_def arena)
  ultimately show ?thesis using arena [of aid] by simp
qed

section \<open>The registry as a state machine\<close>

text \<open>
  One call of the public interface, with the allocator's behaviour during that call. A program using
  the registry is any sequence of them.
\<close>

datatype 'a reg_op =
    Create heap
  | Insert heap arena_id 'a
  | Update arena_id gen_ref "'a \<Rightarrow> 'a"
  | Remove heap arena_id gen_ref
  | Destroy heap arena_id

fun reg_exec :: "'a reg_op \<Rightarrow> 'a registry \<Rightarrow> 'a registry" where
  "reg_exec (Create hp) r = fst (reg_create_arena hp r)"
| "reg_exec (Insert hp aid v) r = fst (reg_insert hp r aid v)"
| "reg_exec (Update aid h f) r = fst (reg_get_mut r aid h f)"
| "reg_exec (Remove hp aid h) r = fst (reg_remove hp r aid h)"
| "reg_exec (Destroy hp aid) r = fst (reg_destroy_arena hp r aid)"

definition reg_init :: "'a registry \<Rightarrow> bool" where
  "reg_init r \<longleftrightarrow> r = reg_new \<or> (\<exists>limit. reg_with_generation_limit limit = Ok r)"

inductive reg_step :: "'a registry \<Rightarrow> 'a registry \<Rightarrow> bool" where
  reg_stepI: "reg_step r (reg_exec op r)"

inductive_cases reg_stepE: "reg_step r r'"

text \<open>A step keeps the invariant and the dead handles, and a live handle stays live or dies.\<close>

lemma reg_init_inv: "reg_init r \<Longrightarrow> reg_inv r"
  by (auto simp: reg_init_def reg_new_def reg_with_generation_limit_def reg_inv_def reg_view_def
      reg_arena_def pool_inv_empty word_gt_0 split: if_splits)

definition reg_advances :: "'a registry \<Rightarrow> 'a registry \<Rightarrow> bool" where
  "reg_advances r r' \<longleftrightarrow> reg_inv r' \<and> (\<forall>k. reg_dead r k \<longrightarrow> reg_dead r' k) \<and>
     (\<forall>k. reg_map r k \<noteq> None \<longrightarrow> reg_map r' k \<noteq> None \<or> reg_dead r' k)"

lemma reg_advances_refl: "reg_inv r \<Longrightarrow> reg_advances r r"
  by (simp add: reg_advances_def)

lemma reg_insert_advances: "reg_inv r \<Longrightarrow> reg_advances r (fst (reg_insert hp r aid v))"
proof (cases "reg_insert hp r aid v")
  case (Pair r' res)
  assume "reg_inv r"
  with Pair show ?thesis
    using reg_insert_Ok [of r hp aid v r'] reg_insert_Err [of r hp aid v r']
    by (cases res) (simp_all add: reg_advances_def)
qed

lemma reg_remove_advances: "reg_inv r \<Longrightarrow> reg_advances r (fst (reg_remove hp r aid h))"
proof (cases "reg_remove hp r aid h")
  case (Pair r' res)
  assume "reg_inv r"
  with Pair show ?thesis
    using reg_remove_Ok [of r hp aid h r'] reg_remove_Err [of hp r aid h r']
    by (cases res) (simp_all add: reg_advances_def)
qed

lemma reg_get_mut_advances: "reg_inv r \<Longrightarrow> reg_advances r (fst (reg_get_mut r aid h f))"
proof (cases "reg_get_mut r aid h f")
  case (Pair r' res)
  assume "reg_inv r"
  with Pair show ?thesis
    using reg_get_mut_Ok [of r aid h f r'] reg_get_mut_Err [of r aid h f r']
    by (cases res) (simp_all add: reg_advances_def)
qed

lemma reg_create_advances: "reg_inv r \<Longrightarrow> reg_advances r (fst (reg_create_arena hp r))"
proof (cases "reg_create_arena hp r")
  case (Pair r' res)
  assume "reg_inv r"
  with Pair show ?thesis
    using reg_create_arena_Ok [of r hp r'] reg_create_arena_Err [of r hp r']
    by (cases res) (simp_all add: reg_advances_def)
qed

lemma reg_destroy_advances: "reg_inv r \<Longrightarrow> reg_advances r (fst (reg_destroy_arena hp r aid))"
proof (cases "reg_destroy_arena hp r aid")
  case (Pair r' res)
  assume "reg_inv r"
  with Pair show ?thesis
    using reg_destroy_arena_Ok [of r hp aid r'] reg_destroy_Err [of hp r aid r']
    by (cases res) (simp_all add: reg_advances_def)
qed

lemmas reg_advances_intros = reg_insert_advances reg_remove_advances reg_get_mut_advances
  reg_create_advances reg_destroy_advances

lemma reg_exec_advances: "reg_inv r \<Longrightarrow> reg_advances r (reg_exec op r)"
  by (cases op) (simp_all add: reg_advances_intros)

lemma reg_step_advances: "reg_step r r' \<Longrightarrow> reg_inv r \<Longrightarrow> reg_advances r r'"
  by (auto elim!: reg_stepE intro: reg_exec_advances)

definition reg_issued :: "gen_ref \<Rightarrow> 'a registry \<Rightarrow> bool" where
  "reg_issued h r \<longleftrightarrow> reg_inv r \<and> (reg_dead r h \<or> reg_map r h \<noteq> None)"

definition reg_expired :: "gen_ref \<Rightarrow> 'a registry \<Rightarrow> bool" where
  "reg_expired h r \<longleftrightarrow> reg_inv r \<and> reg_dead r h"

lemma reg_issued_step: "reg_issued h r \<Longrightarrow> reg_step r r' \<Longrightarrow> reg_issued h r'"
  using reg_step_advances [of r r'] unfolding reg_issued_def reg_advances_def by blast

interpretation registry: inductive_invariant reg_init reg_step reg_inv
  using reg_step_advances by unfold_locales (auto simp: reg_init_inv reg_advances_def)

text \<open>A handle, once issued, stays issued; once dead, it stays dead.\<close>

interpretation issued: inductive_invariant "\<lambda>_. False" reg_step "reg_issued h" for h
  using reg_issued_step by unfold_locales auto

interpretation expired: inductive_invariant "\<lambda>_. False" reg_step "reg_expired h" for h
  using reg_step_advances by unfold_locales (auto simp: reg_expired_def reg_advances_def)

section \<open>Counting\<close>

text \<open>The metrics are the sums over the arenas of the numbers of slots in each state.\<close>

definition occupied_count :: "'a arena_slot \<Rightarrow> nat" where
  "occupied_count slot = (case as_state slot of
     ALive a \<Rightarrow> length (filter (\<lambda>s. is_occupied (vs_state s)) (ar_slots a)) | _ \<Rightarrow> 0)"

lemma count_value_fold:
  "rm_occupied_slots (foldl count_value mt vs) =
     rm_occupied_slots mt + length (filter (\<lambda>s. is_occupied (vs_state s)) vs) \<and>
   rm_live_arenas (foldl count_value mt vs) = rm_live_arenas mt"
  by (induction vs arbitrary: mt) (auto simp: count_value_def split: value_state.splits)

lemma count_arena_fold:
  "rm_occupied_slots (foldl count_arena mt as) =
     rm_occupied_slots mt + sum_list (map occupied_count as) \<and>
   rm_live_arenas (foldl count_arena mt as) =
     rm_live_arenas mt + length (filter (\<lambda>s. is_live (as_state s)) as)"
proof (induction as arbitrary: mt)
  case (Cons x as)
  then show ?case
    using count_value_fold [of "mt\<lparr>rm_live_arenas := rm_live_arenas mt + 1\<rparr>"]
    by (auto simp: count_arena_def occupied_count_def split: arena_state.splits)
qed simp

text \<open>The keys of the abstract contents, listed slot by slot.\<close>

definition arena_keys :: "arena_id \<Rightarrow> 'a arena \<Rightarrow> gen_ref set" where
  "arena_keys aid a = (\<lambda>i. make_handle aid (of_nat i) (vs_generation (ar_slots a ! i))) `
     {i. i < length (ar_slots a) \<and> is_occupied (vs_state (ar_slots a ! i))}"

lemma arena_map_None_iff:
  "arena_map a i g \<noteq> None \<longleftrightarrow> unat i < length (ar_slots a) \<and> is_occupied (vs_state (ar_slots a ! unat i)) \<and>
     vs_generation (ar_slots a ! unat i) = g"
  unfolding arena_map_live by (auto simp: slot_live_def nth_arena_view)

lemma gen_ref_make_handle: "h = make_handle (gr_arena_id h) (gr_value_slot h) (gr_value_generation h)"
  by (simp add: gen_ref_eq_iff)

lemma arena_keys_map:
  assumes "arena_inv a"
  shows "h \<in> arena_keys aid a \<longleftrightarrow>
    gr_arena_id h = aid \<and> arena_map a (gr_value_slot h) (gr_value_generation h) \<noteq> None"
proof
  have len: "length (ar_slots a) \<le> 2 ^ 32" using pool_inv_parts(2) [OF assms] by simp
  show "h \<in> arena_keys aid a" if "gr_arena_id h = aid \<and>
      arena_map a (gr_value_slot h) (gr_value_generation h) \<noteq> None"
    using that unfolding arena_map_None_iff arena_keys_def
    by (intro image_eqI [of _ _ "unat (gr_value_slot h)"]) (auto simp: gen_ref_eq_iff)
  show "gr_arena_id h = aid \<and> arena_map a (gr_value_slot h) (gr_value_generation h) \<noteq> None"
    if key: "h \<in> arena_keys aid a"
  proof -
    from key obtain i where i: "i < length (ar_slots a)" "is_occupied (vs_state (ar_slots a ! i))"
      and h: "h = make_handle aid (of_nat i) (vs_generation (ar_slots a ! i))"
      by (auto simp: arena_keys_def)
    then have "unat (of_nat i :: u32) = i" using len by (simp add: unat_of_nat_len)
    then show ?thesis unfolding arena_map_None_iff using i h by simp
  qed
qed

lemma card_arena_keys:
  assumes "arena_inv a"
  shows "card (arena_keys aid a) = length (filter (\<lambda>s. is_occupied (vs_state s)) (ar_slots a))"
proof -
  have len: "length (ar_slots a) \<le> 2 ^ 32" using pool_inv_parts(2) [OF assms] by simp
  have "inj_on (\<lambda>i. make_handle aid (of_nat i) (vs_generation (ar_slots a ! i)))
      {i. i < length (ar_slots a) \<and> is_occupied (vs_state (ar_slots a ! i))}"
    by (rule inj_onI) (use len unat_of_nat_len in \<open>metis (no_types, lifting) make_handle_inj
        mem_Collect_eq order_less_le_trans\<close>)
  then show ?thesis unfolding arena_keys_def by (simp add: card_image length_filter_conv_card)
qed

lemma reg_inv_arena_inv: "reg_inv r \<Longrightarrow> reg_arena r aid = Inr a \<Longrightarrow> arena_inv a"
  using reg_inv_arena by blast

definition keys_at :: "'a registry \<Rightarrow> nat \<Rightarrow> gen_ref set" where
  "keys_at r i = (case as_state (rg_arenas r ! i) of
     ALive a \<Rightarrow> arena_keys \<lparr>ai_slot = of_nat i, ai_generation = as_generation (rg_arenas r ! i)\<rparr> a
   | _ \<Rightarrow> {})"

lemma reg_len: "reg_inv r \<Longrightarrow> length (rg_arenas r) \<le> 2 ^ 32"
  using pool_inv_parts(2) [of "reg_view r"] by (auto simp: reg_inv_def)

lemma reg_arena_at:
  assumes "reg_inv r" "i < length (rg_arenas r)" "as_state (rg_arenas r ! i) = ALive a"
  shows "reg_arena r \<lparr>ai_slot = of_nat i, ai_generation = as_generation (rg_arenas r ! i)\<rparr> = Inr a"
proof -
  have "unat (of_nat i :: u32) = i" using reg_len [OF assms(1)] assms(2) by (simp add: unat_of_nat_len)
  with assms(2,3) show ?thesis by (cases "rg_arenas r ! i") (simp add: reg_arena_Ok)
qed

lemma card_keys_at:
  assumes "reg_inv r" "i < length (rg_arenas r)"
  shows "card (keys_at r i) = occupied_count (rg_arenas r ! i)"
  using card_arena_keys [OF reg_inv_arena_inv [OF assms(1) reg_arena_at [OF assms]]]
  by (cases "as_state (rg_arenas r ! i)") (simp_all add: keys_at_def occupied_count_def)

lemma finite_keys_at: "finite (keys_at r i)"
  by (cases "as_state (rg_arenas r ! i)") (simp_all add: keys_at_def arena_keys_def)

lemma keys_at_slot: "h \<in> keys_at r i \<Longrightarrow> gr_arena_slot h = of_nat i"
  by (cases "as_state (rg_arenas r ! i)") (auto simp: keys_at_def arena_keys_def)

lemma keys_at_disjoint:
  assumes "reg_inv r" "i < length (rg_arenas r)" "j < length (rg_arenas r)" "i \<noteq> j"
  shows "keys_at r i \<inter> keys_at r j = {}"
proof -
  have "(of_nat i :: u32) \<noteq> of_nat j"
    using assms reg_len [OF assms(1)] unat_of_nat_len by (metis order_less_le_trans)
  then show ?thesis using keys_at_slot [of _ r i] keys_at_slot [of _ r j] by fastforce
qed

lemma dom_reg_map:
  assumes "reg_inv r"
  shows "dom (reg_map r) = (\<Union>i \<in> {..<length (rg_arenas r)}. keys_at r i)"
proof (intro equalityI subsetI)
  fix h assume "h \<in> dom (reg_map r)"
  then obtain a where a: "reg_arena r (gr_arena_id h) = Inr a"
    and m: "arena_map a (gr_value_slot h) (gr_value_generation h) \<noteq> None"
    by (auto simp: reg_map_def split: sum.splits)
  then have "h \<in> arena_keys (gr_arena_id h) a"
    using arena_keys_map [OF reg_inv_arena_inv [OF assms a]] by auto
  then have "h \<in> keys_at r (unat (gr_arena_slot h))"
    using a by (auto simp: keys_at_def reg_arena_Ok gr_arena_id_def)
  then show "h \<in> (\<Union>i \<in> {..<length (rg_arenas r)}. keys_at r i)" using a by (auto simp: reg_arena_Ok)
next
  fix h assume "h \<in> (\<Union>i \<in> {..<length (rg_arenas r)}. keys_at r i)"
  then obtain i where "i < length (rg_arenas r)" "h \<in> keys_at r i" by auto
  then obtain a where i: "i < length (rg_arenas r)" "as_state (rg_arenas r ! i) = ALive a"
    and h: "h \<in> arena_keys \<lparr>ai_slot = of_nat i, ai_generation = as_generation (rg_arenas r ! i)\<rparr> a"
    by (cases "as_state (rg_arenas r ! i)") (auto simp: keys_at_def)
  note at = reg_arena_at [OF assms i]
  from h show "h \<in> dom (reg_map r)"
    using at arena_keys_map [OF reg_inv_arena_inv [OF assms at]] by (auto simp: reg_map_def)
qed

lemma card_dom_reg_map:
  assumes "reg_inv r"
  shows "card (dom (reg_map r)) = sum_list (map occupied_count (rg_arenas r))"
proof -
  have "card (dom (reg_map r)) = (\<Sum>i<length (rg_arenas r). card (keys_at r i))"
    unfolding dom_reg_map [OF assms]
    using keys_at_disjoint [OF assms] finite_keys_at by (intro card_UN_disjoint) auto
  also have "\<dots> = (\<Sum>i<length (rg_arenas r). occupied_count (rg_arenas r ! i))"
    using card_keys_at [OF assms] by (intro sum.cong) auto
  finally show ?thesis by (simp add: sum_list_sum_nth atLeast0LessThan)
qed

section \<open>Properties\<close>

text \<open>A registry with one arena: created, one value inserted, removed, another one inserted.\<close>

definition ex_heap :: heap where
  "ex_heap = \<lparr>hp_value_slot_size = 16, hp_arena_slot_size = 64, hp_try_reserve = (\<lambda>_ _. True)\<rparr>"

definition ex_aid :: arena_id where
  "ex_aid = \<lparr>ai_slot = 0, ai_generation = 1\<rparr>"

definition ex_handle :: gen_ref where
  "ex_handle = make_handle ex_aid 0 1"

definition ex_reg1 :: "nat registry" where
  "ex_reg1 = reg_exec (Insert ex_heap ex_aid 42) (reg_exec (Create ex_heap) reg_new)"

definition ex_reg2 :: "nat registry" where
  "ex_reg2 = reg_exec (Remove ex_heap ex_aid ex_handle) ex_reg1"

definition ex_reg3 :: "nat registry" where
  "ex_reg3 = reg_exec (Insert ex_heap ex_aid 43) ex_reg2"

lemmas ex_defs = ex_heap_def ex_aid_def ex_handle_def make_handle_def

lemma ex_reserve [simp]: "len < 100 \<Longrightarrow> elem_size \<le> 64 \<Longrightarrow> reserve_one ex_heap elem_size len = Ok ()"
  using mult_le_mono [of "len + 1" 100 elem_size 64]
  by (simp add: reserve_one_def usize_max_def isize_max_def ex_heap_def)

lemma ex_heap_sel [simp]: "hp_value_slot_size ex_heap = 16" "hp_arena_slot_size ex_heap = 64"
  by (simp_all add: ex_heap_def)

lemma ex_reg1_eq: "ex_reg1 = \<lparr>rg_arenas = [\<lparr>as_generation = 1, as_state = ALive
    \<lparr>ar_slots = [\<lparr>vs_generation = 1, vs_state = VOccupied 42\<rparr>], ar_free = [],
     ar_generation_limit = - 1\<rparr>\<rparr>], rg_free = [], rg_generation_limit = - 1\<rparr>"
  by (simp add: ex_reg1_def reg_create_arena_def reg_new_def vec_pop_def u32_max_def arena_new_def
      reg_insert_def reg_arena_mut_def ex_aid_def arena_insert_def)

lemma ex_reg2_eq: "ex_reg2 = \<lparr>rg_arenas = [\<lparr>as_generation = 1, as_state = ALive
    \<lparr>ar_slots = [\<lparr>vs_generation = 1, vs_state = VVacant\<rparr>], ar_free = [0],
     ar_generation_limit = - 1\<rparr>\<rparr>], rg_free = [], rg_generation_limit = - 1\<rparr>"
  by (simp add: ex_reg2_def ex_reg1_eq reg_remove_def reg_validate_identity_def ex_aid_def
      ex_handle_def arena_id_is_invalid_def gen_ref_is_invalid_def reg_arena_mut_def
      arena_remove_def size_of_u32_def)

lemma ex_reg3_eq: "ex_reg3 = \<lparr>rg_arenas = [\<lparr>as_generation = 1, as_state = ALive
    \<lparr>ar_slots = [\<lparr>vs_generation = 2, vs_state = VOccupied 43\<rparr>], ar_free = [],
     ar_generation_limit = - 1\<rparr>\<rparr>], rg_free = [], rg_generation_limit = - 1\<rparr>"
  by (simp add: ex_reg3_def ex_reg2_eq reg_insert_def reg_arena_mut_def ex_aid_def arena_insert_def
      vec_pop_def next_generation_def)

lemma ex_get [simp]:
  "reg_get ex_reg1 ex_aid ex_handle = Ok 42" "reg_get ex_reg2 ex_aid ex_handle = Err Stale"
  by (simp_all add: ex_reg1_eq ex_reg2_eq reg_get_def reg_validate_identity_def ex_aid_def
      ex_handle_def arena_id_is_invalid_def gen_ref_is_invalid_def reg_arena_def arena_get_def
      arena_value_slot_def)

lemma reach_exec: "reach reg_init reg_step r \<Longrightarrow> reach reg_init reg_step (reg_exec op r)"
  by (rule reach_step) (auto intro: reg_stepI)

lemma ex_reach: "reach reg_init reg_step ex_reg1" "reach reg_init reg_step ex_reg2"
  by (simp_all add: ex_reg1_def ex_reg2_def reach_exec reach_init reg_init_def del: reg_exec.simps)

lemma ex_steps: "reg_step\<^sup>*\<^sup>* ex_reg1 ex_reg2" "reg_step\<^sup>*\<^sup>* ex_reg2 ex_reg3"
  unfolding ex_reg2_def ex_reg3_def by (blast intro: reg_stepI)+

lemma ex_reg3_run: "reg_insert ex_heap ex_reg2 ex_aid 43 = (ex_reg3, Ok (make_handle ex_aid 0 2))"
  by (simp add: ex_reg3_eq ex_reg2_eq reg_insert_def reg_arena_mut_def ex_aid_def arena_insert_def
      vec_pop_def next_generation_def)

lemma reg_get_Ok_iff:
  "reg_inv r \<Longrightarrow> reg_get r aid h = Inr v \<longleftrightarrow> gr_arena_id h = aid \<and> reg_map r h = Some v"
  by (auto simp: reg_get_map split: option.splits)

lemma reg_remove_twice:
  assumes inv: "reg_inv r" and run: "reg_remove hp r aid h = (r', Inr v)"
  shows "reg_remove hp' r' aid h = (r', Inl Stale)"
proof -
  obtain a a' where a: "reg_arena r aid = Inr a" and rem: "arena_remove hp a h = (a', Inr v)"
    and r': "r' = put_arena r aid a'" and ok: "reg_validate_identity aid h = Inr ()"
    using run by (auto simp: reg_remove_def reg_arena_mut_cases split: sum.splits prod.splits)
  have a': "reg_arena r' aid = Inr a'" using r' put_arena_arena [OF a] by simp
  have "arena_remove hp' a' h = (a', Inl Stale)"
    using arena_remove_Ok [OF rem] by (auto simp: arena_remove_def Let_def)
  then show ?thesis
    using a' ok put_arena_same [OF a'] by (simp add: reg_remove_def reg_arena_mut_cases)
qed

text \<open>
  C1: use after free never succeeds (no ABA). Take any state of a registry and any handle that reads a
  value there. If the handle fails at some later state, it fails at every state after that one:
  no sequence of insertions, removals, arena creations and destructions, under any allocator
  behaviour, makes it valid again, also when its slot or its arena slot is reused.
\<close>

theorem genref_stale_for_ever:
  assumes "reach reg_init reg_step r" "reg_get r aid h = Ok v"
    and "reg_step\<^sup>*\<^sup>* r r1" "reg_get r1 aid h = Err e" "reg_step\<^sup>*\<^sup>* r1 r2"
  shows "\<exists>e'. reg_get r2 aid h = Err e'"
proof -
  have inv: "reg_inv r" by (rule registry.reach_inv [OF assms(1)])
  then have h: "gr_arena_id h = aid" "reg_issued h r"
    using assms(2) by (auto simp: reg_get_Ok_iff reg_issued_def)
  have iss: "reg_issued h r1" by (rule issued.steps_inv [OF assms(3) h(2)])
  then have "reg_map r1 h = None"
    using assms(4) h(1) by (auto simp: reg_issued_def reg_get_map split: option.splits)
  with iss have "reg_expired h r1" by (simp add: reg_issued_def reg_expired_def)
  then have "reg_expired h r2" by (rule expired.steps_inv [OF assms(5)])
  then show ?thesis
    using reg_dead_map [of r2 h] by (simp add: reg_expired_def reg_get_map)
qed

theorem genref_stale_for_ever_witness:
  "reg_get ex_reg1 ex_aid ex_handle = Ok 42 \<and> reg_get ex_reg2 ex_aid ex_handle = Err Stale \<and>
   (\<exists>e. reg_get ex_reg3 ex_aid ex_handle = Err e)"
  using genref_stale_for_ever [OF ex_reach(1) ex_get(1) ex_steps(1) ex_get(2) ex_steps(2)] by simp

text \<open>
  C13: handles are never issued twice. A handle that reads a value in some state differs from every
  handle a later insertion returns, whatever happened in between.
\<close>

theorem genref_handles_unique:
  assumes "reach reg_init reg_step r" "reg_get r aid h = Ok v"
    and "reg_step\<^sup>*\<^sup>* r r1" "reg_insert hp r1 aid' w = (r2, Ok h')"
  shows "h' \<noteq> h"
proof -
  have inv: "reg_inv r" by (rule registry.reach_inv [OF assms(1)])
  then have "reg_issued h r" using assms(2) by (auto simp: reg_get_Ok_iff reg_issued_def)
  then have "reg_issued h r1" by (rule issued.steps_inv [OF assms(3)])
  then show ?thesis using reg_insert_Ok [OF _ assms(4)] by (auto simp: reg_issued_def)
qed

theorem genref_handles_unique_witness:
  "reg_insert ex_heap ex_reg2 ex_aid 43 = (ex_reg3, Ok (make_handle ex_aid 0 2)) \<and>
   make_handle ex_aid 0 2 \<noteq> ex_handle"
  using genref_handles_unique [OF ex_reach(1) ex_get(1) ex_steps(1) ex_reg3_run] ex_reg3_run by simp

text \<open>
  C5: the registry implements a finite map from handles to values. In every reachable state an
  insertion that succeeds adds one entry under a handle that had none, reads back the value, and
  leaves every other handle alone; a removal that succeeds hands out the stored value, deletes that
  entry only, and a second removal of the same handle fails with \<open>Stale\<close> and changes nothing.
\<close>

theorem genref_refines_map:
  assumes "reach reg_init reg_step r"
  shows "(\<forall>hp aid v r' h. reg_insert hp r aid v = (r', Ok h) \<longrightarrow>
      reg_map r h = None \<and> reg_map r' = (reg_map r)(h \<mapsto> v) \<and> reg_get r' aid h = Ok v) \<and>
    (\<forall>hp aid h v r'. reg_remove hp r aid h = (r', Ok v) \<longrightarrow>
      reg_get r aid h = Ok v \<and> reg_map r' = (reg_map r)(h := None) \<and>
      (\<forall>hp'. reg_remove hp' r' aid h = (r', Err Stale)))"
proof (intro conjI allI impI)
  have inv: "reg_inv r" by (rule registry.reach_inv [OF assms])
  fix hp aid h v r'
  show "reg_map r h = None" "reg_map r' = (reg_map r)(h \<mapsto> v)" "reg_get r' aid h = Inr v"
    if "reg_insert hp r aid v = (r', Inr h)"
    using reg_insert_Ok [OF inv that] by (simp_all add: reg_get_Ok_iff)
  show "reg_get r aid h = Inr v" "reg_map r' = (reg_map r)(h := None)"
    if "reg_remove hp r aid h = (r', Inr v)"
    using reg_remove_Ok [OF inv that] inv by (simp_all add: reg_get_Ok_iff)
  show "reg_remove hp' r' aid h = (r', Inl Stale)" if "reg_remove hp r aid h = (r', Inr v)" for hp'
    by (rule reg_remove_twice [OF inv that])
qed

theorem genref_refines_map_witness:
  "reg_map ex_reg3 = (reg_map ex_reg2)(make_handle ex_aid 0 2 \<mapsto> 43) \<and>
   reg_get ex_reg3 ex_aid (make_handle ex_aid 0 2) = Ok 43"
  using genref_refines_map [OF ex_reach(2)] ex_reg3_run by blast

text \<open>
  C27: destroying an arena that succeeds invalidates every handle into it, now and for ever, with
  \<open>ArenaGone\<close>, and leaves the contents of all other arenas alone.
\<close>

theorem genref_destroy_arena:
  assumes "reach reg_init reg_step r" "reg_destroy_arena hp r aid = (r', Ok ())"
  shows "reg_map r' = (\<lambda>h. if gr_arena_id h = aid then None else reg_map r h) \<and>
    (\<forall>h r2. gr_arena_id h = aid \<and> reg_step\<^sup>*\<^sup>* r' r2 \<longrightarrow> (\<exists>e. reg_get r2 aid h = Err e)) \<and>
    (\<forall>h. gr_arena_id h = aid \<and> \<not> gen_ref_is_invalid h \<longrightarrow> reg_get r' aid h = Err ArenaGone)"
proof (intro conjI allI impI)
  have inv: "reg_inv r" by (rule registry.reach_inv [OF assms(1)])
  note spec = reg_destroy_arena_Ok [OF inv assms(2)]
  show "reg_map r' = (\<lambda>h. if gr_arena_id h = aid then None else reg_map r h)" using spec by blast
  fix h
  show "\<exists>e. reg_get r2 aid h = Inl e" if "gr_arena_id h = aid \<and> reg_step\<^sup>*\<^sup>* r' r2" for r2
  proof -
    have "reg_expired h r'" using spec that by (simp add: reg_expired_def)
    then have "reg_expired h r2" by (rule expired.steps_inv [OF conjunct2 [OF that]])
    then show ?thesis using reg_dead_map [of r2 h] by (simp add: reg_expired_def reg_get_map)
  qed
  show "reg_get r' aid h = Inl ArenaGone" if "gr_arena_id h = aid \<and> \<not> gen_ref_is_invalid h"
  proof -
    obtain a where "reg_arena r aid = Inr a" using spec by blast
    then have "\<not> arena_id_is_invalid aid" by (rule reg_arena_not_invalid [OF inv])
    then show ?thesis
      using that spec by (simp add: reg_get_def reg_validate_identity_def)
  qed
qed

lemma ex_destroy: "reg_destroy_arena ex_heap ex_reg1 ex_aid = (fst (reg_destroy_arena ex_heap ex_reg1 ex_aid), Ok ())"
  by (simp add: ex_reg1_eq reg_destroy_arena_def ex_aid_def size_of_u32_def)

theorem genref_destroy_arena_witness:
  "reg_get (fst (reg_destroy_arena ex_heap ex_reg1 ex_aid)) ex_aid ex_handle = Err ArenaGone"
  using genref_destroy_arena [OF ex_reach(1) ex_destroy]
  by (simp add: ex_handle_def gen_ref_is_invalid_def ex_aid_def)

text \<open>
  C26: failures are atomic. In every reachable state an operation that returns an error, for any
  reason including an allocation failure, leaves the registry exactly as it was.
\<close>

theorem genref_failure_atomic:
  assumes "reach reg_init reg_step r"
  shows "(\<forall>hp r' e. reg_create_arena hp r = (r', Err e) \<longrightarrow> r' = r) \<and>
    (\<forall>hp aid v r' e. reg_insert hp r aid v = (r', Err e) \<longrightarrow> r' = r) \<and>
    (\<forall>aid h f r' e. reg_get_mut r aid h f = (r', Err e) \<longrightarrow> r' = r) \<and>
    (\<forall>hp aid h r' e. reg_remove hp r aid h = (r', Err e) \<longrightarrow> r' = r) \<and>
    (\<forall>hp aid r' e. reg_destroy_arena hp r aid = (r', Err e) \<longrightarrow> r' = r)"
  by (intro conjI allI impI; elim reg_create_arena_Err [OF registry.reach_inv [OF assms]]
      reg_insert_Err [OF registry.reach_inv [OF assms]] reg_get_mut_Err reg_remove_Err
      reg_destroy_Err)

theorem genref_failure_atomic_witness:
  "fst (reg_remove ex_heap ex_reg2 ex_aid ex_handle) = ex_reg2"
proof -
  have "snd (reg_remove ex_heap ex_reg2 ex_aid ex_handle) = Err Stale"
    by (simp add: ex_reg2_eq reg_remove_def reg_validate_identity_def ex_aid_def ex_handle_def
        arena_id_is_invalid_def gen_ref_is_invalid_def reg_arena_mut_def arena_remove_def)
  then show ?thesis
    using genref_failure_atomic [OF ex_reach(2)] by (metis prod.collapse)
qed



text \<open>
  The metrics count what they say: in every reachable state \<open>occupied_slots\<close> is the number of live
  handles, and \<open>live_arenas\<close> the number of slots holding a live arena.
\<close>

theorem genref_metrics:
  assumes "reach reg_init reg_step r"
  shows "rm_occupied_slots (reg_metrics r) = card (dom (reg_map r)) \<and>
    rm_live_arenas (reg_metrics r) = card {aid. \<exists>a. reg_arena r aid = Ok a}"
proof
  have inv: "reg_inv r" by (rule registry.reach_inv [OF assms])
  show "rm_occupied_slots (reg_metrics r) = card (dom (reg_map r))"
    using card_dom_reg_map [OF inv] by (simp add: reg_metrics_def count_arena_fold)
  let ?aid = "\<lambda>i. \<lparr>ai_slot = of_nat i, ai_generation = as_generation (rg_arenas r ! i)\<rparr>"
  let ?I = "{i. i < length (rg_arenas r) \<and> is_live (as_state (rg_arenas r ! i))}"
  have "{aid. \<exists>a. reg_arena r aid = Inr a} = ?aid ` ?I"
  proof (intro equalityI subsetI)
    fix aid assume "aid \<in> {aid. \<exists>a. reg_arena r aid = Inr a}"
    then show "aid \<in> ?aid ` ?I"
      by (intro image_eqI [of _ _ "unat (ai_slot aid)"]) (auto simp: reg_arena_Ok)
  qed (use reg_arena_at [OF inv] in \<open>auto simp: is_live_iff\<close>)
  moreover have "inj_on ?aid ?I"
    by (rule inj_onI) (use reg_len [OF inv] unat_of_nat_len in \<open>metis (no_types, lifting)
        arena_id.ext_inject mem_Collect_eq order_less_le_trans\<close>)
  ultimately show "rm_live_arenas (reg_metrics r) = card {aid. \<exists>a. reg_arena r aid = Inr a}"
    by (simp add: reg_metrics_def count_arena_fold card_image length_filter_conv_card)
qed

theorem genref_metrics_witness:
  "card (dom (reg_map ex_reg1)) = 1 \<and> card {aid. \<exists>a. reg_arena ex_reg1 aid = Ok a} = 1"
proof -
  have "rm_occupied_slots (reg_metrics ex_reg1) = 1" "rm_live_arenas (reg_metrics ex_reg1) = 1"
    by (simp_all add: ex_reg1_eq reg_metrics_def count_arena_def count_value_def)
  then show ?thesis using genref_metrics [OF ex_reach(1)] by simp
qed

end
