(* ===== verification/PhaseLock.thy ===== *)
theory PhaseLock
  imports Prelude
begin

text \<open>
  \<open>crates/arandu_runtime/src/rt_runtime/phase_lock.rs\<close>: phase-fair reader/writer locks keyed by address.
  A lock's state lives in a table entry that exists only while the lock is held. Every critical
  section of the source runs under the mutex of the key's bucket, so each is one step of the model.
  A process abort is \<^const>\<open>None\<close>. A queued waiter is represented by the thread that blocks on it;
  \<open>signal\<close> is the list of waiters a step wakes, each with the mode it was queued for.
\<close>

section \<open>Data\<close>

record phase_state =
  ps_readers :: usize
  ps_writer :: bool
  ps_reader_owners :: "usize \<rightharpoonup> usize"
  ps_writer_owner :: "usize option"
  ps_waiting_readers :: "usize list"
  ps_waiting_writers :: "usize list"

definition ps_default :: phase_state where
  "ps_default = \<lparr>ps_readers = 0, ps_writer = False, ps_reader_owners = Map.empty,
     ps_writer_owner = None, ps_waiting_readers = [], ps_waiting_writers = []\<rparr>"

type_synonym lock_tables = "(usize \<rightharpoonup> phase_state) list"

definition states_init :: lock_tables where
  "states_init = replicate 64 Map.empty"

definition bucket :: "usize \<Rightarrow> nat" where
  "bucket key = unat (drop_bit 58 ((of_nat key :: u64) * 0x517cc1b727220a95))"

section \<open>Operations on one lock\<close>

definition add_reader :: "phase_state \<Rightarrow> usize \<Rightarrow> phase_state option" where
  "add_reader st owner =
     (if ps_readers st = usize_max then None
      else let count = (case ps_reader_owners st owner of None \<Rightarrow> 0 | Some n \<Rightarrow> n)
           in if count = usize_max then None
              else Some (st\<lparr>ps_readers := ps_readers st + 1,
                            ps_reader_owners := (ps_reader_owners st)(owner \<mapsto> count + 1)\<rparr>))"

definition remove_reader :: "phase_state \<Rightarrow> usize \<Rightarrow> phase_state \<times> bool" where
  "remove_reader st owner =
     (case ps_reader_owners st owner of
        None \<Rightarrow> (st, False)
      | Some count \<Rightarrow>
          if ps_readers st = 0 \<or> count = 0 then (st, False)
          else (st\<lparr>ps_readers := ps_readers st - 1,
                   ps_reader_owners := (if count = 1 then (ps_reader_owners st)(owner := None)
                      else (ps_reader_owners st)(owner \<mapsto> count - 1))\<rparr>, True))"

definition would_self_deadlock :: "phase_state \<Rightarrow> usize \<Rightarrow> bool \<Rightarrow> bool" where
  "would_self_deadlock st owner write \<longleftrightarrow>
     ps_writer_owner st = Some owner \<or>
     (write \<and> ps_reader_owners st owner \<noteq> None) \<or>
     (\<not> write \<and> ps_reader_owners st owner \<noteq> None \<and> ps_waiting_writers st \<noteq> [])"

definition admit_writer :: "phase_state \<Rightarrow> phase_state \<times> usize list" where
  "admit_writer st =
     (case ps_waiting_writers st of
        [] \<Rightarrow> (st, [])
      | w # ws \<Rightarrow>
          (st\<lparr>ps_waiting_writers := ws, ps_writer := True, ps_writer_owner := Some w\<rparr>, [w]))"

text \<open>The loop of a writer's release that admits the whole queue of readers.\<close>

function drain_readers :: "phase_state \<Rightarrow> (phase_state \<times> usize list) option" where
  "drain_readers st =
     (case ps_waiting_readers st of
        [] \<Rightarrow> Some (st, [])
      | w # ws \<Rightarrow>
          (case add_reader (st\<lparr>ps_waiting_readers := ws\<rparr>) w of
             None \<Rightarrow> None
           | Some st' \<Rightarrow>
               (case drain_readers st' of
                  None \<Rightarrow> None
                | Some (st'', log) \<Rightarrow> Some (st'', w # log))))"
  by pat_completeness auto

lemma add_reader_queues:
  "add_reader st w = Some st' \<Longrightarrow> ps_waiting_readers st' = ps_waiting_readers st \<and>
     ps_waiting_writers st' = ps_waiting_writers st \<and> ps_writer st' = ps_writer st \<and>
     ps_writer_owner st' = ps_writer_owner st"
  by (auto simp: add_reader_def Let_def split: if_splits)

termination drain_readers
  by (relation "measure (\<lambda>st. length (ps_waiting_readers st))") (auto dest: add_reader_queues)

declare drain_readers.simps [simp del]

section \<open>Operations on the tables\<close>

datatype acquire_result = Acquired | Busy | Queued

text \<open>
  \<open>acquire\<close> up to the point where it returns or starts to wait; a thread that waits returns 1 as soon as
  its waiter is signalled.
\<close>

definition acquire ::
  "lock_tables \<Rightarrow> usize \<Rightarrow> bool \<Rightarrow> bool \<Rightarrow> usize \<Rightarrow> (lock_tables \<times> acquire_result) option" where
  "acquire tabs key write blocking owner =
     (if key = 0 then None
      else
        let entries = tabs ! bucket key;
            st = (case entries key of None \<Rightarrow> ps_default | Some s \<Rightarrow> s);
            put = (\<lambda>s. tabs[bucket key := entries(key \<mapsto> s)])
        in
        if blocking \<and> would_self_deadlock st owner write then None
        else if \<not> ps_writer st \<and> ps_waiting_writers st = [] \<and> (\<not> write \<or> ps_readers st = 0) then
          if write then
            Some (put (st\<lparr>ps_writer := True, ps_writer_owner := Some owner\<rparr>), Acquired)
          else (case add_reader st owner of
                  None \<Rightarrow> None
                | Some st' \<Rightarrow> Some (put st', Acquired))
        else if \<not> blocking then Some (put st, Busy)
        else if write then
          Some (put (st\<lparr>ps_waiting_writers := ps_waiting_writers st @ [owner]\<rparr>), Queued)
        else
          Some (put (st\<lparr>ps_waiting_readers := ps_waiting_readers st @ [owner]\<rparr>), Queued))"

text \<open>The state a release leaves, with the waiters it signalled; \<open>Some None\<close> is the answer \<open>false\<close>.\<close>

definition release_state ::
  "phase_state \<Rightarrow> bool \<Rightarrow> usize \<Rightarrow> (phase_state \<times> (usize \<times> bool) list) option option" where
  "release_state st write owner =
     (if write then
        if \<not> ps_writer st \<or> ps_writer_owner st \<noteq> Some owner \<or> ps_readers st \<noteq> 0 then Some None
        else (case drain_readers (st\<lparr>ps_writer := False, ps_writer_owner := None\<rparr>) of
                None \<Rightarrow> None
              | Some (st1, rs) \<Rightarrow>
                  let (st2, ws) = (if ps_readers st1 = 0 then admit_writer st1 else (st1, []))
                  in Some (Some (st2, map (\<lambda>w. (w, False)) rs @ map (\<lambda>w. (w, True)) ws)))
      else
        if ps_writer st then Some None
        else let (st1, ok) = remove_reader st owner in
          if \<not> ok then Some None
          else let (st2, ws) = (if ps_readers st1 = 0 then admit_writer st1 else (st1, []))
               in Some (Some (st2, map (\<lambda>w. (w, True)) ws)))"

definition release ::
  "lock_tables \<Rightarrow> usize \<Rightarrow> bool \<Rightarrow> usize \<Rightarrow> (lock_tables \<times> bool \<times> (usize \<times> bool) list) option" where
  "release tabs key write owner =
     (if key = 0 then Some (tabs, False, [])
      else
        let entries = tabs ! bucket key in
        case entries key of
          None \<Rightarrow> Some (tabs, False, [])
        | Some st \<Rightarrow>
            (case release_state st write owner of
               None \<Rightarrow> None
             | Some None \<Rightarrow> Some (tabs, False, [])
             | Some (Some (st', log)) \<Rightarrow>
                 if \<not> ps_writer st' \<and> ps_readers st' = 0 then
                   if ps_writer_owner st' \<noteq> None \<or> ps_reader_owners st' \<noteq> Map.empty then None
                   else Some (tabs[bucket key := entries(key := None)], True, log)
                 else Some (tabs[bucket key := entries(key \<mapsto> st')], True, log)))"

section \<open>The runtime's entry points\<close>

definition ar_rt_rwlock_read :: "lock_tables \<Rightarrow> usize \<Rightarrow> usize \<Rightarrow> (lock_tables \<times> acquire_result) option" where
  "ar_rt_rwlock_read tabs key owner = acquire tabs key False True owner"

definition ar_rt_rwlock_write :: "lock_tables \<Rightarrow> usize \<Rightarrow> usize \<Rightarrow> (lock_tables \<times> acquire_result) option" where
  "ar_rt_rwlock_write tabs key owner = acquire tabs key True True owner"

definition ar_rt_rwlock_try_read :: "lock_tables \<Rightarrow> usize \<Rightarrow> usize \<Rightarrow> (lock_tables \<times> acquire_result) option" where
  "ar_rt_rwlock_try_read tabs key owner = acquire tabs key False False owner"

definition ar_rt_rwlock_try_write :: "lock_tables \<Rightarrow> usize \<Rightarrow> usize \<Rightarrow> (lock_tables \<times> acquire_result) option" where
  "ar_rt_rwlock_try_write tabs key owner = acquire tabs key True False owner"

definition ar_rt_rwlock_read_unlock ::
  "lock_tables \<Rightarrow> usize \<Rightarrow> usize \<Rightarrow> (lock_tables \<times> (usize \<times> bool) list) option" where
  "ar_rt_rwlock_read_unlock tabs key owner =
     (case release tabs key False owner of
        Some (tabs', True, log) \<Rightarrow> Some (tabs', log)
      | _ \<Rightarrow> None)"

definition ar_rt_rwlock_write_unlock ::
  "lock_tables \<Rightarrow> usize \<Rightarrow> usize \<Rightarrow> (lock_tables \<times> (usize \<times> bool) list) option" where
  "ar_rt_rwlock_write_unlock tabs key owner =
     (case release tabs key True owner of
        Some (tabs', True, log) \<Rightarrow> Some (tabs', log)
      | _ \<Rightarrow> None)"

section \<open>What a lock's state says about its holders and waiters\<close>

text \<open>
  \<open>h o w\<close> is the number of acquisitions thread \<open>o\<close> holds in mode \<open>w\<close> (\<open>True\<close> for writing), \<open>q o w\<close>
  says that it is queued in that mode.
\<close>

type_synonym holders = "usize \<Rightarrow> bool \<Rightarrow> nat"

definition lock_core :: "phase_state \<Rightarrow> holders \<Rightarrow> bool" where
  "lock_core st h \<longleftrightarrow>
     finite (dom (ps_reader_owners st)) \<and>
     (\<forall>o'. ps_reader_owners st o' = (if h o' False = 0 then None else Some (h o' False))) \<and>
     ps_readers st = (\<Sum>o' \<in> dom (ps_reader_owners st). h o' False) \<and>
     (\<forall>o'. h o' True = (if ps_writer_owner st = Some o' then 1 else 0)) \<and>
     (ps_writer st \<longleftrightarrow> ps_writer_owner st \<noteq> None) \<and> (ps_writer st \<longrightarrow> ps_readers st = 0)"

definition lock_queues :: "phase_state \<Rightarrow> (usize \<Rightarrow> bool \<Rightarrow> bool) \<Rightarrow> bool" where
  "lock_queues st q \<longleftrightarrow>
     distinct (ps_waiting_readers st) \<and> distinct (ps_waiting_writers st) \<and>
     (\<forall>o'. q o' False \<longleftrightarrow> o' \<in> set (ps_waiting_readers st)) \<and>
     (\<forall>o'. q o' True \<longleftrightarrow> o' \<in> set (ps_waiting_writers st))"

definition lock_waits :: "phase_state \<Rightarrow> bool" where
  "lock_waits st \<longleftrightarrow>
     (ps_waiting_readers st \<noteq> [] \<longrightarrow> ps_writer st \<or> ps_waiting_writers st \<noteq> []) \<and>
     (ps_waiting_writers st \<noteq> [] \<longrightarrow> ps_writer st \<or> 0 < ps_readers st)"

definition hold_more :: "holders \<Rightarrow> usize \<Rightarrow> bool \<Rightarrow> holders" where
  "hold_more h o' w = (\<lambda>x v. if x = o' \<and> v = w then Suc (h x v) else h x v)"

definition unbump :: "holders \<Rightarrow> usize \<Rightarrow> bool \<Rightarrow> holders" where
  "unbump h o' w = (\<lambda>x v. if x = o' \<and> v = w then h x v - 1 else h x v)"

primrec grant :: "(usize \<times> bool) list \<Rightarrow> holders \<Rightarrow> holders" where
  "grant [] h = h"
| "grant (x # xs) h = grant xs (hold_more h (fst x) (snd x))"

lemma grant_append [simp]: "grant (xs @ ys) h = grant ys (grant xs h)"
  by (induction xs arbitrary: h) auto

lemma grant_count: "grant log h o' w = h o' w + count_list log (o', w)"
  by (induction log arbitrary: h) (auto simp: hold_more_def)

lemma lock_core_default: "lock_core ps_default (\<lambda>_ _. 0)"
  by (simp add: lock_core_def ps_default_def)

lemma lock_core_waiting [simp]:
  "lock_core (st\<lparr>ps_waiting_readers := rs\<rparr>) h = lock_core st h"
  "lock_core (st\<lparr>ps_waiting_writers := ws\<rparr>) h = lock_core st h"
  unfolding lock_core_def by simp_all

lemma lock_coreD:
  assumes "lock_core st h"
  shows "finite (dom (ps_reader_owners st))"
    "ps_reader_owners st o' = (if h o' False = 0 then None else Some (h o' False))"
    "ps_readers st = (\<Sum>x \<in> dom (ps_reader_owners st). h x False)"
    "h o' True = (if ps_writer_owner st = Some o' then 1 else 0)"
    "ps_writer st \<longleftrightarrow> ps_writer_owner st \<noteq> None" "ps_writer st \<Longrightarrow> ps_readers st = 0"
  using assms unfolding lock_core_def by blast+

lemma lock_core_idle:
  assumes "lock_core st h" "ps_readers st = 0"
  shows "ps_reader_owners st = Map.empty" "h o' False = 0"
proof -
  have "h x False = 0" if "x \<in> dom (ps_reader_owners st)" for x
    using lock_coreD(1,3) [OF assms(1)] assms(2) that by (metis sum_eq_0_iff)
  moreover have "h x False \<noteq> 0" if "x \<in> dom (ps_reader_owners st)" for x
    using lock_coreD(2) [OF assms(1), of x] that by (auto split: if_splits)
  ultimately show empty: "ps_reader_owners st = Map.empty" by (metis dom_eq_empty_conv equals0I)
  show "h o' False = 0" using lock_coreD(2) [OF assms(1), of o'] empty by (auto split: if_splits)
qed

lemma lock_core_sum:
  assumes "lock_core st h" "dom (ps_reader_owners st) \<subseteq> A" "finite A"
  shows "ps_readers st = (\<Sum>o' \<in> A. h o' False)"
proof -
  have "(\<Sum>o' \<in> dom (ps_reader_owners st). h o' False) = (\<Sum>o' \<in> A. h o' False)"
    using assms(2,3) lock_coreD(2) [OF assms(1)]
    by (intro sum.mono_neutral_left) (auto simp: dom_def)
  then show ?thesis using lock_coreD(3) [OF assms(1)] by simp
qed

lemma lock_coreI:
  assumes "\<And>o'. ps_reader_owners st o' = (if h o' False = 0 then None else Some (h o' False))"
    and "finite A" "\<And>o'. 0 < h o' False \<Longrightarrow> o' \<in> A" "ps_readers st = (\<Sum>o' \<in> A. h o' False)"
    and "\<And>o'. h o' True = (if ps_writer_owner st = Some o' then 1 else 0)"
    and "ps_writer st \<longleftrightarrow> ps_writer_owner st \<noteq> None" "ps_writer st \<Longrightarrow> ps_readers st = 0"
  shows "lock_core st h"
proof -
  have dom: "dom (ps_reader_owners st) = {o'. 0 < h o' False}"
    using assms(1) by (auto simp: dom_def split: if_splits)
  then have fin: "finite (dom (ps_reader_owners st))"
    using assms(2,3) by (auto intro: finite_subset)
  have sum: "ps_readers st = (\<Sum>o' \<in> dom (ps_reader_owners st). h o' False)"
    unfolding assms(4) using assms(2,3) dom by (intro sum.mono_neutral_right) auto
  show ?thesis
    unfolding lock_core_def
    by (intro conjI allI impI) (fact fin assms(1) sum assms(5) assms(6) | erule assms(7))+
qed

lemma add_reader_core:
  assumes core: "lock_core st h" and "\<not> ps_writer st" and run: "add_reader st o' = Some st'"
  shows "lock_core st' (hold_more h o' False)" "ps_readers st' = ps_readers st + 1"
proof -
  let ?A = "insert o' (dom (ps_reader_owners st))"
  have st': "st' = st\<lparr>ps_readers := ps_readers st + 1,
      ps_reader_owners := (ps_reader_owners st)(o' \<mapsto> h o' False + 1)\<rparr>"
    using run lock_coreD(2) [OF core, of o']
    by (auto simp: add_reader_def Let_def split: if_splits)
  then show "ps_readers st' = ps_readers st + 1" by simp
  have fin: "finite ?A" using lock_coreD(1) [OF core] by simp
  have "(\<Sum>x \<in> ?A. hold_more h o' False x False) = Suc (\<Sum>x \<in> ?A. h x False)"
    using fin by (simp add: sum.remove [of ?A o'] hold_more_def)
  then have sum: "ps_readers st' = (\<Sum>x \<in> ?A. hold_more h o' False x False)"
    using lock_core_sum [OF core _ fin] st' by auto
  show "lock_core st' (hold_more h o' False)"
  proof (rule lock_coreI [where A = ?A])
    fix x
    show "ps_reader_owners st' x = (if hold_more h o' False x False = 0 then None
        else Some (hold_more h o' False x False))"
      using st' lock_coreD(2) [OF core, of x] by (auto simp: hold_more_def)
    show "x \<in> ?A" if "0 < hold_more h o' False x False"
      using that lock_coreD(2) [OF core, of x] by (auto simp: hold_more_def split: if_splits)
    show "hold_more h o' False x True = (if ps_writer_owner st' = Some x then 1 else 0)"
      using st' lock_coreD(4) [OF core, of x] by (simp add: hold_more_def)
  qed (use st' fin sum lock_coreD(5) [OF core] assms(2) in auto)
qed

lemma remove_reader_core:
  assumes core: "lock_core st h" and "\<not> ps_writer st" and run: "remove_reader st o' = (st', True)"
  shows "lock_core st' (unbump h o' False)" "0 < h o' False" "ps_readers st' = ps_readers st - 1"
    "0 < ps_readers st"
proof -
  let ?A = "dom (ps_reader_owners st)"
  have pos: "0 < h o' False" and readers: "0 < ps_readers st"
    and st': "st' = st\<lparr>ps_readers := ps_readers st - 1,
      ps_reader_owners := (if h o' False = 1 then (ps_reader_owners st)(o' := None)
        else (ps_reader_owners st)(o' \<mapsto> h o' False - 1))\<rparr>"
    using run lock_coreD(2) [OF core, of o']
    by (auto simp: remove_reader_def split: if_splits option.splits)
  then show "0 < h o' False" "ps_readers st' = ps_readers st - 1" "0 < ps_readers st" by auto
  have fin: "finite ?A" using lock_coreD(1) [OF core] by simp
  have mem: "o' \<in> ?A" using pos lock_coreD(2) [OF core, of o'] by auto
  have "(\<Sum>x \<in> ?A. h x False) = Suc (\<Sum>x \<in> ?A. unbump h o' False x False)"
    using fin mem pos by (simp add: sum.remove [of ?A o'] unbump_def)
  then have sum: "ps_readers st' = (\<Sum>x \<in> ?A. unbump h o' False x False)"
    using lock_core_sum [OF core _ fin] st' by auto
  show "lock_core st' (unbump h o' False)"
  proof (rule lock_coreI [where A = ?A])
    fix x
    show "ps_reader_owners st' x = (if unbump h o' False x False = 0 then None
        else Some (unbump h o' False x False))"
      using st' lock_coreD(2) [OF core, of x] pos by (auto simp: unbump_def)
    show "x \<in> ?A" if "0 < unbump h o' False x False"
      using that lock_coreD(2) [OF core, of x] by (auto simp: unbump_def split: if_splits)
    show "unbump h o' False x True = (if ps_writer_owner st' = Some x then 1 else 0)"
      using st' lock_coreD(4) [OF core, of x] by (simp add: unbump_def)
  qed (use st' fin sum lock_coreD(5) [OF core] assms(2) in auto)
qed

lemma remove_reader_fails:
  assumes core: "lock_core st h" and "0 < h o' False"
  shows "\<exists>st'. remove_reader st o' = (st', True)"
proof -
  have "ps_readers st \<noteq> 0" using lock_core_idle(2) [OF core] assms(2) by (metis less_not_refl)
  then show ?thesis using lock_coreD(2) [OF core, of o'] assms(2) by (simp add: remove_reader_def)
qed

lemma admit_writer_core:
  assumes core: "lock_core st h" and "\<not> ps_writer st" "ps_readers st = 0"
    and run: "admit_writer st = (st', ws)"
  shows "lock_core st' (grant (map (\<lambda>w. (w, True)) ws) h)"
    "ps_waiting_writers st = ws @ ps_waiting_writers st'" "ps_waiting_readers st' = ps_waiting_readers st"
    "ps_readers st' = 0" "ps_writer st' \<longleftrightarrow> ps_waiting_writers st \<noteq> []" "length ws \<le> 1"
proof -
  note core' = lock_coreD [OF core] and idle = lock_core_idle [OF core assms(3)]
  have no: "h x True = 0" for x using core'(4,5) assms(2) by auto
  show "lock_core st' (grant (map (\<lambda>w. (w, True)) ws) h)"
  proof (cases "ps_waiting_writers st")
    case Nil
    then show ?thesis using run core by (simp add: admit_writer_def)
  next
    case (Cons w ws')
    then show ?thesis using run no idle assms(3)
      by (intro lock_coreI [where A = "{}"]) (auto simp: admit_writer_def hold_more_def)
  qed
qed (use assms in \<open>auto simp: admit_writer_def split: list.splits\<close>)

lemma drain_readers_core:
  assumes "lock_core st h" "\<not> ps_writer st" "drain_readers st = Some (st', rs)"
  shows "lock_core st' (grant (map (\<lambda>w. (w, False)) rs) h) \<and> rs = ps_waiting_readers st \<and>
    ps_waiting_readers st' = [] \<and> ps_waiting_writers st' = ps_waiting_writers st \<and> \<not> ps_writer st' \<and>
    ps_readers st' = ps_readers st + length rs"
  using assms
proof (induction st arbitrary: h st' rs rule: drain_readers.induct)
  case (1 st)
  show ?case
  proof (cases "ps_waiting_readers st")
    case Nil
    then show ?thesis using "1.prems" by (simp add: drain_readers.simps)
  next
    case (Cons w ws)
    let ?st = "st\<lparr>ps_waiting_readers := ws\<rparr>"
    obtain st1 rs1 where add: "add_reader ?st w = Some st1"
      and rest: "drain_readers st1 = Some (st', rs1)" and rs: "rs = w # rs1"
      using "1.prems"(3) Cons by (auto simp: drain_readers.simps [of st] split: option.splits)
    have core: "lock_core ?st h" using "1.prems"(1) by simp
    have nw: "\<not> ps_writer ?st" using "1.prems"(2) by simp
    note add' = add_reader_core [OF core nw add] and q = add_reader_queues [OF add]
    have "\<not> ps_writer st1" using q nw by simp
    from "1.IH" [OF Cons add add'(1) this rest] add'(2)
    show ?thesis using q rs Cons by auto
  qed
qed

definition lock_ok :: "phase_state \<Rightarrow> holders \<Rightarrow> (usize \<Rightarrow> bool \<Rightarrow> bool) \<Rightarrow> bool" where
  "lock_ok st h q \<longleftrightarrow> lock_core st h \<and> lock_queues st q \<and> lock_waits st"

text \<open>The waiters a release in a given mode wakes.\<close>

definition release_log :: "phase_state \<Rightarrow> bool \<Rightarrow> (usize \<times> bool) list" where
  "release_log st write =
     (if write \<and> ps_waiting_readers st \<noteq> [] then map (\<lambda>w. (w, False)) (ps_waiting_readers st)
      else if write \<or> ps_readers st = 1 then map (\<lambda>w. (w, True)) (take 1 (ps_waiting_writers st))
      else [])"

lemma admit_writer_take: "admit_writer st = (st', ws) \<Longrightarrow> ws = take 1 (ps_waiting_writers st)"
  by (auto simp: admit_writer_def split: list.splits)

lemma lock_core_writer_release:
  assumes core: "lock_core st h" and "ps_writer_owner st = Some o'" "ps_writer st"
  shows "lock_core (st\<lparr>ps_writer := False, ps_writer_owner := None\<rparr>) (unbump h o' True)"
proof -
  have readers: "ps_readers st = 0" using lock_coreD(6) [OF core assms(3)] .
  note idle = lock_core_idle [OF core readers]
  show ?thesis
    using idle readers lock_coreD(4) [OF core] assms(2)
    by (intro lock_coreI [where A = "{}"]) (auto simp: unbump_def)
qed

lemma lock_queues_admit_readers:
  assumes "lock_queues st q" "ps_waiting_readers st' = []"
    "ps_waiting_writers st' = ps_waiting_writers st"
  shows "lock_queues st' (\<lambda>x w. q x w \<and> (x, w) \<notin> set (map (\<lambda>w. (w, False)) (ps_waiting_readers st)))"
  using assms by (auto simp: lock_queues_def)

lemma lock_queues_admit_writer:
  assumes "lock_queues st q" "ps_waiting_readers st' = ps_waiting_readers st"
    "ps_waiting_writers st = ws @ ps_waiting_writers st'"
  shows "lock_queues st' (\<lambda>x w. q x w \<and> (x, w) \<notin> set (map (\<lambda>w. (w, True)) ws))"
  using assms by (auto simp: lock_queues_def)

lemma release_write_ok:
  assumes ok: "lock_ok st h q" and run: "release_state st True o' = Some (Some (st', log))"
  shows "0 < h o' True \<and> log = release_log st True \<and>
    lock_ok st' (grant log (unbump h o' True)) (\<lambda>x w. q x w \<and> (x, w) \<notin> set log)"
proof -
  let ?st = "st\<lparr>ps_writer := False, ps_writer_owner := None\<rparr>"
  have core: "lock_core st h" and queues: "lock_queues st q" using ok by (auto simp: lock_ok_def)
  obtain st1 rs st2 ws where guard: "ps_writer st" "ps_writer_owner st = Some o'" "ps_readers st = 0"
    and drain: "drain_readers ?st = Some (st1, rs)"
    and admit: "(if ps_readers st1 = 0 then admit_writer st1 else (st1, [])) = (st2, ws)"
    and res: "st' = st2" "log = map (\<lambda>w. (w, False)) rs @ map (\<lambda>w. (w, True)) ws"
    using run by (auto simp: release_state_def Let_def split: if_splits option.splits prod.splits)
  have pos: "0 < h o' True" using lock_coreD(4) [OF core, of o'] guard(2) by simp
  from drain_readers_core [OF lock_core_writer_release [OF core guard(2,1)] _ drain]
  have d: "lock_core st1 (grant (map (\<lambda>w. (w, False)) rs) (unbump h o' True))"
    "rs = ps_waiting_readers st" "ps_waiting_readers st1 = []"
    "ps_waiting_writers st1 = ps_waiting_writers st" "\<not> ps_writer st1" "ps_readers st1 = length rs"
    using guard(3) by auto
  show ?thesis
  proof (cases "rs = []")
    case False
    then have "st' = st1" "log = map (\<lambda>w. (w, False)) rs" using admit d(6) res by auto
    moreover have "lock_waits st1" using False d(3,6) by (simp add: lock_waits_def)
    ultimately show ?thesis
      using pos False d lock_queues_admit_readers [OF queues d(3,4)]
      by (simp add: lock_ok_def release_log_def)
  next
    case True
    then have r0: "ps_readers st1 = 0" using d(6) by simp
    with admit have adm: "admit_writer st1 = (st2, ws)" by simp
    note a = admit_writer_core [OF d(1,5) r0 adm] and t = admit_writer_take [OF adm]
    have wq: "ps_waiting_writers st = ws @ ps_waiting_writers st2" using a(2) d(4) by simp
    have rq: "ps_waiting_readers st2 = ps_waiting_readers st" using a(3) d(2,3) True by simp
    have "lock_waits st2" using a(3,5) d(3) wq d(4) by (simp add: lock_waits_def)
    then show ?thesis
      using pos True t a(1) d(2,4) res lock_queues_admit_writer [OF queues rq wq]
      by (simp add: lock_ok_def release_log_def)
  qed
qed

lemma release_read_ok:
  assumes ok: "lock_ok st h q" and run: "release_state st False o' = Some (Some (st', log))"
  shows "0 < h o' False \<and> log = release_log st False \<and>
    lock_ok st' (grant log (unbump h o' False)) (\<lambda>x w. q x w \<and> (x, w) \<notin> set log)"
proof -
  have core: "lock_core st h" and queues: "lock_queues st q" and waits: "lock_waits st"
    using ok by (auto simp: lock_ok_def)
  obtain st1 st2 ws where guard: "\<not> ps_writer st" and rem: "remove_reader st o' = (st1, True)"
    and admit: "(if ps_readers st1 = 0 then admit_writer st1 else (st1, [])) = (st2, ws)"
    and res: "st' = st2" "log = map (\<lambda>w. (w, True)) ws"
    using run by (auto simp: release_state_def Let_def split: if_splits option.splits prod.splits)
  note r = remove_reader_core [OF core guard rem]
  have same: "ps_waiting_readers st1 = ps_waiting_readers st"
    "ps_waiting_writers st1 = ps_waiting_writers st" "ps_writer st1 = ps_writer st"
    using rem by (auto simp: remove_reader_def split: option.splits if_splits)
  show ?thesis
  proof (cases "ps_readers st1 = 0")
    case False
    then have "st' = st1" "log = []" using admit res by auto
    moreover have "lock_waits st1" using False waits same by (simp add: lock_waits_def)
    moreover have "lock_queues st1 q" using queues same by (simp add: lock_queues_def)
    moreover have "ps_readers st \<noteq> 1" using False r(3) by simp
    ultimately show ?thesis using r by (simp add: lock_ok_def release_log_def)
  next
    case True
    with admit have adm: "admit_writer st1 = (st2, ws)" by simp
    have one: "ps_readers st = 1" using True r(3,4) by simp
    have nw: "\<not> ps_writer st1" using same(3) guard by simp
    note a = admit_writer_core [OF r(1) nw True adm] and t = admit_writer_take [OF adm]
    have wq: "ps_waiting_writers st = ws @ ps_waiting_writers st2" using a(2) same(2) by simp
    have rq: "ps_waiting_readers st2 = ps_waiting_readers st" using a(3) same(1) by simp
    have "lock_waits st2" using a(3,5) same waits guard wq by (auto simp: lock_waits_def)
    then show ?thesis
      using r(2) one t a(1) same res lock_queues_admit_writer [OF queues rq wq]
      by (simp add: lock_ok_def release_log_def)
  qed
qed

lemma release_state_ok:
  assumes "lock_ok st h q" "release_state st write o' = Some (Some (st', log))"
  shows "0 < h o' write" "log = release_log st write"
    "lock_ok st' (grant log (unbump h o' write)) (\<lambda>x w. q x w \<and> (x, w) \<notin> set log)"
proof -
  have "0 < h o' write \<and> log = release_log st write \<and>
    lock_ok st' (grant log (unbump h o' write)) (\<lambda>x w. q x w \<and> (x, w) \<notin> set log)"
  proof (cases "write = True")
    case True
    show ?thesis using assms release_write_ok unfolding True by blast
  next
    case False
    then have False: "write = False" by simp
    show ?thesis using assms release_read_ok unfolding False by blast
  qed
  then show "0 < h o' write" "log = release_log st write"
    "lock_ok st' (grant log (unbump h o' write)) (\<lambda>x w. q x w \<and> (x, w) \<notin> set log)"
    by blast+
qed

text \<open>The answer is \<open>false\<close> exactly for a thread that does not hold the lock in that mode.\<close>

lemma release_state_false:
  assumes "lock_ok st h q"
  shows "release_state st write o' = Some None \<longleftrightarrow> h o' write = 0"
proof -
  have core: "lock_core st h" using assms by (simp add: lock_ok_def)
  note c = lock_coreD [OF core]
  show ?thesis
  proof (cases "write")
    case True
    then show ?thesis using c(4) [of o'] c(5,6)
      by (auto simp: release_state_def Let_def split: option.splits prod.splits)
  next
    case False
    have "ps_writer st \<Longrightarrow> h o' False = 0" using lock_core_idle(2) [OF core c(6)] .
    moreover have "snd (remove_reader st o') \<longleftrightarrow> 0 < h o' False" if "\<not> ps_writer st"
      using remove_reader_core(2) [OF core that, of o'] remove_reader_fails [OF core, of o']
      by (metis prod.collapse snd_conv)
    ultimately show ?thesis using False
      by (auto simp: release_state_def Let_def split: prod.splits)
  qed
qed

text \<open>The only failure of a release is an overflow while the queued readers are admitted.\<close>

lemma lock_core_le:
  assumes "lock_core st h"
  shows "h o' False \<le> ps_readers st"
proof (cases "h o' False = 0")
  case False
  then have "o' \<in> dom (ps_reader_owners st)" using lock_coreD(2) [OF assms, of o'] by auto
  then show ?thesis
    using lock_coreD(1,3) [OF assms] member_le_sum [of o' _ "\<lambda>x. h x False"] by auto
qed simp

lemma drain_readers_total:
  assumes "lock_core st h" "\<not> ps_writer st" "ps_readers st + length (ps_waiting_readers st) \<le> usize_max"
  shows "drain_readers st \<noteq> None"
  using assms
proof (induction st arbitrary: h rule: drain_readers.induct)
  case (1 st)
  show ?case
  proof (cases "ps_waiting_readers st")
    case Nil
    then show ?thesis by (simp add: drain_readers.simps)
  next
    case (Cons w ws)
    let ?st = "st\<lparr>ps_waiting_readers := ws\<rparr>"
    have core: "lock_core ?st h" and nw: "\<not> ps_writer ?st" using "1.prems" by auto
    have "h w False < usize_max" "ps_readers st < usize_max"
      using lock_core_le [OF "1.prems"(1), of w] "1.prems"(3) Cons by auto
    then obtain st1 where add: "add_reader ?st w = Some st1"
      using lock_coreD(2) [OF core, of w] by (fastforce simp: add_reader_def Let_def)
    note add' = add_reader_core [OF core nw add] and q = add_reader_queues [OF add]
    have "drain_readers st1 \<noteq> None"
      using "1.IH" [OF Cons add add'(1)] q nw add'(2) "1.prems"(3) Cons by simp
    then show ?thesis using Cons add by (auto simp: drain_readers.simps [of st])
  qed
qed

lemma release_never_stuck:
  assumes ok: "lock_ok st h q" and run: "release_state st wr o' = None"
  shows "wr \<and> usize_max < length (ps_waiting_readers st)"
proof -
  let ?st = "st\<lparr>ps_writer := False, ps_writer_owner := None\<rparr>"
  have core: "lock_core st h" using ok by (simp add: lock_ok_def)
  have g: "wr" "ps_writer st" "ps_writer_owner st = Some o'" "ps_readers st = 0" "drain_readers ?st = None"
    using run by (auto simp: release_state_def Let_def split: if_splits option.splits prod.splits)
  show ?thesis
    using drain_readers_total [OF lock_core_writer_release [OF core g(3,2)]] g by fastforce
qed

lemma release_idle_clean:
  assumes ok: "lock_ok st h q" and run: "release_state st wr o' = Some (Some (st', log))"
    and idle: "\<not> ps_writer st'" "ps_readers st' = 0"
  shows "ps_writer_owner st' = None" "ps_reader_owners st' = Map.empty"
proof -
  have core: "lock_core st' (grant log (unbump h o' wr))"
    using release_state_ok(3) [OF ok run] by (simp add: lock_ok_def)
  show "ps_reader_owners st' = Map.empty" by (rule lock_core_idle(1) [OF core idle(2)])
  show "ps_writer_owner st' = None" using lock_coreD(5) [OF core] idle(1) by simp
qed

section \<open>The tables\<close>

lemma bucket_lt: "bucket key < 64"
proof -
  define w where "w = (of_nat key :: u64) * 0x517cc1b727220a95"
  have "unat w < 2 ^ 64" using unsigned_less [of w, where ?'a = nat] by simp
  then have "unat w div 2 ^ 58 < 64" by (simp add: less_mult_imp_div_less)
  then show ?thesis by (simp add: bucket_def w_def [symmetric] unat_drop_bit_eq drop_bit_nat_def)
qed

definition entry :: "lock_tables \<Rightarrow> usize \<Rightarrow> phase_state option" where
  "entry tabs key = (tabs ! bucket key) key"

definition put_entry :: "lock_tables \<Rightarrow> usize \<Rightarrow> phase_state option \<Rightarrow> lock_tables" where
  "put_entry tabs key e = tabs[bucket key := (tabs ! bucket key)(key := e)]"

definition lock_state :: "lock_tables \<Rightarrow> usize \<Rightarrow> phase_state" where
  "lock_state tabs key = (case entry tabs key of None \<Rightarrow> ps_default | Some st \<Rightarrow> st)"

lemma entry_put [simp]:
  "length tabs = 64 \<Longrightarrow> entry (put_entry tabs key e) k = (if k = key then e else entry tabs k)"
  using bucket_lt [of key] by (auto simp: entry_def put_entry_def nth_list_update)

lemma length_put [simp]: "length (put_entry tabs key e) = length tabs"
  by (simp add: put_entry_def)

lemma lock_state_put [simp]:
  "length tabs = 64 \<Longrightarrow> lock_state (put_entry tabs key e) k =
     (if k = key then case e of None \<Rightarrow> ps_default | Some st \<Rightarrow> st else lock_state tabs k)"
  by (simp add: lock_state_def)

lemma acquire_eq:
  "acquire tabs key write blocking o' =
     (if key = 0 \<or> blocking \<and> would_self_deadlock (lock_state tabs key) o' write then None
      else let st = lock_state tabs key; put = (\<lambda>s. put_entry tabs key (Some s)) in
        if \<not> ps_writer st \<and> ps_waiting_writers st = [] \<and> (\<not> write \<or> ps_readers st = 0) then
          if write then Some (put (st\<lparr>ps_writer := True, ps_writer_owner := Some o'\<rparr>), Acquired)
          else map_option (\<lambda>st'. (put st', Acquired)) (add_reader st o')
        else if \<not> blocking then Some (put st, Busy)
        else if write then
          Some (put (st\<lparr>ps_waiting_writers := ps_waiting_writers st @ [o']\<rparr>), Queued)
        else Some (put (st\<lparr>ps_waiting_readers := ps_waiting_readers st @ [o']\<rparr>), Queued))"
  by (auto simp: acquire_def Let_def lock_state_def entry_def put_entry_def split: option.splits)

lemma release_eq:
  "release tabs key write o' =
     (if key = 0 then Some (tabs, False, [])
      else case entry tabs key of
        None \<Rightarrow> Some (tabs, False, [])
      | Some st \<Rightarrow>
          (case release_state st write o' of
             None \<Rightarrow> None
           | Some None \<Rightarrow> Some (tabs, False, [])
           | Some (Some (st', log)) \<Rightarrow>
               if \<not> ps_writer st' \<and> ps_readers st' = 0 then
                 if ps_writer_owner st' \<noteq> None \<or> ps_reader_owners st' \<noteq> Map.empty then None
                 else Some (put_entry tabs key None, True, log)
               else Some (put_entry tabs key (Some st'), True, log)))"
  by (auto simp: release_def Let_def entry_def put_entry_def split: option.splits)

section \<open>Threads using the locks\<close>

text \<open>
  The system: the tables, the acquisitions every thread holds as the calls returned to it, and the
  call a thread is blocked in. A blocked thread takes no step; it continues, holding the lock, when
  a release signals its waiter.
\<close>

record lock_system =
  ls_tabs :: lock_tables
  ls_held :: "usize \<Rightarrow> holders"
  ls_waiting :: "usize \<Rightarrow> (usize \<times> bool) option"

definition ls_init :: "lock_system \<Rightarrow> bool" where
  "ls_init s \<longleftrightarrow> s = \<lparr>ls_tabs = states_init, ls_held = (\<lambda>_ _ _. 0), ls_waiting = Map.empty\<rparr>"

definition wake :: "(usize \<times> bool) list \<Rightarrow> (usize \<Rightarrow> 'b option) \<Rightarrow> usize \<Rightarrow> 'b option" where
  "wake log w t = (if t \<in> fst ` set log then None else w t)"

inductive ls_step :: "lock_system \<Rightarrow> lock_system \<Rightarrow> bool" where
  step_acquired: "\<lbrakk>ls_waiting s t = None; acquire (ls_tabs s) key wr bl t = Some (tabs, Acquired)\<rbrakk> \<Longrightarrow>
    ls_step s (s\<lparr>ls_tabs := tabs, ls_held := (ls_held s)(key := hold_more (ls_held s key) t wr)\<rparr>)"
| step_busy: "\<lbrakk>ls_waiting s t = None; acquire (ls_tabs s) key wr bl t = Some (tabs, Busy)\<rbrakk> \<Longrightarrow>
    ls_step s (s\<lparr>ls_tabs := tabs\<rparr>)"
| step_queued: "\<lbrakk>ls_waiting s t = None; acquire (ls_tabs s) key wr bl t = Some (tabs, Queued)\<rbrakk> \<Longrightarrow>
    ls_step s (s\<lparr>ls_tabs := tabs, ls_waiting := (ls_waiting s)(t \<mapsto> (key, wr))\<rparr>)"
| step_released: "\<lbrakk>ls_waiting s t = None; release (ls_tabs s) key wr t = Some (tabs, True, log)\<rbrakk> \<Longrightarrow>
    ls_step s (s\<lparr>ls_tabs := tabs,
      ls_held := (ls_held s)(key := grant log (unbump (ls_held s key) t wr)),
      ls_waiting := wake log (ls_waiting s)\<rparr>)"

definition waits_for :: "lock_system \<Rightarrow> usize \<Rightarrow> usize \<Rightarrow> bool \<Rightarrow> bool" where
  "waits_for s key t w \<longleftrightarrow> ls_waiting s t = Some (key, w)"

definition ls_inv :: "lock_system \<Rightarrow> bool" where
  "ls_inv s \<longleftrightarrow> length (ls_tabs s) = 64 \<and> entry (ls_tabs s) 0 = None \<and>
     (\<forall>key. lock_ok (lock_state (ls_tabs s) key) (ls_held s key) (waits_for s key)) \<and>
     (\<forall>key st. entry (ls_tabs s) key = Some st \<longrightarrow> ps_writer st \<or> 0 < ps_readers st)"

lemma lock_ok_default: "lock_ok ps_default (\<lambda>_ _. 0) (\<lambda>_ _. False)"
  using lock_core_default by (simp add: lock_ok_def lock_queues_def lock_waits_def ps_default_def)

lemma ls_init_inv: "ls_init s \<Longrightarrow> ls_inv s"
  using lock_ok_default bucket_lt
  by (simp add: ls_init_def ls_inv_def states_init_def lock_state_def entry_def waits_for_def [abs_def])

text \<open>A step that rewrites the state of one lock.\<close>

lemma ls_inv_update:
  assumes inv: "ls_inv s" and "key \<noteq> 0"
    and ok: "lock_ok (case e of None \<Rightarrow> ps_default | Some st \<Rightarrow> st) h (waits_for s' key)"
    and busy: "\<And>st. e = Some st \<Longrightarrow> ps_writer st \<or> 0 < ps_readers st"
    and s': "ls_tabs s' = put_entry (ls_tabs s) key e" "ls_held s' = (ls_held s)(key := h)"
    and others: "\<And>k. k \<noteq> key \<Longrightarrow> waits_for s' k = waits_for s k"
  shows "ls_inv s'"
  using assms unfolding ls_inv_def by auto

lemma ls_inv_lock:
  assumes "ls_inv s"
  shows "lock_ok (lock_state (ls_tabs s) key) (ls_held s key) (waits_for s key)"
    "length (ls_tabs s) = 64" "entry (ls_tabs s) key = Some st \<Longrightarrow> ps_writer st \<or> 0 < ps_readers st"
  using assms by (auto simp: ls_inv_def)

lemma acquired_state:
  assumes ok: "lock_ok (lock_state tabs key) h q"
    and run: "acquire tabs key wr bl t = Some (tabs', Acquired)"
  obtains st where "tabs' = put_entry tabs key (Some st)" "key \<noteq> 0" "ps_writer st \<or> 0 < ps_readers st"
    "lock_ok st (hold_more h t wr) q"
proof (cases "wr = True")
  let ?st = "lock_state tabs key"
  have core: "lock_core ?st h" and queues: "lock_queues ?st q" and waits: "lock_waits ?st"
    using ok by (auto simp: lock_ok_def)
  have free: "\<not> ps_writer ?st" "ps_waiting_writers ?st = []" "key \<noteq> 0"
    using run by (auto simp: acquire_eq Let_def split: if_splits)
  have empty: "ps_waiting_readers ?st = []" using waits free by (simp add: lock_waits_def)
  {
    case True
    let ?st' = "?st\<lparr>ps_writer := True, ps_writer_owner := Some t\<rparr>"
    have idle: "ps_readers ?st = 0" and tabs': "tabs' = put_entry tabs key (Some ?st')"
      using run True by (auto simp: acquire_eq Let_def split: if_splits)
    have "lock_core ?st' (hold_more h t True)"
      using lock_core_idle [OF core idle] lock_coreD(4,5) [OF core] free(1) idle
      by (intro lock_coreI [where A = "{}"]) (auto simp: hold_more_def)
    moreover have "lock_queues ?st' q" "lock_waits ?st'"
      using queues by (auto simp: lock_queues_def lock_waits_def)
    ultimately show ?thesis using that [OF tabs' free(3)] True by (simp add: lock_ok_def)
  next
    case False
    then obtain st' where tabs': "tabs' = put_entry tabs key (Some st')"
      and add: "add_reader ?st t = Some st'"
      using run by (auto simp: acquire_eq Let_def split: if_splits)
    note q = add_reader_queues [OF add] and c = add_reader_core [OF core free(1) add]
    have "lock_queues st' q" "lock_waits st'"
      using queues q empty free(2) by (simp_all add: lock_queues_def lock_waits_def)
    then show ?thesis using that [OF tabs' free(3)] c False by (simp add: lock_ok_def)
  }
qed

lemma queued_state:
  assumes ok: "lock_ok (lock_state tabs key) h q" and fresh: "\<not> q t True" "\<not> q t False"
    and run: "acquire tabs key wr bl t = Some (tabs', Queued)"
  obtains st where "tabs' = put_entry tabs key (Some st)" "key \<noteq> 0" "ps_writer st \<or> 0 < ps_readers st"
    "lock_ok st h (\<lambda>x w. q x w \<or> x = t \<and> w = wr)"
proof (cases "wr = True")
  let ?st = "lock_state tabs key"
  have core: "lock_core ?st h" and queues: "lock_queues ?st q" and waits: "lock_waits ?st"
    using ok by (auto simp: lock_ok_def)
  have key: "key \<noteq> 0"
    and busy: "ps_writer ?st \<or> ps_waiting_writers ?st \<noteq> [] \<or> wr \<and> 0 < ps_readers ?st"
    using run by (auto simp: acquire_eq Let_def split: if_splits)
  then have held: "ps_writer ?st \<or> 0 < ps_readers ?st" using waits by (auto simp: lock_waits_def)
  {
    case True
    let ?st' = "?st\<lparr>ps_waiting_writers := ps_waiting_writers ?st @ [t]\<rparr>"
    have tabs': "tabs' = put_entry tabs key (Some ?st')"
      using run True by (auto simp: acquire_eq Let_def split: if_splits)
    have "lock_queues ?st' (\<lambda>x w. q x w \<or> x = t \<and> w = True)" "lock_waits ?st'"
      using queues fresh held by (auto simp: lock_queues_def lock_waits_def)
    then show ?thesis using that [OF tabs' key] held core True by (simp add: lock_ok_def)
  next
    case False
    let ?st' = "?st\<lparr>ps_waiting_readers := ps_waiting_readers ?st @ [t]\<rparr>"
    have tabs': "tabs' = put_entry tabs key (Some ?st')"
      using run False by (auto simp: acquire_eq Let_def split: if_splits)
    have "lock_queues ?st' (\<lambda>x w. q x w \<or> x = t \<and> w = False)" "lock_waits ?st'"
      using queues fresh held busy False waits by (auto simp: lock_queues_def lock_waits_def)
    then show ?thesis using that [OF tabs' key] held core False by (simp add: lock_ok_def)
  }
qed

lemma busy_state:
  assumes "lock_ok (lock_state tabs key) h q" "acquire tabs key wr bl t = Some (tabs', Busy)"
  shows "tabs' = put_entry tabs key (Some (lock_state tabs key))" "key \<noteq> 0"
    "ps_writer (lock_state tabs key) \<or> 0 < ps_readers (lock_state tabs key)"
  using assms by (auto simp: acquire_eq Let_def lock_ok_def lock_waits_def split: if_splits)

lemma released_state:
  assumes ok: "lock_ok (lock_state tabs key) h q"
    and run: "release tabs key wr t = Some (tabs', True, log)"
  obtains e where "tabs' = put_entry tabs key e" "key \<noteq> 0" "0 < h t wr"
    "log = release_log (lock_state tabs key) wr" "entry tabs key \<noteq> None"
    "\<And>st. e = Some st \<Longrightarrow> ps_writer st \<or> 0 < ps_readers st"
    "lock_ok (case e of None \<Rightarrow> ps_default | Some st \<Rightarrow> st) (grant log (unbump h t wr))
       (\<lambda>x w. q x w \<and> (x, w) \<notin> set log)"
proof -
  obtain st st' where key: "key \<noteq> 0" and entry: "entry tabs key = Some st"
    and rel: "release_state st wr t = Some (Some (st', log))"
    and tabs': "tabs' = put_entry tabs key (if \<not> ps_writer st' \<and> ps_readers st' = 0 then None else Some st')"
    using run by (auto simp: release_eq split: if_splits option.splits)
  have st: "lock_state tabs key = st" using entry by (simp add: lock_state_def)
  note r = release_state_ok [OF ok [unfolded st] rel]
  show ?thesis
  proof (cases "\<not> ps_writer st' \<and> ps_readers st' = 0")
    case False
    then show ?thesis using that [OF tabs' key] r entry st by auto
  next
    case True
    have core: "lock_core st' (grant log (unbump h t wr))"
      and idle: "ps_waiting_readers st' = []" "ps_waiting_writers st' = []"
      using r(3) True by (auto simp: lock_ok_def lock_waits_def)
    have "st' = ps_default"
      using lock_core_idle(1) [OF core] lock_coreD(5) [OF core] True idle
      by (cases st') (auto simp: ps_default_def)
    then show ?thesis using that [OF tabs' key] r entry st True by auto
  qed
qed

lemma ls_step_inv:
  assumes inv: "ls_inv s" and step: "ls_step s s'"
  shows "ls_inv s'"
  using step
proof cases
  case (step_acquired t key wr bl tabs)
  from acquired_state [OF ls_inv_lock(1) [OF inv] step_acquired(3)] obtain st
    where st: "tabs = put_entry (ls_tabs s) key (Some st)" "key \<noteq> 0"
      "ps_writer st \<or> 0 < ps_readers st" "lock_ok st (hold_more (ls_held s key) t wr) (waits_for s key)"
    by blast
  show ?thesis
    by (rule ls_inv_update [OF inv st(2), where e = "Some st" and h = "hold_more (ls_held s key) t wr"])
      (use st step_acquired(1) in \<open>auto simp: waits_for_def [abs_def]\<close>)
next
  case (step_busy t key wr bl tabs)
  note b = busy_state [OF ls_inv_lock(1) [OF inv] step_busy(3)]
  show ?thesis
    by (rule ls_inv_update [OF inv b(2), where e = "Some (lock_state (ls_tabs s) key)" and h = "ls_held s key"])
      (use b ls_inv_lock(1) [OF inv, of key] step_busy(1) in \<open>auto simp: waits_for_def [abs_def]\<close>)
next
  case (step_queued t key wr bl tabs)
  have "\<not> waits_for s key t w" for w using step_queued(2) by (simp add: waits_for_def)
  from queued_state [OF ls_inv_lock(1) [OF inv] this this step_queued(3)] obtain st
    where st: "tabs = put_entry (ls_tabs s) key (Some st)" "key \<noteq> 0"
      "ps_writer st \<or> 0 < ps_readers st"
      "lock_ok st (ls_held s key) (\<lambda>x w. waits_for s key x w \<or> x = t \<and> w = wr)"
    by blast
  have "waits_for s' key = (\<lambda>x w. waits_for s key x w \<or> x = t \<and> w = wr)"
    using step_queued(1,2) by (auto simp: fun_eq_iff waits_for_def)
  moreover have "waits_for s' k = waits_for s k" if "k \<noteq> key" for k
    using that step_queued(1,2) by (auto simp: fun_eq_iff waits_for_def)
  ultimately show ?thesis
    by (intro ls_inv_update [OF inv st(2), where e = "Some st" and h = "ls_held s key"])
      (use st step_queued(1) in auto)
next
  case (step_released t key wr tabs log)
  obtain e
    where e: "tabs = put_entry (ls_tabs s) key e" "key \<noteq> 0"
      "log = release_log (lock_state (ls_tabs s) key) wr"
      "\<And>st. e = Some st \<Longrightarrow> ps_writer st \<or> 0 < ps_readers st"
      "lock_ok (case e of None \<Rightarrow> ps_default | Some st \<Rightarrow> st) (grant log (unbump (ls_held s key) t wr))
         (\<lambda>x w. waits_for s key x w \<and> (x, w) \<notin> set log)"
    by (rule released_state [OF ls_inv_lock(1) [OF inv] step_released(3)]) (rule that)
  have logged: "waits_for s key x w" if "(x, w) \<in> set log" for x w
    using that e(3) ls_inv_lock(1) [OF inv, of key]
    by (auto simp: release_log_def lock_ok_def lock_queues_def split: if_splits dest: in_set_takeD)
  have w: "waits_for s' k x v \<longleftrightarrow> waits_for s k x v \<and> x \<notin> fst ` set log" for k x v
    using step_released(1) by (simp add: waits_for_def wake_def)
  have mode: "k = key \<and> (x, v) \<in> set log" if "waits_for s k x v" "x \<in> fst ` set log" for k x v
    using that logged by (force simp: waits_for_def)
  have "waits_for s' key = (\<lambda>x v. waits_for s key x v \<and> (x, v) \<notin> set log)"
    using w mode by (intro ext) force
  moreover have "waits_for s' k = waits_for s k" if "k \<noteq> key" for k
    using that w mode by (intro ext) blast
  ultimately show ?thesis
    by (intro ls_inv_update [OF inv e(2), where e = e and h = "grant log (unbump (ls_held s key) t wr)"])
      (use e step_released(1) in auto)
qed

interpretation locks: inductive_invariant ls_init ls_step ls_inv
  by unfold_locales (auto simp: ls_init_inv intro: ls_step_inv)

lemma lock_core_held:
  assumes "lock_core st h"
  shows "ps_writer st \<or> 0 < ps_readers st \<longleftrightarrow> (\<exists>t m. 0 < h t m)"
proof
  assume "ps_writer st \<or> 0 < ps_readers st"
  then show "\<exists>t m. 0 < h t m"
  proof
    assume "ps_writer st"
    then show ?thesis using lock_coreD(4,5) [OF assms] by (metis not_None_eq zero_less_one)
  next
    assume "0 < ps_readers st"
    then show ?thesis using lock_coreD(3) [OF assms] by (metis gr0I sum.neutral less_numeral_extra(3))
  qed
next
  assume "\<exists>t m. 0 < h t m"
  then obtain t m where "0 < h t m" by blast
  then show "ps_writer st \<or> 0 < ps_readers st"
    using lock_coreD(4,5) [OF assms] lock_core_le [OF assms, of t]
    by (cases m) (auto split: if_splits)
qed

section \<open>A run of three threads\<close>

text \<open>Thread 1 writes under key 8 while thread 2 queues for writing and thread 3 for reading.\<close>

definition ex_st1 :: phase_state where
  "ex_st1 = ps_default\<lparr>ps_writer := True, ps_writer_owner := Some 1\<rparr>"

definition ex_st3 :: phase_state where
  "ex_st3 = ex_st1\<lparr>ps_waiting_writers := [2], ps_waiting_readers := [3]\<rparr>"

definition ex_ls1 :: lock_system where
  "ex_ls1 = \<lparr>ls_tabs = put_entry states_init 8 (Some ex_st1),
     ls_held = (\<lambda>_ _ _. 0)(8 := hold_more (\<lambda>_ _. 0) 1 True), ls_waiting = Map.empty\<rparr>"

definition ex_ls3 :: lock_system where
  "ex_ls3 = \<lparr>ls_tabs = put_entry states_init 8 (Some ex_st3),
     ls_held = (\<lambda>_ _ _. 0)(8 := hold_more (\<lambda>_ _. 0) 1 True), ls_waiting = [2 \<mapsto> (8, True), 3 \<mapsto> (8, False)]\<rparr>"

lemma states_init_len [simp]: "length states_init = 64"
  by (simp add: states_init_def)

lemma lock_state_init [simp]: "lock_state states_init key = ps_default"
  using bucket_lt [of key] by (simp add: lock_state_def entry_def states_init_def)

lemma put_put [simp]:
  "length tabs = 64 \<Longrightarrow> put_entry (put_entry tabs key e) key e' = put_entry tabs key e'"
  using bucket_lt [of key] by (simp add: put_entry_def)

lemma ex_acquire1: "acquire states_init 8 True True 1 = Some (put_entry states_init 8 (Some ex_st1), Acquired)"
  by (simp add: acquire_eq would_self_deadlock_def ex_st1_def) (simp add: ps_default_def)

lemma ex_reach1: "reach ls_init ls_step ex_ls1"
proof -
  let ?s = "\<lparr>ls_tabs = states_init, ls_held = (\<lambda>_ _ _. 0), ls_waiting = Map.empty\<rparr>"
  have "reach ls_init ls_step ?s" by (simp add: reach_init ls_init_def)
  moreover have "ls_step ?s ex_ls1"
    using ls_step.step_acquired [of ?s 1 8 True True "put_entry states_init 8 (Some ex_st1)"] ex_acquire1
    by (simp add: ex_ls1_def)
  ultimately show ?thesis by (rule reach_step)
qed

lemma ex_reach3: "reach ls_init ls_step ex_ls3"
proof -
  let ?st2 = "ex_st1\<lparr>ps_waiting_writers := [2]\<rparr>"
  let ?s2 = "ex_ls1\<lparr>ls_tabs := put_entry states_init 8 (Some ?st2), ls_waiting := [2 \<mapsto> (8, True)]\<rparr>"
  have "acquire (ls_tabs ex_ls1) 8 True True 2 = Some (put_entry states_init 8 (Some ?st2), Queued)"
    by (simp add: acquire_eq would_self_deadlock_def ex_ls1_def ex_st1_def ps_default_def)
  then have s2: "ls_step ex_ls1 ?s2"
    using ls_step.step_queued [of ex_ls1 2 8 True True] by (simp add: ex_ls1_def)
  have "acquire (ls_tabs ?s2) 8 False True 3 = Some (put_entry states_init 8 (Some ex_st3), Queued)"
    by (simp add: acquire_eq would_self_deadlock_def ex_st3_def ex_st1_def ps_default_def)
  then have "ls_step ?s2 ex_ls3"
    using ls_step.step_queued [of ?s2 3 8 False True] by (simp add: ex_ls3_def ex_ls1_def)
  then show ?thesis by (rule reach_step [OF reach_step [OF ex_reach1 s2]])
qed

section \<open>Properties\<close>

text \<open>
  C3: mutual exclusion. However the threads interleave their acquisitions, attempts and releases, a
  thread holding a lock for writing holds it once, no other thread holds it for writing, and no
  thread at all holds it for reading.
\<close>

theorem rwlock_mutual_exclusion:
  assumes "reach ls_init ls_step s" "0 < ls_held s key t True"
  shows "ls_held s key t True = 1 \<and> (\<forall>u. u \<noteq> t \<longrightarrow> ls_held s key u True = 0) \<and>
    (\<forall>u. ls_held s key u False = 0)"
proof -
  have "ls_inv s" by (rule locks.reach_inv [OF assms(1)])
  then have core: "lock_core (lock_state (ls_tabs s) key) (ls_held s key)"
    using ls_inv_lock(1) by (auto simp: lock_ok_def)
  note c = lock_coreD [OF core]
  have owner: "ps_writer_owner (lock_state (ls_tabs s) key) = Some t"
    using c(4) [of t] assms(2) by (simp split: if_splits)
  then have "ps_readers (lock_state (ls_tabs s) key) = 0" using c(5,6) by simp
  then show ?thesis using owner c(4) lock_core_idle(2) [OF core] by simp
qed

theorem rwlock_mutual_exclusion_witness:
  "ls_held ex_ls3 8 1 True = 1 \<and> ls_held ex_ls3 8 2 True = 0 \<and> ls_held ex_ls3 8 3 False = 0"
  using rwlock_mutual_exclusion [OF ex_reach3, of 8 1] by (simp add: ex_ls3_def hold_more_def)

text \<open>
  C24: a release answers \<open>true\<close> exactly when the calling thread holds the lock in that mode, so matched
  releases never abort the process and every unmatched one is detected; it answers in every
  reachable state unless the admission of the queued readers overflows the reader count.
\<close>

theorem rwlock_release_detects_mismatch:
  assumes "reach ls_init ls_step s"
  shows "(\<forall>tabs b log. release (ls_tabs s) key wr t = Some (tabs, b, log) \<longrightarrow>
      b = (0 < ls_held s key t wr)) \<and>
    (release (ls_tabs s) key wr t = None \<longrightarrow>
      wr \<and> usize_max < length (ps_waiting_readers (lock_state (ls_tabs s) key)))"
proof -
  have inv: "ls_inv s" by (rule locks.reach_inv [OF assms])
  note ok = ls_inv_lock(1) [OF inv, of key]
  show ?thesis
  proof (cases "entry (ls_tabs s) key")
    case None
    then have "lock_core ps_default (ls_held s key)"
      using ok by (simp add: lock_state_def lock_ok_def)
    note c = lock_core_idle(2) [OF this] lock_coreD(4) [OF this]
    have "ls_held s key t wr = 0" using c by (cases wr) (auto simp: ps_default_def)
    then show ?thesis using None by (simp add: release_eq)
  next
    case (Some st)
    then have st: "lock_state (ls_tabs s) key = st" by (simp add: lock_state_def)
    have key: "key \<noteq> 0" using Some inv unfolding ls_inv_def by (metis option.distinct(1))
    show ?thesis
    proof (intro conjI allI impI)
      fix tabs b log
      assume run: "release (ls_tabs s) key wr t = Some (tabs, b, log)"
      show "b = (0 < ls_held s key t wr)"
      proof (cases b)
        case True
        with run have "release (ls_tabs s) key wr t = Some (tabs, True, log)" by simp
        then show ?thesis by (rule released_state [OF ok]) (simp add: True)
      next
        case False
        then have "release_state st wr t = Some None"
          using run Some key by (auto simp: release_eq split: if_splits option.splits)
        then show ?thesis using release_state_false [OF ok [unfolded st]] False by simp
      qed
    next
      assume "release (ls_tabs s) key wr t = None"
      then have "release_state st wr t = None"
        using Some key release_idle_clean [OF ok [unfolded st]]
        by (fastforce simp: release_eq split: if_splits option.splits)
      then show "wr" "usize_max < length (ps_waiting_readers (lock_state (ls_tabs s) key))"
        using release_never_stuck [OF ok [unfolded st]] st by auto
    qed
  qed
qed

theorem rwlock_release_detects_mismatch_witness:
  "release (ls_tabs ex_ls3) 8 True 3 = Some (ls_tabs ex_ls3, False, [])"
proof -
  have "release (ls_tabs ex_ls3) 8 True 3 \<noteq> None"
    using rwlock_release_detects_mismatch [OF ex_reach3, of 8 True 3]
    by (simp add: ex_ls3_def ex_st3_def usize_max_def)
  then show ?thesis
    by (simp add: release_eq release_state_def ex_ls3_def ex_st3_def ex_st1_def)
qed

text \<open>
  C14: phase fairness. A writer's release admits every reader queued at that moment, in queue order, and
  then no writer; only when no reader is queued does it admit the writer at the front of the queue.
  A reader's release admits the writer at the front exactly when it was the last reader. The woken
  threads hold the lock afterwards.
\<close>

theorem rwlock_phase_fair:
  assumes "reach ls_init ls_step s" "release (ls_tabs s) key wr t = Some (tabs, True, log)"
  defines "R \<equiv> ps_waiting_readers (lock_state (ls_tabs s) key)"
    and "W \<equiv> ps_waiting_writers (lock_state (ls_tabs s) key)"
  shows "set R = {u. ls_waiting s u = Some (key, False)} \<and>
    set W = {u. ls_waiting s u = Some (key, True)} \<and>
    log = (if wr \<and> R \<noteq> [] then map (\<lambda>u. (u, False)) R
           else if wr \<or> ps_readers (lock_state (ls_tabs s) key) = 1
           then map (\<lambda>u. (u, True)) (take 1 W) else []) \<and>
    (\<forall>(u, w) \<in> set log. 0 < grant log (unbump (ls_held s key) t wr) u w)"
proof (intro conjI)
  have "ls_inv s" by (rule locks.reach_inv [OF assms(1)])
  note ok = ls_inv_lock(1) [OF this, of key]
  show "set R = {u. ls_waiting s u = Some (key, False)}" "set W = {u. ls_waiting s u = Some (key, True)}"
    using ok unfolding lock_ok_def lock_queues_def waits_for_def R_def W_def by auto
  from assms(2) show "log = (if wr \<and> R \<noteq> [] then map (\<lambda>u. (u, False)) R
      else if wr \<or> ps_readers (lock_state (ls_tabs s) key) = 1
      then map (\<lambda>u. (u, True)) (take 1 W) else [])"
    by (rule released_state [OF ok]) (simp add: release_log_def R_def W_def)
  show "\<forall>(u, w) \<in> set log. 0 < grant log (unbump (ls_held s key) t wr) u w"
    by (auto simp: grant_count count_list_0_iff)
qed

theorem rwlock_phase_fair_witness:
  "\<exists>tabs. release (ls_tabs ex_ls3) 8 True 1 = Some (tabs, True, [(3, False)])"
proof -
  obtain tabs log where run: "release (ls_tabs ex_ls3) 8 True 1 = Some (tabs, True, log)"
    by (simp add: release_eq release_state_def ex_ls3_def ex_st3_def ex_st1_def drain_readers.simps
        add_reader_def usize_max_def ps_default_def)
  with rwlock_phase_fair [OF ex_reach3 run] show ?thesis
    by (simp add: ex_ls3_def ex_st3_def)
qed

text \<open>
  C23: no overtaking. While a thread is queued for writing, no call acquires the lock directly: every
  newcomer, reader or writer, is turned away, queued, or stopped as a self-deadlock.
\<close>

theorem rwlock_no_overtaking:
  assumes "reach ls_init ls_step s" "ls_waiting s u = Some (key, True)"
  shows "acquire (ls_tabs s) key wr bl t \<noteq> Some (tabs, Acquired)"
proof -
  have "ls_inv s" by (rule locks.reach_inv [OF assms(1)])
  then have "u \<in> set (ps_waiting_writers (lock_state (ls_tabs s) key))"
    using ls_inv_lock(1) [of s key] assms(2) by (simp add: lock_ok_def lock_queues_def waits_for_def)
  then show ?thesis by (auto simp: acquire_eq Let_def)
qed

theorem rwlock_no_overtaking_witness:
  "acquire (ls_tabs ex_ls3) 8 False False 4 \<noteq> Some (ls_tabs ex_ls3, Acquired)"
  using rwlock_no_overtaking [OF ex_reach3, of 2 8] by (simp add: ex_ls3_def)

text \<open>
  C25: no thread waits at a free lock and no table entry leaks. In every reachable state a thread queued
  on a key finds the lock held by some thread, a queued reader finds a writer holding or queued, and
  the table has an entry for a key exactly while some thread holds its lock.
\<close>

theorem rwlock_waiters_have_holder:
  assumes "reach ls_init ls_step s"
  shows "(\<forall>u key w. ls_waiting s u = Some (key, w) \<longrightarrow> (\<exists>t m. 0 < ls_held s key t m)) \<and>
    (\<forall>u key. ls_waiting s u = Some (key, False) \<longrightarrow>
      (\<exists>t. 0 < ls_held s key t True \<or> ls_waiting s t = Some (key, True))) \<and>
    (\<forall>key. entry (ls_tabs s) key \<noteq> None \<longleftrightarrow> (\<exists>t m. 0 < ls_held s key t m))"
proof -
  have inv: "ls_inv s" by (rule locks.reach_inv [OF assms])
  have held: "(ps_writer st \<or> 0 < ps_readers st) \<longleftrightarrow> (\<exists>t m. 0 < h t m)" if "lock_core st h" for st h
    by (rule lock_core_held [OF that])
  have writer: "ps_writer st \<longleftrightarrow> (\<exists>t. 0 < h t True)" if "lock_core st h" for st h
    using lock_coreD(4,5) [OF that] by auto
  {
    fix key
    note ok = ls_inv_lock(1) [OF inv, of key] and e = ls_inv_lock(3) [OF inv, of key]
    then have core: "lock_core (lock_state (ls_tabs s) key) (ls_held s key)"
      and q: "lock_queues (lock_state (ls_tabs s) key) (waits_for s key)"
      and w: "lock_waits (lock_state (ls_tabs s) key)" by (auto simp: lock_ok_def)
    have "\<exists>t m. 0 < ls_held s key t m" if "ls_waiting s u = Some (key, v)" for u v
      using that q w held [OF core]
      by (cases v) (auto simp: lock_queues_def lock_waits_def waits_for_def)
    moreover have "\<exists>t. 0 < ls_held s key t True \<or> ls_waiting s t = Some (key, True)"
      if "ls_waiting s u = Some (key, False)" for u
      using that q w writer [OF core]
      by (auto simp: lock_queues_def lock_waits_def waits_for_def ex_in_conv)
    moreover have "entry (ls_tabs s) key \<noteq> None \<longleftrightarrow> (\<exists>t m. 0 < ls_held s key t m)"
      using held [OF core] e
      by (cases "entry (ls_tabs s) key") (auto simp: lock_state_def ps_default_def)
    note calculation this
  }
  then show ?thesis by blast
qed

theorem rwlock_waiters_have_holder_witness:
  "ls_waiting ex_ls3 3 = Some (8, False) \<and> (\<exists>t m. 0 < ls_held ex_ls3 8 t m)"
proof
  show "ls_waiting ex_ls3 3 = Some (8, False)" by (simp add: ex_ls3_def)
  then show "\<exists>t m. 0 < ls_held ex_ls3 8 t m"
    using rwlock_waiters_have_holder [OF ex_reach3] by blast
qed

end
