(* ===== verification/LockProgress.thy ===== *)
theory LockProgress
  imports PhaseLock
begin

text \<open>
  Progress of the phase-fair lock: a rank of a waiting thread that no step raises and every release of
  its lock lowers, hence no waiting thread starves while the holders of its lock release it.
\<close>

section \<open>What a release leaves\<close>

lemma release_write_shape:
  assumes ok: "lock_ok st h q" and run: "release_state st True t = Some (Some (st', log))"
  shows "ps_writer st"
    "ps_waiting_readers st \<noteq> [] \<Longrightarrow> \<not> ps_writer st' \<and> ps_waiting_writers st' = ps_waiting_writers st"
    "ps_waiting_readers st = [] \<Longrightarrow> ps_waiting_writers st' = tl (ps_waiting_writers st)"
proof -
  let ?st = "st\<lparr>ps_writer := False, ps_writer_owner := None\<rparr>"
  obtain st1 rs st2 ws where g: "ps_writer st" "ps_writer_owner st = Some t" "ps_readers st = 0"
    and drain: "drain_readers ?st = Some (st1, rs)"
    and admit: "(if ps_readers st1 = 0 then admit_writer st1 else (st1, [])) = (st', ws)"
    using run by (auto simp: release_state_def Let_def split: if_splits option.splits prod.splits)
  show "ps_writer st" by (rule g(1))
  have "lock_core ?st (unbump h t True)"
    using lock_core_writer_release [OF _ g(2,1)] ok by (simp add: lock_ok_def)
  note d = drain_readers_core [OF this _ drain]
  then have "ps_readers st1 = length (ps_waiting_readers st)" "ps_waiting_writers st1 = ps_waiting_writers st" "\<not> ps_writer st1"
    using g(3) by auto
  then show "ps_waiting_readers st \<noteq> [] \<Longrightarrow> \<not> ps_writer st' \<and> ps_waiting_writers st' = ps_waiting_writers st"
    "ps_waiting_readers st = [] \<Longrightarrow> ps_waiting_writers st' = tl (ps_waiting_writers st)"
    using admit by (auto simp: admit_writer_def split: list.splits)
qed

lemma release_read_shape:
  assumes run: "release_state st False t = Some (Some (st', log))"
  shows "\<not> ps_writer st" "0 < ps_readers st"
    "ps_readers st = 1 \<Longrightarrow> ps_waiting_writers st' = tl (ps_waiting_writers st) \<and> (ps_writer st' \<longleftrightarrow> ps_waiting_writers st \<noteq> [])"
    "ps_readers st \<noteq> 1 \<Longrightarrow> ps_waiting_writers st' = ps_waiting_writers st \<and> \<not> ps_writer st' \<and> ps_readers st' = ps_readers st - 1"
proof -
  obtain st1 ws where g: "\<not> ps_writer st" and rem: "remove_reader st t = (st1, True)"
    and admit: "(if ps_readers st1 = 0 then admit_writer st1 else (st1, [])) = (st', ws)"
    using run by (auto simp: release_state_def Let_def split: if_splits option.splits prod.splits)
  have r: "0 < ps_readers st" "ps_readers st1 = ps_readers st - 1" "ps_waiting_writers st1 = ps_waiting_writers st" "\<not> ps_writer st1"
    using rem g by (auto simp: remove_reader_def split: option.splits if_splits)
  show "\<not> ps_writer st" "0 < ps_readers st" by (rule g, rule r(1))
  show "ps_readers st = 1 \<Longrightarrow> ps_waiting_writers st' = tl (ps_waiting_writers st) \<and> (ps_writer st' \<longleftrightarrow> ps_waiting_writers st \<noteq> [])"
    "ps_readers st \<noteq> 1 \<Longrightarrow> ps_waiting_writers st' = ps_waiting_writers st \<and> \<not> ps_writer st' \<and> ps_readers st' = ps_readers st - 1"
    using admit r by (auto simp: admit_writer_def split: list.splits if_splits)
qed

section \<open>The rank of a waiting thread\<close>

text \<open>
  For a writer: the writers before it in the queue, then the phases left before the next writer, then the
  readers left in the phase. For a reader: nothing while a writer holds the lock, whose release admits
  it, and otherwise the readers left before the next writer.
\<close>

definition wait_rank :: "phase_state \<Rightarrow> usize \<Rightarrow> bool \<Rightarrow> nat \<times> nat \<times> nat" where
  "wait_rank st u wr =
     (if wr then (length (takeWhile (\<lambda>x. x \<noteq> u) (ps_waiting_writers st)), if ps_writer st then 1 else 0, ps_readers st)
      else (0, 0, if ps_writer st then 0 else ps_readers st))"

abbreviation rank_less :: "((nat \<times> nat \<times> nat) \<times> (nat \<times> nat \<times> nat)) set" where
  "rank_less \<equiv> less_than <*lex*> less_than <*lex*> less_than"

lemma rank_trans:
  assumes "(a, b) \<in> rank_less" "b = c \<or> (b, c) \<in> rank_less"
  shows "(a, c) \<in> rank_less"
proof -
  have "trans rank_less" by (intro trans_lex_prod trans_less_than)
  then show ?thesis using assms by (metis transD)
qed

lemma takeWhile_tl:
  assumes "u \<in> set xs" "u \<noteq> hd xs"
  shows "length (takeWhile (\<lambda>x. x \<noteq> u) (tl xs)) < length (takeWhile (\<lambda>x. x \<noteq> u) xs)"
  using assms by (cases xs) auto

lemma release_lowers_rank:
  assumes ok: "lock_ok st h q" and run: "release_state st wr t = Some (Some (st', log))"
    and u: "q u m" "(u, m) \<notin> set log"
  shows "(wait_rank st' u m, wait_rank st u m) \<in> rank_less"
proof -
  have queue: "u \<in> set (if m then ps_waiting_writers st else ps_waiting_readers st)"
    and waits: "lock_waits st" using ok u(1) by (cases m; auto simp: lock_ok_def lock_queues_def)+
  have log: "log = release_log st wr" by (rule release_state_ok(2) [OF ok run])
  have front: "u \<noteq> hd (ps_waiting_writers st)" if "m" "wr \<longrightarrow> ps_waiting_readers st = []" "\<not> wr \<longrightarrow> ps_readers st = 1"
    using u(2) queue that unfolding log by (cases "ps_waiting_writers st"; cases wr) (auto simp: release_log_def)
  have reader: "\<not> wr" if "\<not> m" using u(2) queue that unfolding log by (auto simp: release_log_def split: if_splits)
  show ?thesis
  proof (cases wr)
    case True
    then have "release_state st True t = Some (Some (st', log))" using run by simp
    note s = release_write_shape [OF ok this]
    show ?thesis
      using reader True s front queue takeWhile_tl [of u "ps_waiting_writers st"]
      by (cases "ps_waiting_readers st = []") (auto simp: wait_rank_def split: if_splits)
  next
    case False
    then have "release_state st False t = Some (Some (st', log))" using run by simp
    note s = release_read_shape [OF this]
    show ?thesis
      using False s front queue waits takeWhile_tl [of u "ps_waiting_writers st"]
      by (cases "ps_readers st = 1") (auto simp: wait_rank_def lock_waits_def split: if_splits)
  qed
qed

section \<open>Steps\<close>

text \<open>A step that releases the lock of a key.\<close>

definition unlocks :: "usize \<Rightarrow> lock_system \<Rightarrow> lock_system \<Rightarrow> bool" where
  "unlocks key s s' \<longleftrightarrow> (\<exists>t wr tabs log. ls_waiting s t = None \<and> release (ls_tabs s) key wr t = Some (tabs, True, log) \<and>
     s' = s\<lparr>ls_tabs := tabs, ls_held := (ls_held s)(key := grant log (unbump (ls_held s key) t wr)),
       ls_waiting := wake log (ls_waiting s)\<rparr>)"

abbreviation rank_of :: "lock_system \<Rightarrow> usize \<Rightarrow> usize \<Rightarrow> bool \<Rightarrow> nat \<times> nat \<times> nat" where
  "rank_of s key u m \<equiv> wait_rank (lock_state (ls_tabs s) key) u m"

abbreviation granted :: "lock_system \<Rightarrow> usize \<Rightarrow> usize \<Rightarrow> bool \<Rightarrow> bool" where
  "granted s key u m \<equiv> ls_waiting s u = None \<and> 0 < ls_held s key u m"

lemma unlock_step: "unlocks key s s' \<Longrightarrow> ls_step s s'"
  unfolding unlocks_def using step_released by blast

lemma unlock_rank:
  assumes inv: "ls_inv s" and w: "ls_waiting s u = Some (key, m)" and step: "unlocks key s s'"
  shows "granted s' key u m \<or> ls_waiting s' u = Some (key, m) \<and> (rank_of s' key u m, rank_of s key u m) \<in> rank_less"
proof -
  obtain t wr tabs log where run: "release (ls_tabs s) key wr t = Some (tabs, True, log)"
    and s': "s' = s\<lparr>ls_tabs := tabs, ls_held := (ls_held s)(key := grant log (unbump (ls_held s key) t wr)),
       ls_waiting := wake log (ls_waiting s)\<rparr>"
    using step by (auto simp: unlocks_def)
  obtain st st' where e: "entry (ls_tabs s) key = Some st" and rel: "release_state st wr t = Some (Some (st', log))"
    and tabs: "tabs = put_entry (ls_tabs s) key (if \<not> ps_writer st' \<and> ps_readers st' = 0 then None else Some st')"
    using run by (auto simp: release_eq split: if_splits option.splits)
  have st: "lock_state (ls_tabs s) key = st" using e by (simp add: lock_state_def)
  note ok = ls_inv_lock(1) [OF inv, of key, unfolded st]
  have q: "waits_for s key u m" using w by (simp add: waits_for_def)
  show ?thesis
  proof (cases "(u, m) \<in> set log")
    case True
    then have "u \<in> fst ` set log" "0 < count_list log (u, m)" using count_list_0_iff [of log "(u, m)"] by force+
    then show ?thesis by (simp add: s' wake_def grant_count)
  next
    case False
    have ok': "lock_ok st' (grant log (unbump (ls_held s key) t wr)) (\<lambda>x w. waits_for s key x w \<and> (x, w) \<notin> set log)"
      by (rule release_state_ok(3) [OF ok rel])
    then have "u \<in> set (ps_waiting_readers st') \<or> u \<in> set (ps_waiting_writers st')"
      using q False by (cases m) (auto simp: lock_ok_def lock_queues_def)
    then have "\<not> (\<not> ps_writer st' \<and> ps_readers st' = 0)" using ok' by (auto simp: lock_ok_def lock_waits_def)
    then have "lock_state tabs key = st'" using ls_inv_lock(2) [OF inv] by (auto simp: tabs)
    moreover have "(u, v) \<in> set log \<longrightarrow> v = m" for v
    proof
      assume "(u, v) \<in> set log"
      then have "waits_for s key u v" using release_state_ok(2) [OF ok rel] ok
        by (auto simp: release_log_def lock_ok_def lock_queues_def split: if_splits dest: in_set_takeD)
      then show "v = m" using w by (simp add: waits_for_def)
    qed
    then have "u \<notin> fst ` set log" using False by force
    ultimately show ?thesis
      using w release_lowers_rank [OF ok rel q False] st by (simp add: s' wake_def)
  qed
qed

text \<open>No other step touches the rank of a waiting thread.\<close>

lemma acquire_rank:
  assumes ok: "lock_ok (lock_state tabs key) h q" and len: "length tabs = 64" and u: "q u m"
    and run: "acquire tabs key wr bl t = Some (tabs', res)"
  shows "wait_rank (lock_state tabs' key) u m = wait_rank (lock_state tabs key) u m"
proof -
  let ?st = "lock_state tabs key"
  have queue: "u \<in> set (if m then ps_waiting_writers ?st else ps_waiting_readers ?st)" and waits: "lock_waits ?st"
    using ok u by (cases m; auto simp: lock_ok_def lock_queues_def)+
  then have "\<not> (\<not> ps_writer ?st \<and> ps_waiting_writers ?st = [])" by (auto simp: lock_waits_def split: if_splits)
  then have "lock_state tabs' key \<in> {?st, ?st\<lparr>ps_waiting_writers := ps_waiting_writers ?st @ [t]\<rparr>,
      ?st\<lparr>ps_waiting_readers := ps_waiting_readers ?st @ [t]\<rparr>}"
    using run len by (auto simp: acquire_eq Let_def split: if_splits)
  then show ?thesis using queue by (auto simp: wait_rank_def split: if_splits)
qed

lemma step_rank:
  assumes inv: "ls_inv s" and w: "ls_waiting s u = Some (key, m)" and step: "ls_step s s'"
  shows "granted s' key u m \<or> ls_waiting s' u = Some (key, m) \<and>
    (rank_of s' key u m = rank_of s key u m \<or> (rank_of s' key u m, rank_of s key u m) \<in> rank_less)"
proof -
  have q: "waits_for s key u m" using w by (simp add: waits_for_def)
  have acq: "rank_of s' key u m = rank_of s key u m"
    if run: "acquire (ls_tabs s) k wr bl t = Some (tabs, res)" and tabs: "ls_tabs s' = tabs" for k wr bl t tabs res
  proof (cases "k = key")
    case True
    then show ?thesis using acquire_rank [OF ls_inv_lock(1,2) [OF inv] q] run tabs by auto
  next
    case False
    obtain e where "tabs = put_entry (ls_tabs s) k e" using run by (auto simp: acquire_eq Let_def split: if_splits)
    then show ?thesis using False tabs ls_inv_lock(2) [OF inv] by simp
  qed
  show ?thesis using step
  proof cases
    case (step_released t k wr tabs log)
    show ?thesis
    proof (cases "k = key")
      case True
      then have "unlocks key s s'" unfolding unlocks_def using step_released by blast
      then show ?thesis using unlock_rank [OF inv w] by blast
    next
      case False
      obtain e where "tabs = put_entry (ls_tabs s) k e" "log = release_log (lock_state (ls_tabs s) k) wr"
        by (rule released_state [OF ls_inv_lock(1) [OF inv] step_released(3)]) (rule that)
      moreover have "u \<notin> fst ` set log"
      proof
        assume "u \<in> fst ` set log"
        then obtain v where "(u, v) \<in> set log" by force
        then have "waits_for s k u v" using calculation(2) ls_inv_lock(1) [OF inv, of k]
          by (auto simp: release_log_def lock_ok_def lock_queues_def split: if_splits dest: in_set_takeD)
        then show False using w False by (simp add: waits_for_def)
      qed
      ultimately show ?thesis using False w ls_inv_lock(2) [OF inv] by (simp add: step_released(1) wake_def)
    qed
  qed (use acq w in \<open>auto split: if_splits\<close>)
qed

section \<open>Runs\<close>

text \<open>An infinite sequence of steps from a reachable state.\<close>

definition lock_run :: "(nat \<Rightarrow> lock_system) \<Rightarrow> bool" where
  "lock_run r \<longleftrightarrow> reach ls_init ls_step (r 0) \<and> (\<forall>n. ls_step (r n) (r (Suc n)))"

lemma lock_run_inv: "lock_run r \<Longrightarrow> ls_inv (r n)"
proof (induction n)
  case 0
  then show ?case using locks.reach_inv by (simp add: lock_run_def)
qed (auto simp: lock_run_def intro: ls_step_inv)

text \<open>Until a release of the lock a waiting thread keeps waiting, at a rank that does not rise.\<close>

lemma wait_until:
  assumes run: "lock_run r" and w: "ls_waiting (r n) u = Some (key, m)"
  shows "(\<exists>k > n. k \<le> n + d \<and> granted (r k) key u m) \<or>
    ls_waiting (r (n + d)) u = Some (key, m) \<and>
    (rank_of (r (n + d)) key u m = rank_of (r n) key u m \<or> (rank_of (r (n + d)) key u m, rank_of (r n) key u m) \<in> rank_less)"
proof (induction d)
  case (Suc d)
  show ?case
  proof (cases "\<exists>k > n. k \<le> n + d \<and> granted (r k) key u m")
    case True
    then show ?thesis by (auto intro: le_SucI)
  next
    case False
    let ?s = "r (n + d)" and ?s' = "r (n + Suc d)"
    have w': "ls_waiting ?s u = Some (key, m)"
      and rank: "rank_of ?s key u m = rank_of (r n) key u m \<or> (rank_of ?s key u m, rank_of (r n) key u m) \<in> rank_less"
      using Suc.IH False by blast+
    have "ls_step ?s ?s'" using run by (simp add: lock_run_def)
    note step = step_rank [OF lock_run_inv [OF run] w' this]
    show ?thesis
    proof (cases "granted ?s' key u m")
      case True
      then show ?thesis by (intro disjI1 exI [of _ "n + Suc d"]) simp
    next
      case False
      then show ?thesis using step rank rank_trans by metis
    qed
  qed
qed (simp add: w)

lemma no_starvation:
  assumes run: "lock_run r"
    and fair: "\<forall>k \<ge> n. ls_waiting (r k) u = Some (key, m) \<longrightarrow> (\<exists>j \<ge> k. unlocks key (r j) (r (Suc j)))"
    and w: "ls_waiting (r n) u = Some (key, m)"
  shows "\<exists>k > n. granted (r k) key u m"
proof -
  have wf: "wf rank_less" by (intro wf_lex_prod wf_less_than)
  have "\<exists>k > i. granted (r k) key u m" if "n \<le> i" "ls_waiting (r i) u = Some (key, m)" for i
    using that
  proof (induction "rank_of (r i) key u m" arbitrary: i rule: wf_induct_rule [OF wf])
    case (1 i)
    obtain j where j: "i \<le> j" "unlocks key (r j) (r (Suc j))" using fair 1(2,3) by blast
    show ?case
    proof (cases "\<exists>k > i. k \<le> j \<and> granted (r k) key u m")
      case False
      then have wj: "ls_waiting (r j) u = Some (key, m)"
        and rank: "rank_of (r j) key u m = rank_of (r i) key u m \<or> (rank_of (r j) key u m, rank_of (r i) key u m) \<in> rank_less"
        using wait_until [OF run 1(3), of "j - i"] j(1) by auto
      show ?thesis
      proof (cases "granted (r (Suc j)) key u m")
        case True
        then show ?thesis using j(1) by (meson le_imp_less_Suc)
      next
        case False
        then have w': "ls_waiting (r (Suc j)) u = Some (key, m)" and lower: "(rank_of (r (Suc j)) key u m, rank_of (r j) key u m) \<in> rank_less"
          using unlock_rank [OF lock_run_inv [OF run] wj j(2)] by blast+
        have "n \<le> Suc j" using j(1) 1(2) by simp
        then have "\<exists>k > Suc j. granted (r k) key u m" by (rule 1(1) [OF rank_trans [OF lower rank] _ w'])
        then show ?thesis using j(1) by (meson Suc_lessD le_less_trans)
      qed
    qed blast
  qed
  then show ?thesis using w by blast
qed

text \<open>
  C8: no starvation. In a run in which, while a thread waits for a lock in either mode, some holder of the
  lock eventually releases it, the thread gets the lock: at some later moment it no longer waits and
  holds the lock in the mode it asked for. Newcomers cannot delay it for ever.
\<close>

theorem rwlock_starvation_free:
  assumes "lock_run r"
    and "\<forall>k \<ge> n. ls_waiting (r k) u = Some (key, m) \<longrightarrow> (\<exists>j \<ge> k. unlocks key (r j) (r (Suc j)))"
    and "ls_waiting (r n) u = Some (key, m)"
  shows "\<exists>k > n. ls_waiting (r k) u = None \<and> 0 < ls_held (r k) key u m"
  using no_starvation [OF assms] .

text \<open>
  The run of three threads goes on: the writer releases to the queued reader, the reader to the queued
  writer, and a fourth thread keeps trying.
\<close>

definition live_st1 :: phase_state where
  "live_st1 = ps_default\<lparr>ps_readers := 1, ps_reader_owners := [3 \<mapsto> 1], ps_waiting_writers := [2]\<rparr>"

definition live_st2 :: phase_state where
  "live_st2 = ps_default\<lparr>ps_writer := True, ps_writer_owner := Some 2\<rparr>"

definition live_ls1 :: lock_system where
  "live_ls1 = ex_ls3\<lparr>ls_tabs := put_entry states_init 8 (Some live_st1),
     ls_held := (ls_held ex_ls3)(8 := grant [(3, False)] (unbump (ls_held ex_ls3 8) 1 True)),
     ls_waiting := wake [(3, False)] (ls_waiting ex_ls3)\<rparr>"

definition live_ls2 :: lock_system where
  "live_ls2 = live_ls1\<lparr>ls_tabs := put_entry states_init 8 (Some live_st2),
     ls_held := (ls_held live_ls1)(8 := grant [(2, True)] (unbump (ls_held live_ls1 8) 3 False)),
     ls_waiting := wake [(2, True)] (ls_waiting live_ls1)\<rparr>"

definition live_run :: "nat \<Rightarrow> lock_system" where
  "live_run n = (if n = 0 then ex_ls3 else if n = 1 then live_ls1 else live_ls2)"

lemmas live_defs = ex_ls3_def ex_st3_def ex_st1_def live_ls1_def live_ls2_def live_st1_def live_st2_def

lemma live_unlocks: "unlocks 8 ex_ls3 live_ls1" "unlocks 8 live_ls1 live_ls2"
proof -
  have r1: "release (ls_tabs ex_ls3) 8 True 1 = Some (put_entry states_init 8 (Some live_st1), True, [(3, False)])"
    by (simp add: live_defs release_eq release_state_def drain_readers.simps add_reader_def usize_max_def ps_default_def)
  have "ls_waiting ex_ls3 1 = None" by (simp add: ex_ls3_def)
  then show "unlocks 8 ex_ls3 live_ls1" using r1 live_ls1_def unfolding unlocks_def by blast
  have r2: "release (ls_tabs live_ls1) 8 False 3 = Some (put_entry states_init 8 (Some live_st2), True, [(2, True)])"
    by (simp add: live_defs release_eq release_state_def remove_reader_def admit_writer_def ps_default_def)
  have "ls_waiting live_ls1 3 = None" by (simp add: live_ls1_def wake_def)
  then show "unlocks 8 live_ls1 live_ls2" using r2 live_ls2_def unfolding unlocks_def by blast
qed

lemma live_run_runs: "lock_run live_run"
proof -
  have "acquire (ls_tabs live_ls2) 8 True False 4 = Some (ls_tabs live_ls2, Busy)" "ls_waiting live_ls2 4 = None"
    by (simp_all add: live_defs acquire_eq wake_def Let_def)
  from step_busy [OF this(2,1)] have "ls_step live_ls2 live_ls2" by simp
  then show ?thesis using ex_reach3 live_unlocks unlock_step by (auto simp: lock_run_def live_run_def)
qed

theorem rwlock_starvation_free_witness:
  "\<exists>k > 0. ls_waiting (live_run k) 2 = None \<and> 0 < ls_held (live_run k) 8 2 True"
proof (rule rwlock_starvation_free [OF live_run_runs])
  show "ls_waiting (live_run 0) 2 = Some (8, True)" by (simp add: live_run_def ex_ls3_def)
  have "ls_waiting live_ls2 2 = None" by (simp add: live_ls2_def wake_def)
  then show "\<forall>k \<ge> 0. ls_waiting (live_run k) 2 = Some (8, True) \<longrightarrow> (\<exists>j \<ge> k. unlocks 8 (live_run j) (live_run (Suc j)))"
    using live_unlocks by (auto simp: live_run_def intro: exI [of _ "0::nat"] exI [of _ "1::nat"])
qed

end
