(* ===== verification/SetInterface.thy ===== *)
theory SetInterface
  imports BitSet
begin

text \<open>
  The contract the compiler analyses rely on when they use a dense set as a worklist filter: an
  insertion answers whether the element was new, a removal whether it was present. The clients'
  lemmas (bulk insertion, counting of new elements, the progress measure of a worklist) are proved
  once from the contract, which \<open>BitSet\<close> provides.
\<close>

text \<open>A run of insertions, counting the ones that answered \<open>true\<close>.\<close>

primrec run_inserts :: "('s \<Rightarrow> nat \<Rightarrow> 's \<times> bool) \<Rightarrow> 's \<Rightarrow> nat list \<Rightarrow> 's \<times> nat" where
  "run_inserts ins s [] = (s, 0)"
| "run_inserts ins s (x # xs) =
     (let (s', fresh) = ins s x; (t, n) = run_inserts ins s' xs
      in (t, if fresh then Suc n else n))"

locale dense_set =
  fixes elems :: "'s \<Rightarrow> nat set"
    and ins :: "'s \<Rightarrow> nat \<Rightarrow> 's \<times> bool"
    and del :: "'s \<Rightarrow> nat \<Rightarrow> 's \<times> bool"
    and mem :: "'s \<Rightarrow> nat \<Rightarrow> bool"
  assumes elems_finite: "finite (elems s)"
    and mem_iff: "mem s x \<longleftrightarrow> x \<in> elems s"
    and ins_elems: "elems (fst (ins s x)) = insert x (elems s)"
    and ins_fresh: "snd (ins s x) \<longleftrightarrow> x \<notin> elems s"
    and del_elems: "elems (fst (del s x)) = elems s - {x}"
    and del_present: "snd (del s x) \<longleftrightarrow> x \<in> elems s"
begin

lemma run_elems: "elems (fst (run_inserts ins s xs)) = elems s \<union> set xs"
proof (induction xs arbitrary: s)
  case (Cons x xs)
  show ?case
    using Cons [of "fst (ins s x)"] ins_elems [of s x] by (auto simp: split_beta Let_def)
qed simp

lemma run_count: "snd (run_inserts ins s xs) = card (set xs - elems s)"
proof (induction xs arbitrary: s)
  case (Cons x xs)
  obtain s' fresh where s': "ins s x = (s', fresh)" by fastforce
  obtain t n where t: "run_inserts ins s' xs = (t, n)" by fastforce
  have el: "elems s' = insert x (elems s)" using ins_elems [of s x] s' by simp
  have fr: "fresh \<longleftrightarrow> x \<notin> elems s" using ins_fresh [of s x] s' by simp
  have n: "n = card (set xs - insert x (elems s))" using Cons [of s'] t el by simp
  have "set (x # xs) - elems s =
      (if x \<in> elems s then set xs - insert x (elems s)
       else insert x (set xs - insert x (elems s)))"
    by auto
  then have "card (set (x # xs) - elems s) = (if x \<in> elems s then n else Suc n)"
    by (simp add: n)
  then show ?case using s' t fr by simp
qed simp

lemma fresh_progress:
  "snd (ins s x) \<Longrightarrow> x < n \<Longrightarrow>
   card ({..<n} - elems (fst (ins s x))) < card ({..<n} - elems s)"
  by (rule psubset_card_mono) (auto simp: ins_elems ins_fresh)

lemma ins_idem: "elems (fst (ins (fst (ins s x)) x)) = elems (fst (ins s x))"
  by (simp add: ins_elems)

lemma del_ins: "x \<notin> elems s \<Longrightarrow> elems (fst (del (fst (ins s x)) x)) = elems s"
  by (simp add: ins_elems del_elems)

end

interpretation bset: dense_set bs_elems bs_insert bs_remove bs_contains
  by unfold_locales (simp_all add: set_view)

end
