(* ===== verification/Cfg.thy ===== *)
theory Cfg
  imports SetInterface
begin

text \<open>
  The control-flow graph of the mid-level IR: \<open>crates/arandu_middle/src/amir/stmt.rs\<close> (terminators),
  \<open>block.rs\<close>, \<open>program.rs\<close> (functions), \<open>crates/arandu_middle/src/cfg.rs\<close> (edge lists and their
  incremental updates) and \<open>amir/reachability.rs\<close>. Operands are a parameter \<open>'op\<close>; a block id is its
  index. An index out of bounds is a panic, \<^const>\<open>None\<close>.
\<close>

section \<open>Data\<close>

type_synonym block_id = nat

datatype 'op amir_terminator =
    Return
  | Goto block_id "'op list"
  | Branch 'op block_id "'op list" block_id "'op list"
  | SwitchInt 'op "(int \<times> block_id \<times> 'op list) list" "block_id \<times> 'op list"
  | Suspend 'op block_id "'op list"
  | Unreachable

record dense_range =
  dr_start :: nat
  dr_len :: nat

record 'op amir_basic_block =
  bb_id :: block_id
  bb_params :: dense_range
  bb_statements :: dense_range
  bb_terminator :: "'op amir_terminator"

record control_flow_graph =
  cfg_successors :: "block_id list list"
  cfg_predecessors :: "block_id list list"

record 'op amir_func =
  af_blocks :: "'op amir_basic_block list"
  af_cfg :: control_flow_graph

fun terminator_targets :: "'op amir_terminator \<Rightarrow> block_id list" where
  "terminator_targets Return = []"
| "terminator_targets Unreachable = []"
| "terminator_targets (Goto target _) = [target]"
| "terminator_targets (Branch _ if_true _ if_false _) = [if_true, if_false]"
| "terminator_targets (SwitchInt _ targets otherwise) =
     map (\<lambda>(_, block, _). block) targets @ [fst otherwise]"
| "terminator_targets (Suspend _ resume _) = [resume]"

section \<open>Edge lists\<close>

text \<open>One iteration of the inner loop of \<open>compute_cfg_edges\<close>, for block \<open>bid\<close> of \<open>n\<close>.\<close>

definition add_edge :: "nat \<Rightarrow> block_id \<Rightarrow> block_id \<Rightarrow> control_flow_graph \<Rightarrow> control_flow_graph" where
  "add_edge n bid succ cfg =
     (if succ < n then
        cfg\<lparr>cfg_successors := (cfg_successors cfg)[bid := cfg_successors cfg ! bid @ [succ]],
            cfg_predecessors := (cfg_predecessors cfg)[succ := cfg_predecessors cfg ! succ @ [bid]]\<rparr>
      else cfg)"

fun add_blocks ::
  "nat \<Rightarrow> nat \<Rightarrow> 'op amir_basic_block list \<Rightarrow> control_flow_graph \<Rightarrow> control_flow_graph" where
  "add_blocks n i [] cfg = cfg"
| "add_blocks n i (b # bs) cfg =
     add_blocks n (Suc i) bs (fold (add_edge n i) (terminator_targets (bb_terminator b)) cfg)"

definition compute_cfg_edges :: "'op amir_basic_block list \<Rightarrow> control_flow_graph" where
  "compute_cfg_edges blocks =
     (let n = length blocks
      in add_blocks n 0 blocks
           \<lparr>cfg_successors = replicate n [], cfg_predecessors = replicate n []\<rparr>)"

definition vec_get :: "'a list \<Rightarrow> nat \<Rightarrow> 'a option" where
  "vec_get xs i = (if i < length xs then Some (xs ! i) else None)"

text \<open>\<open>Iterator::position\<close>.\<close>

fun position :: "'a \<Rightarrow> 'a list \<Rightarrow> nat option" where
  "position x [] = None"
| "position x (y # ys) = (if y = x then Some 0 else map_option Suc (position x ys))"

definition retarget_successor ::
  "control_flow_graph \<Rightarrow> block_id \<Rightarrow> block_id \<Rightarrow> block_id \<Rightarrow> (control_flow_graph \<times> bool) option" where
  "retarget_successor cfg from_b old new =
     (case vec_get (cfg_successors cfg) from_b of
        None \<Rightarrow> None
      | Some succs \<Rightarrow>
          (case position old succs of
             None \<Rightarrow> Some (cfg, False)
           | Some pos \<Rightarrow>
               let cfg1 = cfg\<lparr>cfg_successors := (cfg_successors cfg)[from_b := succs[pos := new]]\<rparr> in
               (case vec_get (cfg_predecessors cfg1) old of
                  None \<Rightarrow> None
                | Some ps \<Rightarrow>
                    let preds1 = (cfg_predecessors cfg1)[old := filter (\<lambda>p. p \<noteq> from_b) ps] in
                    (case vec_get preds1 new of
                       None \<Rightarrow> None
                     | Some qs \<Rightarrow>
                         Some (cfg1\<lparr>cfg_predecessors := preds1[new := qs @ [from_b]]\<rparr>, True)))))"

text \<open>The loops of \<open>clear_block\<close> and \<open>transfer_edges\<close> over a successor list.\<close>

fun drop_pred :: "block_id \<Rightarrow> block_id list \<Rightarrow> block_id list list \<Rightarrow> block_id list list option" where
  "drop_pred block [] preds = Some preds"
| "drop_pred block (s # ss) preds =
     (case vec_get preds s of
        None \<Rightarrow> None
      | Some ps \<Rightarrow> drop_pred block ss (preds[s := filter (\<lambda>p. p \<noteq> block) ps]))"

fun move_pred ::
  "block_id \<Rightarrow> block_id \<Rightarrow> block_id list \<Rightarrow> block_id list list \<Rightarrow> block_id list list option" where
  "move_pred into from_b [] preds = Some preds"
| "move_pred into from_b (s # ss) preds =
     (case vec_get preds s of
        None \<Rightarrow> None
      | Some ps \<Rightarrow> move_pred into from_b ss (preds[s := filter (\<lambda>p. p \<noteq> from_b) ps @ [into]]))"

definition clear_block :: "control_flow_graph \<Rightarrow> block_id \<Rightarrow> control_flow_graph option" where
  "clear_block cfg block =
     (case vec_get (cfg_successors cfg) block of
        None \<Rightarrow> None
      | Some succs \<Rightarrow>
          (case drop_pred block succs (cfg_predecessors cfg) of
             None \<Rightarrow> None
           | Some preds \<Rightarrow>
               if \<not> block < length preds then None
               else Some (cfg\<lparr>cfg_successors := (cfg_successors cfg)[block := []],
                              cfg_predecessors := preds[block := []]\<rparr>)))"

definition transfer_edges ::
  "control_flow_graph \<Rightarrow> block_id \<Rightarrow> block_id \<Rightarrow> control_flow_graph option" where
  "transfer_edges cfg into from_b =
     (case vec_get (cfg_successors cfg) from_b of
        None \<Rightarrow> None
      | Some from_succs \<Rightarrow>
          let succs1 = (cfg_successors cfg)[from_b := []] in
          (case move_pred into from_b from_succs (cfg_predecessors cfg) of
             None \<Rightarrow> None
           | Some preds \<Rightarrow>
               if \<not> into < length succs1 then None
               else Some \<lparr>cfg_successors = succs1[into := from_succs], cfg_predecessors = preds\<rparr>))"

section \<open>Reachability\<close>

text \<open>The worklist loop; the stack's top is the head of the list.\<close>

function reach_loop :: "'op amir_basic_block list \<Rightarrow> block_id list \<Rightarrow> bitset \<Rightarrow> bitset" where
  "reach_loop blocks [] reachable = reachable"
| "reach_loop blocks (b # stack) reachable =
     (if length blocks \<le> b then reach_loop blocks stack reachable
      else let (reachable', fresh) = bs_insert reachable b in
        if \<not> fresh then reach_loop blocks stack reachable'
        else reach_loop blocks (rev (terminator_targets (bb_terminator (blocks ! b))) @ stack)
               reachable')"
  by pat_completeness auto

definition reach_measure ::
  "'op amir_basic_block list \<times> block_id list \<times> bitset \<Rightarrow> nat \<times> nat" where
  "reach_measure = (\<lambda>(blocks, stack, reachable).
     (card ({..<length blocks} - bs_elems reachable), length stack))"

lemma stale_insert: "\<not> snd (bs_insert r b) \<Longrightarrow> bs_elems (fst (bs_insert r b)) = bs_elems r"
  by (metis bset.ins_elems bset.ins_fresh insert_absorb)

termination reach_loop
proof (relation "inv_image (less_than <*lex*> less_than) reach_measure", goal_cases)
  case 1
  show ?case by (intro wf_inv_image wf_lex_prod wf_less_than)
next
  case (2 blocks b stack reachable)
  then show ?case by (simp add: reach_measure_def)
next
  case (3 blocks b stack reachable x reachable' fresh)
  then have "bs_elems reachable' = bs_elems reachable"
    using stale_insert [of reachable b] by (metis fst_conv snd_conv)
  then show ?case by (simp add: reach_measure_def)
next
  case (4 blocks b stack reachable x reachable' fresh)
  then have "bs_insert reachable b = (reachable', True)" "b < length blocks" by auto
  then have "card ({..<length blocks} - bs_elems reachable') < card ({..<length blocks} - bs_elems reachable)"
    using bset.fresh_progress [of reachable b "length blocks"] by simp
  then show ?case by (simp add: reach_measure_def)
qed

definition reachable_blocks_dense :: "'op amir_func \<Rightarrow> bitset" where
  "reachable_blocks_dense func =
     (if af_blocks func = [] then bs_with_capacity 0
      else reach_loop (af_blocks func) [0] (bs_with_capacity (length (af_blocks func))))"

section \<open>Reachability is the reflexive transitive closure of the edges\<close>

definition block_edge :: "'op amir_basic_block list \<Rightarrow> block_id \<Rightarrow> block_id \<Rightarrow> bool" where
  "block_edge blocks u v \<longleftrightarrow> u < length blocks \<and> v < length blocks \<and>
     v \<in> set (terminator_targets (bb_terminator (blocks ! u)))"

lemma reach_loop_sound:
  "b \<in> bs_elems (reach_loop blocks stack r) \<Longrightarrow>
     b \<in> bs_elems r \<or> (\<exists>x \<in> set stack. x < length blocks \<and> (block_edge blocks)\<^sup>*\<^sup>* x b)"
proof (induction blocks stack r rule: reach_loop.induct)
  case (2 blocks x stack r)
  obtain r' fresh where ins: "bs_insert r x = (r', fresh)" by fastforce
  then have r': "bs_elems r' = insert x (bs_elems r)" using bset.ins_elems [of r x] by simp
  show ?case
  proof (cases "length blocks \<le> x \<or> \<not> fresh")
    case True
    moreover have "bs_elems r' = bs_elems r" if "\<not> fresh"
      using that stale_insert [of r x] ins by simp
    ultimately show ?thesis using "2.IH" "2.prems" ins by (auto split: if_splits)
  next
    case False
    then have b: "b \<in> bs_elems (reach_loop blocks
        (rev (terminator_targets (bb_terminator (blocks ! x))) @ stack) r')"
      using "2.prems" ins by simp
    with False "2.IH"(3) [of "(r', fresh)" r' fresh] ins
    consider "b \<in> bs_elems r'" | y where "y \<in> set (terminator_targets (bb_terminator (blocks ! x)))"
        "y < length blocks" "(block_edge blocks)\<^sup>*\<^sup>* y b"
      | y where "y \<in> set stack" "y < length blocks" "(block_edge blocks)\<^sup>*\<^sup>* y b"
      by fastforce
    then show ?thesis
    proof cases
      case 1
      then show ?thesis using r' False by auto
    next
      case 2
      then have "block_edge blocks x y" using False by (simp add: block_edge_def)
      then have "(block_edge blocks)\<^sup>*\<^sup>* x b" using 2(3) by (rule converse_rtranclp_into_rtranclp)
      then show ?thesis using False by auto
    qed auto
  qed
qed simp

lemma reach_loop_mono:
  "bs_elems r \<subseteq> bs_elems (reach_loop blocks stack r) \<and>
   (\<forall>x \<in> set stack. x < length blocks \<longrightarrow> x \<in> bs_elems (reach_loop blocks stack r))"
proof (induction blocks stack r rule: reach_loop.induct)
  case (2 blocks x stack r)
  obtain r' fresh where ins: "bs_insert r x = (r', fresh)" by fastforce
  then have r': "bs_elems r' = insert x (bs_elems r)" using bset.ins_elems [of r x] by simp
  show ?case
    using "2.IH"(1) "2.IH"(2,3) [of "(r', fresh)" r' fresh] ins r' by (auto split: if_splits)
qed simp

lemma reach_loop_closed:
  "(\<And>u v. u \<in> bs_elems r \<Longrightarrow> block_edge blocks u v \<Longrightarrow> v \<in> bs_elems r \<union> set stack) \<Longrightarrow>
   u \<in> bs_elems (reach_loop blocks stack r) \<Longrightarrow> block_edge blocks u v \<Longrightarrow>
   v \<in> bs_elems (reach_loop blocks stack r)"
proof (induction blocks stack r arbitrary: u v rule: reach_loop.induct)
  case (2 blocks x stack r)
  obtain r' fresh where ins: "bs_insert r x = (r', fresh)" by fastforce
  then have r': "bs_elems r' = insert x (bs_elems r)" using bset.ins_elems [of r x] by simp
  consider (out) "length blocks \<le> x" | (old) "x < length blocks" "\<not> fresh"
    | (new) "x < length blocks" "fresh" by linarith
  then show ?case
  proof cases
    case out
    have "v \<in> bs_elems r \<union> set stack" if "u \<in> bs_elems r" "block_edge blocks u v" for u v
      using "2.prems"(1) [OF that] that(2) out by (auto simp: block_edge_def)
    then show ?thesis using "2.IH"(1) [OF out] "2.prems"(2,3) out by simp
  next
    case old
    then have "bs_elems r' = bs_elems r" "x \<in> bs_elems r" using stale_insert [of r x] ins r' by auto
    then have "v \<in> bs_elems r' \<union> set stack" if "u \<in> bs_elems r'" "block_edge blocks u v" for u v
      using "2.prems"(1) [of u v] that by auto
    then show ?thesis using "2.IH"(2) [of "(r', fresh)" r' fresh] "2.prems"(2,3) old ins by simp
  next
    case new
    let ?st = "rev (terminator_targets (bb_terminator (blocks ! x))) @ stack"
    have "v \<in> bs_elems r' \<union> set ?st" if "u \<in> bs_elems r'" "block_edge blocks u v" for u v
      using "2.prems"(1) [of u v] that r' by (auto simp: block_edge_def)
    then show ?thesis using "2.IH"(3) [of "(r', fresh)" r' fresh] "2.prems"(2,3) new ins by simp
  qed
qed simp

lemma reachable_blocks_elems:
  "bs_elems (reachable_blocks_dense func) =
     {b. af_blocks func \<noteq> [] \<and> (block_edge (af_blocks func))\<^sup>*\<^sup>* 0 b}"
proof (cases "af_blocks func = []")
  case False
  let ?bs = "af_blocks func"
  define r where "r = reach_loop ?bs [0] (bs_with_capacity (length ?bs))"
  have zero: "0 \<in> bs_elems r"
    using reach_loop_mono [of "bs_with_capacity (length ?bs)" ?bs "[0]", folded r_def] False by simp
  have closed: "v \<in> bs_elems r" if "u \<in> bs_elems r" "block_edge ?bs u v" for u v
    unfolding r_def by (rule reach_loop_closed [OF _ that [unfolded r_def]])
      (simp add: bs_with_capacity_elems)
  have "b \<in> bs_elems r" if "(block_edge ?bs)\<^sup>*\<^sup>* 0 b" for b
    using that by (induction rule: rtranclp_induct) (rule zero, rule closed)
  moreover have "(block_edge ?bs)\<^sup>*\<^sup>* 0 b" if "b \<in> bs_elems r" for b
    using reach_loop_sound [OF that [unfolded r_def]] by (simp add: bs_with_capacity_elems)
  moreover have "reachable_blocks_dense func = r"
    using False unfolding reachable_blocks_dense_def r_def by (rule if_not_P)
  ultimately show ?thesis using False by auto
qed (simp add: reachable_blocks_dense_def bs_with_capacity_elems)

section \<open>The edge lists\<close>

definition cfg_count :: "control_flow_graph \<Rightarrow> nat \<Rightarrow> bool" where
  "cfg_count cfg n \<longleftrightarrow> length (cfg_successors cfg) = n \<and> length (cfg_predecessors cfg) = n \<and>
     (\<forall>u < n. \<forall>v < n. count_list (cfg_successors cfg ! u) v = count_list (cfg_predecessors cfg ! v) u) \<and>
     (\<forall>u < n. \<forall>v \<in> set (cfg_successors cfg ! u). v < n) \<and>
     (\<forall>v < n. \<forall>u \<in> set (cfg_predecessors cfg ! v). u < n)"

lemma cfg_countI:
  assumes "length (cfg_successors cfg) = n" "length (cfg_predecessors cfg) = n"
    and "\<And>u v. u < n \<Longrightarrow> v < n \<Longrightarrow>
      count_list (cfg_successors cfg ! u) v = count_list (cfg_predecessors cfg ! v) u"
    and "\<And>u v. u < n \<Longrightarrow> v \<in> set (cfg_successors cfg ! u) \<Longrightarrow> v < n"
    and "\<And>u v. v < n \<Longrightarrow> u \<in> set (cfg_predecessors cfg ! v) \<Longrightarrow> u < n"
  shows "cfg_count cfg n"
  using assms unfolding cfg_count_def by blast

lemma cfg_countD:
  assumes "cfg_count cfg n"
  shows "length (cfg_successors cfg) = n" "length (cfg_predecessors cfg) = n"
    "\<And>u v. u < n \<Longrightarrow> v < n \<Longrightarrow>
      count_list (cfg_successors cfg ! u) v = count_list (cfg_predecessors cfg ! v) u"
    "\<And>u v. u < n \<Longrightarrow> v \<in> set (cfg_successors cfg ! u) \<Longrightarrow> v < n"
    "\<And>u v. v < n \<Longrightarrow> u \<in> set (cfg_predecessors cfg ! v) \<Longrightarrow> u < n"
  using assms unfolding cfg_count_def by blast+

lemma add_edge_count:
  assumes "cfg_count cfg n" "bid < n"
  shows "cfg_count (add_edge n bid s cfg) n"
proof (cases "s < n")
  case True
  let ?c = "add_edge n bid s cfg"
  note d = cfg_countD [OF assms(1)]
  have len: "length (cfg_successors ?c) = n" "length (cfg_predecessors ?c) = n"
    using d(1,2) by (simp_all add: add_edge_def)
  have S: "cfg_successors ?c ! u = cfg_successors cfg ! u @ (if u = bid then [s] else [])" if "u < n" for u
    using that True d(1) assms(2) by (simp add: add_edge_def)
  have P: "cfg_predecessors ?c ! v = cfg_predecessors cfg ! v @ (if v = s then [bid] else [])" if "v < n" for v
    using that True d(2) by (simp add: add_edge_def)
  show ?thesis
  proof (rule cfg_countI [OF len])
    show "count_list (cfg_successors ?c ! u) v = count_list (cfg_predecessors ?c ! v) u"
      if "u < n" "v < n" for u v
      using d(3) [OF that] that by (simp add: S P)
    show "v < n" if "u < n" "v \<in> set (cfg_successors ?c ! u)" for u v
      using d(4) [OF that(1)] that(2) True by (auto simp: S [OF that(1)] split: if_splits)
    show "u < n" if "v < n" "u \<in> set (cfg_predecessors ?c ! v)" for u v
      using d(5) [OF that(1)] that(2) assms(2) by (auto simp: P [OF that(1)] split: if_splits)
  qed
next
  case False
  then show ?thesis using assms(1) by (simp add: add_edge_def)
qed

lemma add_edges_count: "cfg_count cfg n \<Longrightarrow> bid < n \<Longrightarrow> cfg_count (fold (add_edge n bid) ss cfg) n"
  by (induction ss arbitrary: cfg) (auto simp: add_edge_count)

lemma add_blocks_count: "cfg_count cfg n \<Longrightarrow> i + length bs \<le> n \<Longrightarrow> cfg_count (add_blocks n i bs cfg) n"
  by (induction n i bs cfg rule: add_blocks.induct) (auto simp: add_edges_count)

lemma add_edges_succs:
  "bid < length (cfg_successors cfg) \<Longrightarrow>
   cfg_successors (fold (add_edge n bid) ss cfg) =
     (cfg_successors cfg)[bid := cfg_successors cfg ! bid @ filter (\<lambda>s. s < n) ss]"
  by (induction ss arbitrary: cfg) (auto simp: add_edge_def)

lemma add_blocks_succs:
  "i + length bs \<le> length (cfg_successors cfg) \<Longrightarrow> \<forall>k. i \<le> k \<and> k < i + length bs \<longrightarrow> cfg_successors cfg ! k = [] \<Longrightarrow>
   length (cfg_successors (add_blocks n i bs cfg)) = length (cfg_successors cfg) \<and>
   (\<forall>k < length (cfg_successors cfg). cfg_successors (add_blocks n i bs cfg) ! k =
     (if i \<le> k \<and> k < i + length bs
      then filter (\<lambda>s. s < n) (terminator_targets (bb_terminator (bs ! (k - i))))
      else cfg_successors cfg ! k))"
proof (induction n i bs cfg rule: add_blocks.induct)
  case (2 n i b bs cfg)
  let ?c = "fold (add_edge n i) (terminator_targets (bb_terminator b)) cfg"
  have c: "cfg_successors ?c =
      (cfg_successors cfg)[i := filter (\<lambda>s. s < n) (terminator_targets (bb_terminator b))]"
    using "2.prems" add_edges_succs [of i cfg] by simp
  have "Suc i + length bs \<le> length (cfg_successors ?c)"
    "\<forall>k. Suc i \<le> k \<and> k < Suc i + length bs \<longrightarrow> cfg_successors ?c ! k = []"
    using "2.prems" c by auto
  note IH = "2.IH" [OF this]
  show ?case
  proof (intro conjI allI impI)
    show "length (cfg_successors (add_blocks n i (b # bs) cfg)) = length (cfg_successors cfg)"
      using IH c by simp
    fix k assume k: "k < length (cfg_successors cfg)"
    show "cfg_successors (add_blocks n i (b # bs) cfg) ! k = (if i \<le> k \<and> k < i + length (b # bs)
        then filter (\<lambda>s. s < n) (terminator_targets (bb_terminator ((b # bs) ! (k - i))))
        else cfg_successors cfg ! k)"
    proof (cases "Suc i \<le> k")
      case True
      then have "(b # bs) ! (k - i) = bs ! (k - Suc i)" by (simp add: nth_Cons' Suc_diff_le)
      then show ?thesis using IH c k True by auto
    next
      case False
      then show ?thesis using IH c k by (auto simp: nth_list_update)
    qed
  qed
qed auto

lemma compute_cfg_successors:
  "i < length blocks \<Longrightarrow> cfg_successors (compute_cfg_edges blocks) ! i =
     filter (\<lambda>s. s < length blocks) (terminator_targets (bb_terminator (blocks ! i)))"
  using add_blocks_succs [of 0 blocks "\<lparr>cfg_successors = replicate (length blocks) [],
    cfg_predecessors = replicate (length blocks) []\<rparr>" "length blocks"]
  by (simp add: compute_cfg_edges_def Let_def)

lemma compute_cfg_count: "cfg_count (compute_cfg_edges blocks) (length blocks)"
  unfolding compute_cfg_edges_def Let_def
  by (rule add_blocks_count) (rule cfg_countI, simp_all)

section \<open>Incremental updates\<close>

lemma position_Some:
  "position x xs = Some i \<Longrightarrow> i < length xs \<and> xs ! i = x"
  by (induction xs arbitrary: i) (auto split: if_splits)

lemma position_None: "position x xs = None \<longleftrightarrow> x \<notin> set xs"
  by (induction xs) (auto split: if_splits)

lemma count_list_update:
  "i < length xs \<Longrightarrow>
   count_list (xs[i := y]) v + of_bool (v = xs ! i) = count_list xs v + of_bool (v = y)"
proof (induction xs arbitrary: i)
  case (Cons x xs)
  then show ?case by (cases i) auto
qed simp

lemma count_list_filter_neq: "count_list (filter (\<lambda>p. p \<noteq> a) xs) u = (if u = a then 0 else count_list xs u)"
  by (induction xs) auto

text \<open>Retargeting one edge of a graph in which that edge is not doubled.\<close>

lemma retarget_successor_count:
  assumes cnt: "cfg_count cfg n" and "f < n" "old < n" "new < n"
    and uniq: "count_list (cfg_successors cfg ! f) old = 1"
  obtains cfg' pos where "retarget_successor cfg f old new = Some (cfg', True)" "cfg_count cfg' n"
    "position old (cfg_successors cfg ! f) = Some pos"
    "cfg_successors cfg' = (cfg_successors cfg)[f := (cfg_successors cfg ! f)[pos := new]]"
proof -
  note d = cfg_countD [OF cnt]
  let ?S = "cfg_successors cfg" and ?P = "cfg_predecessors cfg"
  have "old \<in> set (?S ! f)" using uniq by (metis count_list_0_iff zero_neq_one)
  then obtain pos where pos: "position old (?S ! f) = Some pos"
    using position_None [of old "?S ! f"] by auto
  note p = position_Some [OF pos]
  let ?P1 = "?P[old := filter (\<lambda>p. p \<noteq> f) (?P ! old)]"
  let ?c = "cfg\<lparr>cfg_successors := ?S[f := (?S ! f)[pos := new]],
    cfg_predecessors := ?P1[new := ?P1 ! new @ [f]]\<rparr>"
  have run: "retarget_successor cfg f old new = Some (?c, True)"
    using pos d(1,2) assms(2-4) by (simp add: retarget_successor_def vec_get_def Let_def)
  have P: "count_list (cfg_predecessors ?c ! v) u =
      (if v = old \<and> u = f then 0 else count_list (?P ! v) u) + of_bool (v = new \<and> u = f)"
    if "v < n" for u v
    using that d(2) assms(3,4) by (simp add: nth_list_update count_list_filter_neq)
  have "cfg_count ?c n"
  proof (rule cfg_countI)
    show "count_list (cfg_successors ?c ! u) v = count_list (cfg_predecessors ?c ! v) u"
      if "u < n" "v < n" for u v
      using d(3) [OF that] d(3) [OF assms(2,3)] count_list_update [of pos "?S ! f" new v] p uniq
      unfolding P [OF that(2)] using that(1) d(1)
      by (cases "u = f") (auto simp: nth_list_update split: if_splits)
    show "v < n" if "u < n" "v \<in> set (cfg_successors ?c ! u)" for u v
      using that d(1,4) assms(2,4) set_update_subset_insert [of "?S ! f" pos new]
      by (auto simp: nth_list_update split: if_splits)
    show "u < n" if "v < n" "u \<in> set (cfg_predecessors ?c ! v)" for u v
      using that d(2,5) assms(2-4) by (auto simp: nth_list_update split: if_splits)
  qed (use d(1,2) in simp_all)
  then show ?thesis using that [OF run _ pos] by simp
qed

text \<open>
  When the edge is doubled (a branch with two equal targets), only one of its occurrences moves while
  every occurrence in the predecessor list is dropped.
\<close>

lemma retarget_successor_doubled:
  "retarget_successor \<lparr>cfg_successors = [[1, 1], [], []], cfg_predecessors = [[], [0, 0], []]\<rparr> 0 1 2 =
     Some (\<lparr>cfg_successors = [[2, 1], [], []], cfg_predecessors = [[], [], [0]]\<rparr>, True)"
  by (simp add: retarget_successor_def vec_get_def)

section \<open>Properties\<close>

text \<open>
  \<open>compute_cfg_edges\<close> lists, for every block, exactly the targets of its terminator that name a block,
  in terminator order, and the predecessor lists mirror them edge by edge, multiplicities included.
\<close>

theorem cfg_edges_exact:
  "(\<forall>i < length blocks. cfg_successors (compute_cfg_edges blocks) ! i =
      filter (\<lambda>s. s < length blocks) (terminator_targets (bb_terminator (blocks ! i)))) \<and>
   (\<forall>u < length blocks. \<forall>v < length blocks.
      count_list (cfg_predecessors (compute_cfg_edges blocks) ! v) u =
      count_list (cfg_successors (compute_cfg_edges blocks) ! u) v)"
  using compute_cfg_successors cfg_countD(3) [OF compute_cfg_count] by metis

text \<open>
  C29: \<open>reachable_blocks_dense\<close> terminates on every function, loops and invalid targets included, and
  returns exactly the blocks a path of in-range terminator edges leads to from the entry block; on a
  function without blocks it returns the empty set.
\<close>

theorem reachable_blocks_exact:
  "bs_elems (reachable_blocks_dense func) =
     {b. af_blocks func \<noteq> [] \<and> (block_edge (af_blocks func))\<^sup>*\<^sup>* 0 b}"
  by (rule reachable_blocks_elems)

text \<open>
  Retargeting an edge that is not doubled keeps successor and predecessor lists mirror images of
  each other and changes only that occurrence; this is the case of \<open>thread_block\<close>, whose block ends in
  a \<open>Goto\<close>.
\<close>

theorem retarget_keeps_mirror:
  assumes "cfg_count cfg n" "f < n" "old < n" "new < n"
    and "count_list (cfg_successors cfg ! f) old = 1"
  shows "\<exists>cfg' pos. retarget_successor cfg f old new = Some (cfg', True) \<and> cfg_count cfg' n \<and>
    cfg_successors cfg ! f ! pos = old \<and>
    cfg_successors cfg' = (cfg_successors cfg)[f := (cfg_successors cfg ! f)[pos := new]]"
  using retarget_successor_count [OF assms] position_Some by metis

text \<open>Block 0 jumps to block 1, which jumps on to block 2.\<close>

definition ex_blocks :: "unit amir_basic_block list" where
  "ex_blocks = map (\<lambda>(i, t). \<lparr>bb_id = i, bb_params = \<lparr>dr_start = 0, dr_len = 0\<rparr>,
     bb_statements = \<lparr>dr_start = 0, dr_len = 0\<rparr>, bb_terminator = t\<rparr>)
     [(0, Goto 1 []), (1, Goto 2 []), (2, Return)]"

lemma ex_blocks_cfg: "compute_cfg_edges ex_blocks =
    \<lparr>cfg_successors = [[1], [2], []], cfg_predecessors = [[], [0], [1]]\<rparr>"
  by (simp add: compute_cfg_edges_def ex_blocks_def add_edge_def numeral_2_eq_2 numeral_3_eq_3)

theorem retarget_keeps_mirror_witness:
  "\<exists>cfg'. retarget_successor (compute_cfg_edges ex_blocks) 0 1 2 = Some (cfg', True) \<and> cfg_count cfg' 3"
  using retarget_keeps_mirror [OF compute_cfg_count, of 0 ex_blocks 1 2]
  by (auto simp: ex_blocks_cfg) (auto simp: ex_blocks_def eval_nat_numeral)

theorem cfg_edges_exact_witness:
  "cfg_successors (compute_cfg_edges ex_blocks) ! 0 = [1] \<and>
   count_list (cfg_predecessors (compute_cfg_edges ex_blocks) ! 1) 0 = 1"
proof -
  have len: "0 < length ex_blocks" "1 < length ex_blocks" by (simp_all add: ex_blocks_def)
  have "cfg_successors (compute_cfg_edges ex_blocks) ! 0 = [1]"
    using cfg_edges_exact [of ex_blocks] len by (simp add: ex_blocks_def)
  moreover have "count_list (cfg_predecessors (compute_cfg_edges ex_blocks) ! 1) 0 =
      count_list (cfg_successors (compute_cfg_edges ex_blocks) ! 0) 1"
    using cfg_edges_exact [of ex_blocks] len by blast
  ultimately show ?thesis by simp
qed

end
