(* ===== verification/DomTree.thy ===== *)
theory DomTree
  imports Cfg
begin

text \<open>
  Trees of immediate dominators, as the algorithm of Cooper, Harvey and Kennedy builds them: a partial
  map from blocks to parents that climbs in the post-order of a depth-first search. The theory is the
  mathematics behind \<open>amir/dominators.rs\<close>: what dominance is, what the nearest common ancestor of the
  predecessors of a block is, and what moving one block to that ancestor does to the tree. The code itself
  is in the theory \<open>Dominators\<close>.
\<close>

named_theorems dom_intros \<open>introduction rules for ancestors\<close>

section \<open>Graphs and dominance\<close>

type_synonym parent_map = "block_id \<rightharpoonup> block_id"

definition pred_edge :: "block_id list list \<Rightarrow> block_id \<Rightarrow> block_id \<Rightarrow> bool" where
  "pred_edge preds u v \<longleftrightarrow> v < length preds \<and> u \<in> set (preds ! v)"

abbreviation reached :: "block_id list list \<Rightarrow> block_id \<Rightarrow> bool" where
  "reached preds b \<equiv> (pred_edge preds)\<^sup>*\<^sup>* 0 b"

text \<open>A path from the entry that does not visit \<open>a\<close>; \<open>a\<close> dominates \<open>b\<close> when there is none to \<open>b\<close>.\<close>

definition reach_avoiding :: "block_id list list \<Rightarrow> block_id \<Rightarrow> block_id \<Rightarrow> bool" where
  "reach_avoiding preds a b \<longleftrightarrow> a \<noteq> 0 \<and> (\<lambda>u v. pred_edge preds u v \<and> v \<noteq> a)\<^sup>*\<^sup>* 0 b"

definition doms :: "block_id list list \<Rightarrow> block_id \<Rightarrow> block_id \<Rightarrow> bool" where
  "doms preds a b \<longleftrightarrow> reached preds b \<and> \<not> reach_avoiding preds a b"

text \<open>
  The numbering the algorithm works with: reachable blocks have different numbers, the entry the largest,
  and every other one has a predecessor with a larger number (its parent in the depth-first search).
\<close>

definition numbered :: "block_id list list \<Rightarrow> (block_id \<Rightarrow> nat) \<Rightarrow> bool" where
  "numbered preds po \<longleftrightarrow>
     inj_on po {b. reached preds b} \<and>
     (\<forall>b. reached preds b \<longrightarrow> b \<noteq> 0 \<longrightarrow> po b < po 0 \<and>
        (\<exists>p. reached preds p \<and> pred_edge preds p b \<and> po b < po p))"

lemma numberedD:
  assumes "numbered preds po"
  shows "reached preds a \<Longrightarrow> reached preds b \<Longrightarrow> po a = po b \<Longrightarrow> a = b"
    and "reached preds b \<Longrightarrow> b \<noteq> 0 \<Longrightarrow> po b < po 0"
    and "reached preds b \<Longrightarrow> b \<noteq> 0 \<Longrightarrow> \<exists>p. reached preds p \<and> pred_edge preds p b \<and> po b < po p"
  using assms by (auto simp: numbered_def inj_on_def)

lemma doms_refl: "reached preds b \<Longrightarrow> doms preds b b"
proof -
  have "b' \<noteq> b" if "b \<noteq> 0" "(\<lambda>u v. pred_edge preds u v \<and> v \<noteq> b)\<^sup>*\<^sup>* 0 b'" for b'
    using that(2,1) by (induction rule: rtranclp_induct) auto
  then show "reached preds b \<Longrightarrow> doms preds b b" by (auto simp: doms_def reach_avoiding_def)
qed

lemma doms_entry: "reached preds b \<Longrightarrow> doms preds 0 b"
  by (simp add: doms_def reach_avoiding_def)

lemma doms_pred:
  assumes "doms preds a b" and "a \<noteq> b" and "pred_edge preds p b" and "reached preds p"
  shows "doms preds a p"
proof -
  have "reach_avoiding preds a b" if "reach_avoiding preds a p"
    using that assms(2,3) by (auto simp: reach_avoiding_def intro: rtranclp.rtrancl_into_rtrancl)
  then show ?thesis using assms(1,4) by (auto simp: doms_def)
qed

section \<open>Ancestors\<close>

inductive anc :: "parent_map \<Rightarrow> block_id \<Rightarrow> block_id \<Rightarrow> bool" for par :: parent_map where
  anc_refl [dom_intros]: "par b = Some p \<Longrightarrow> anc par b b"
| anc_step [dom_intros]: "par b = Some p \<Longrightarrow> anc par a p \<Longrightarrow> anc par a b"

text \<open>A tree under construction: the entry is its own parent, parents have larger numbers.\<close>

definition tree :: "block_id list list \<Rightarrow> (block_id \<Rightarrow> nat) \<Rightarrow> parent_map \<Rightarrow> bool" where
  "tree preds po par \<longleftrightarrow> par 0 = Some 0 \<and>
     (\<forall>b p. par b = Some p \<longrightarrow> reached preds b \<and> (b \<noteq> 0 \<longrightarrow> par p \<noteq> None \<and> po b < po p))"

lemma treeD:
  assumes "tree preds po par"
  shows "par 0 = Some 0" and "par b = Some p \<Longrightarrow> reached preds b"
    and "par b = Some p \<Longrightarrow> b \<noteq> 0 \<Longrightarrow> po b < po p" and "par b = Some p \<Longrightarrow> \<exists>q. par p = Some q"
  using assms unfolding tree_def by (metis option.exhaust option.inject)+

lemma anc_par: "anc par a b \<Longrightarrow> \<exists>p. par b = Some p"
  by (induction rule: anc.induct) auto

lemma anc_par_left: "tree preds po par \<Longrightarrow> anc par a b \<Longrightarrow> \<exists>p. par a = Some p"
  by (rotate_tac, induction rule: anc.induct) auto

lemma anc_trans: "anc par b c \<Longrightarrow> anc par a b \<Longrightarrow> anc par a c"
  by (induction rule: anc.induct) (auto intro: dom_intros)

lemma anc_entry: "tree preds po par \<Longrightarrow> anc par a 0 \<longleftrightarrow> a = 0"
proof
  assume t: "tree preds po par" and "anc par a 0"
  from this(2) show "a = 0"
    by (induction a "0 :: block_id" rule: anc.induct) (use treeD(1) [OF t] in auto)
qed (auto intro: dom_intros dest: treeD(1))

lemma anc_cases:
  assumes "tree preds po par" and "anc par a b" and "par b = Some p"
  shows "a = b \<or> b \<noteq> 0 \<and> anc par a p"
  using assms(2,3) by (cases rule: anc.cases) (use assms(1) anc_entry treeD(1) [OF assms(1)] in auto)

lemma anc_po:
  assumes "tree preds po par"
  shows "anc par a b \<Longrightarrow> po b \<le> po a \<and> (a = b \<or> po b < po a)"
proof (induction rule: anc.induct)
  case (anc_step b p a)
  then show ?case
  proof (cases "b = 0")
    case True
    then have "p = 0" using anc_step(1) treeD(1) [OF assms] by simp
    then show ?thesis using anc_step True by simp
  next
    case False
    then show ?thesis using anc_step treeD(3) [OF assms anc_step(1)] by auto
  qed
qed simp

lemma anc_antisym: "tree preds po par \<Longrightarrow> anc par a b \<Longrightarrow> anc par b a \<Longrightarrow> a = b"
  using anc_po [of preds po par a b] anc_po [of preds po par b a] by auto

text \<open>The ancestors of a block are a chain, from the block up to the entry.\<close>

lemma anc_linear:
  assumes "tree preds po par" and "anc par a c" and "anc par b c"
  shows "anc par a b \<or> anc par b a"
  using assms(2,3)
proof (induction rule: anc.induct)
  case (anc_step c p a)
  then show ?case using anc_cases [OF assms(1) anc_step(4) anc_step(1)] anc.anc_step by metis
qed (auto)

lemma anc_of_entry:
  assumes "numbered preds po" and "tree preds po par"
  shows "par b = Some p \<Longrightarrow> anc par 0 b"
proof (induction "po 0 - po b" arbitrary: b p rule: less_induct)
  case less
  show ?case
  proof (cases "b = 0")
    case True
    then show ?thesis using less.prems by (auto intro: dom_intros)
  next
    case False
    obtain q where q: "par p = Some q" using treeD(4) [OF assms(2) less.prems] by blast
    have "po b < po p" using treeD(3) [OF assms(2) less.prems False] .
    moreover have "po b < po 0" using numberedD(2) [OF assms(1)] treeD(2) [OF assms(2) less.prems] False by simp
    ultimately have "anc par 0 p" using less.hyps [OF _ q] by simp
    then show ?thesis using less.prems by (auto intro: dom_intros)
  qed
qed

section \<open>Moving a block to a new parent\<close>

text \<open>
  The situation of one assignment \<open>idoms[b] = Some(x)\<close>: \<open>x\<close> has a larger number than \<open>b\<close> and is an
  ancestor of the old parent, if there was one.
\<close>

definition moves ::
  "block_id list list \<Rightarrow> (block_id \<Rightarrow> nat) \<Rightarrow> parent_map \<Rightarrow> block_id \<Rightarrow> block_id \<Rightarrow> bool" where
  "moves preds po par b x \<longleftrightarrow> tree preds po par \<and> b \<noteq> 0 \<and> reached preds b \<and> par x \<noteq> None \<and> po b < po x \<and>
     (\<forall>y. par b = Some y \<longrightarrow> anc par x y)"

lemma movesD:
  assumes "moves preds po par b x"
  shows "tree preds po par" "b \<noteq> 0" "reached preds b" "par x \<noteq> None" "po b < po x"
    "par b = Some y \<Longrightarrow> anc par x y"
  using assms by (auto simp: moves_def)

lemma moves_tree: "moves preds po par b x \<Longrightarrow> tree preds po (par(b \<mapsto> x))"
  unfolding moves_def tree_def by auto

lemma anc_moved:
  assumes mv: "moves preds po par b x"
  shows "anc (par(b \<mapsto> x)) a c \<Longrightarrow> par c \<noteq> None \<Longrightarrow> anc par a c"
proof (induction rule: anc.induct)
  case (anc_step c p a)
  show ?case
  proof (cases "c = b")
    case True
    then obtain y where y: "par b = Some y" using anc_step.prems by auto
    have "anc par a x" using anc_step True movesD(4) [OF mv] by auto
    then show ?thesis using True y movesD(6) [OF mv y] by (blast intro: anc_trans anc.anc_step)
  next
    case False
    then have "par c = Some p" using anc_step.hyps(1) by simp
    then show ?thesis using anc_step.IH treeD(4) [OF movesD(1) [OF mv]] by (auto intro: dom_intros)
  qed
qed (auto intro: dom_intros)

lemma anc_above:
  assumes mv: "moves preds po par b x" and "po b < po c"
  shows "anc (par(b \<mapsto> x)) a c \<longleftrightarrow> anc par a c"
proof
  assume "anc (par(b \<mapsto> x)) a c"
  then show "anc par a c" using anc_moved [OF mv, of a c] anc_par [of "par(b \<mapsto> x)" a c] assms(2) by (auto split: if_splits)
next
  assume "anc par a c"
  then show "anc (par(b \<mapsto> x)) a c" using assms(2)
  proof (induction rule: anc.induct)
    case (anc_step c p a)
    note tr = movesD(1) [OF mv]
    have "po b < po p"
    proof (cases "c = 0")
      case True
      then show ?thesis using anc_step.hyps(1) anc_step.prems treeD(1) [OF tr] by simp
    next
      case False
      then show ?thesis using treeD(3) [OF tr anc_step.hyps(1)] anc_step.prems by simp
    qed
    then show ?case using anc_step by (auto intro: anc.anc_step)
  qed (auto intro: dom_intros)
qed

lemma anc_kept:
  "anc par a c \<Longrightarrow> anc (par(b \<mapsto> x)) a c \<or> anc (par(b \<mapsto> x)) b c \<and> anc par a b \<and> a \<noteq> b"
proof (induction rule: anc.induct)
  case (anc_step c p a)
  show ?case
  proof (cases "c = b")
    case True
    then show ?thesis using anc_step.hyps by (metis anc.intros fun_upd_same)
  next
    case False
    then have "(par(b \<mapsto> x)) c = Some p" using anc_step.hyps(1) by simp
    then show ?thesis using anc_step.IH by (auto intro: anc.anc_step)
  qed
qed (metis anc.anc_refl fun_upd_apply)

section \<open>The invariant of the iteration\<close>

text \<open>The nearest common ancestor of the processed predecessors of a block.\<close>

definition common :: "block_id list list \<Rightarrow> parent_map \<Rightarrow> block_id \<Rightarrow> block_id \<Rightarrow> bool" where
  "common preds par b z \<longleftrightarrow> (\<forall>p. pred_edge preds p b \<longrightarrow> par p \<noteq> None \<longrightarrow> anc par z p)"

definition nearest :: "block_id list list \<Rightarrow> parent_map \<Rightarrow> block_id \<Rightarrow> block_id \<Rightarrow> bool" where
  "nearest preds par b x \<longleftrightarrow> common preds par b x \<and> (\<forall>z. common preds par b z \<longrightarrow> anc par z x)"

text \<open>
  The invariant, when the blocks numbered from \<open>t\<close> on are done in the current pass: the processed blocks
  are closed upwards; a parent reaches its child through blocks with smaller numbers; every
  dominator is an ancestor; the parent is no higher than the common ancestors of the predecessors.
  The last clause relates a parent to the forward predecessors of its block. It is an ancestor of each,
  except while a pass runs that has moved the predecessor but not yet the block.
\<close>

definition low_path ::
  "block_id list list \<Rightarrow> (block_id \<Rightarrow> nat) \<Rightarrow> block_id \<Rightarrow> block_id \<Rightarrow> bool" where
  "low_path preds po a b \<longleftrightarrow> (\<lambda>u v. pred_edge preds u v \<and> po v < po a)\<^sup>*\<^sup>* a b"

definition upward :: "block_id list list \<Rightarrow> (block_id \<Rightarrow> nat) \<Rightarrow> nat \<Rightarrow> parent_map \<Rightarrow> bool" where
  "upward preds po t par \<longleftrightarrow> (\<forall>c. reached preds c \<longrightarrow> t \<le> po c \<longrightarrow> par c \<noteq> None) \<and>
     (\<forall>c d. par c \<noteq> None \<longrightarrow> reached preds d \<longrightarrow> po c < po d \<longrightarrow> par d \<noteq> None)"

definition low_tree :: "block_id list list \<Rightarrow> (block_id \<Rightarrow> nat) \<Rightarrow> parent_map \<Rightarrow> bool" where
  "low_tree preds po par \<longleftrightarrow> (\<forall>c p. par c = Some p \<longrightarrow> c \<noteq> 0 \<longrightarrow> low_path preds po p c)"

definition covers :: "block_id list list \<Rightarrow> parent_map \<Rightarrow> bool" where
  "covers preds par \<longleftrightarrow> (\<forall>a c. par c \<noteq> None \<longrightarrow> doms preds a c \<longrightarrow> anc par a c)"

definition not_higher :: "block_id list list \<Rightarrow> (block_id \<Rightarrow> nat) \<Rightarrow> parent_map \<Rightarrow> bool" where
  "not_higher preds po par \<longleftrightarrow>
     (\<forall>c y z. par c = Some y \<longrightarrow> c \<noteq> 0 \<longrightarrow> common preds par c z \<longrightarrow> po y \<le> po z)"

definition follows ::
  "(block_id \<Rightarrow> nat) \<Rightarrow> nat \<Rightarrow> parent_map \<Rightarrow> block_id \<Rightarrow> block_id \<Rightarrow> block_id \<Rightarrow> bool" where
  "follows po t par c y p \<longleftrightarrow> anc par y p \<or>
     po c < t \<and> t \<le> po y \<and> (\<forall>z. anc par z p \<longrightarrow> po y \<le> po z \<longrightarrow> anc par z y)"

definition forward :: "block_id list list \<Rightarrow> (block_id \<Rightarrow> nat) \<Rightarrow> nat \<Rightarrow> parent_map \<Rightarrow> bool" where
  "forward preds po t par \<longleftrightarrow> (\<forall>c y p. par c = Some y \<longrightarrow> c \<noteq> 0 \<longrightarrow>
     reached preds p \<longrightarrow> pred_edge preds p c \<longrightarrow> po c < po p \<longrightarrow> follows po t par c y p)"

definition dom_inv :: "block_id list list \<Rightarrow> (block_id \<Rightarrow> nat) \<Rightarrow> nat \<Rightarrow> parent_map \<Rightarrow> bool" where
  "dom_inv preds po t par \<longleftrightarrow> tree preds po par \<and> upward preds po t par \<and> low_tree preds po par \<and>
     covers preds par \<and> not_higher preds po par \<and> forward preds po t par"

lemma dom_invD:
  assumes "dom_inv preds po t par"
  shows "tree preds po par" "upward preds po t par" "low_tree preds po par" "covers preds par"
    "not_higher preds po par" "forward preds po t par"
  using assms by (simp_all add: dom_inv_def)

lemma low_path_anc:
  assumes "tree preds po par" and "low_tree preds po par"
  shows "anc par a c \<Longrightarrow> low_path preds po a c"
proof (induction rule: anc.induct)
  case (anc_step c p a)
  show ?case
  proof (cases "c = 0")
    case True
    then show ?thesis using anc_step treeD(1) [OF assms(1)] by simp
  next
    case False
    have "low_path preds po p c" using assms(2) anc_step.hyps(1) False by (simp add: low_tree_def)
    moreover have "po p \<le> po a" using anc_po [OF assms(1) anc_step.hyps(2)] by simp
    ultimately have "(\<lambda>u v. pred_edge preds u v \<and> po v < po a)\<^sup>*\<^sup>* p c"
      unfolding low_path_def by (rule_tac rtranclp_mono [THEN predicate2D]) auto
    then show ?thesis using anc_step.IH unfolding low_path_def by (rule_tac rtranclp_trans)
  qed
qed (simp add: low_path_def)

section \<open>One step of a pass\<close>

text \<open>The block in turn, numbered just below those done, moves to the nearest common ancestor.\<close>

lemma step_moves:
  assumes num: "numbered preds po" and inv: "dom_inv preds po (Suc (po b)) par"
    and b: "b \<noteq> 0" "reached preds b" and x: "nearest preds par b x"
  shows "moves preds po par b x"
proof -
  note tr = dom_invD(1) [OF inv]
  obtain p where p: "reached preds p" "pred_edge preds p b" "po b < po p"
    using numberedD(3) [OF num b(2,1)] by blast
  have proc: "par p \<noteq> None" using dom_invD(2) [OF inv] p by (simp add: upward_def)
  have xp: "anc par x p" using x p(2) proc by (simp add: nearest_def common_def)
  have parx: "par x \<noteq> None" using anc_par_left [OF tr xp] by auto
  have "anc par x y" if y: "par b = Some y" for y
  proof -
    have le: "po y \<le> po x" using dom_invD(5) [OF inv] y b(1) x by (auto simp: not_higher_def nearest_def)
    have "follows po (Suc (po b)) par b y p"
      using dom_invD(6) [OF inv] y b(1) p by (simp add: forward_def)
    then show ?thesis
    proof (unfold follows_def, elim disjE conjE)
      assume yp: "anc par y p"
      have "x = y" if "anc par y x"
        using anc_po [OF tr that] le by (metis leD)
      then show ?thesis using anc_linear [OF tr xp yp] by auto
    qed (use xp le in blast)
  qed
  then show ?thesis using tr b parx xp anc_po [OF tr xp] p(3) by (auto simp: moves_def)
qed

lemma step_upward:
  assumes num: "numbered preds po" and up: "upward preds po (Suc (po b)) par" and "reached preds b"
  shows "upward preds po (po b) (par(b \<mapsto> x))"
proof -
  have "par c \<noteq> None" if "reached preds c" "po b \<le> po c" "c \<noteq> b" for c
    using numberedD(1) [OF num that(1) assms(3)] that up unfolding upward_def by (metis Suc_leI le_neq_implies_less)
  moreover have "par d \<noteq> None" if "par c \<noteq> None" "reached preds d" "po c < po d" for c d
    using up that unfolding upward_def by blast
  ultimately show ?thesis unfolding upward_def by (metis fun_upd_apply less_imp_le_nat option.distinct(1))
qed

lemma step_low_tree:
  assumes inv: "dom_inv preds po t par" and mv: "moves preds po par b x"
    and q: "pred_edge preds q b" "anc par x q"
  shows "low_tree preds po (par(b \<mapsto> x))"
proof -
  have "low_path preds po x q" using low_path_anc [OF dom_invD(1,3) [OF inv] q(2)] .
  then have "low_path preds po x b"
    unfolding low_path_def using q(1) movesD(5) [OF mv] by (auto intro: rtranclp.rtrancl_into_rtrancl)
  then show ?thesis using dom_invD(3) [OF inv] by (auto simp: low_tree_def)
qed

lemma not_dominated_below:
  assumes "tree preds po par" "low_tree preds po par" "anc par b c" "po b < po a" "reach_avoiding preds a b"
  shows "reach_avoiding preds a c"
proof -
  have "(\<lambda>u v. pred_edge preds u v \<and> po v < po b)\<^sup>*\<^sup>* b c"
    using low_path_anc [OF assms(1-3)] by (simp add: low_path_def)
  then have "(\<lambda>u v. pred_edge preds u v \<and> v \<noteq> a)\<^sup>*\<^sup>* b c"
    by (rule rtranclp_mono [THEN predicate2D, rotated]) (use assms(4) in auto)
  then show ?thesis using assms(5) unfolding reach_avoiding_def by (auto intro: rtranclp_trans)
qed

lemma step_covers:
  assumes inv: "dom_inv preds po t par" and mv: "moves preds po par b x" and x: "nearest preds par b x"
  shows "covers preds (par(b \<mapsto> x))"
proof -
  let ?par = "par(b \<mapsto> x)"
  note tr = dom_invD(1) [OF inv] and cov = dom_invD(4) [OF inv]
  have at_b: "anc ?par a b" if d: "doms preds a b" for a
  proof (cases "a = b")
    case False
    have "anc par a p" if p: "pred_edge preds p b" "par p \<noteq> None" for p
      using doms_pred [OF d False p(1)] treeD(2) [OF tr] p(2) cov by (auto simp: covers_def)
    then have "anc par a x" using x by (simp add: nearest_def common_def)
    then have "anc ?par a x" using anc_above [OF mv movesD(5) [OF mv]] by simp
    then show ?thesis by (rule_tac anc.anc_step) simp_all
  qed (auto intro: anc.anc_refl)
  have "anc ?par a c" if c: "par c \<noteq> None" and d: "doms preds a c" for a c
  proof (rule ccontr)
    assume no: "\<not> anc ?par a c"
    then have k: "anc ?par b c" "anc par a b" "a \<noteq> b"
      using anc_kept [of par a c b x] cov c d by (auto simp: covers_def)
    have "po b < po a" using anc_po [OF tr k(2)] k(3) by simp
    then have "reach_avoiding preds a c" if "reach_avoiding preds a b"
      using not_dominated_below [OF tr dom_invD(3) [OF inv] anc_moved [OF mv k(1) c] _ that] by simp
    then have "doms preds a b" using d movesD(3) [OF mv] by (auto simp: doms_def)
    then show False using at_b anc_trans [OF k(1)] no by blast
  qed
  then show ?thesis using at_b unfolding covers_def by (metis fun_upd_apply)
qed

lemma step_not_higher:
  assumes inv: "dom_inv preds po t par" and mv: "moves preds po par b x" and x: "nearest preds par b x"
  shows "not_higher preds po (par(b \<mapsto> x))"
  unfolding not_higher_def
proof (intro allI impI)
  fix c y z
  assume c: "(par(b \<mapsto> x)) c = Some y" "c \<noteq> 0" and z: "common preds (par(b \<mapsto> x)) c z"
  have com: "common preds par c z" using z anc_moved [OF mv] by (auto simp: common_def)
  show "po y \<le> po z"
  proof (cases "c = b")
    case True
    then have "anc par z x" using com x by (simp add: nearest_def)
    then show ?thesis using anc_po [OF dom_invD(1) [OF inv]] c(1) True by simp
  next
    case False
    then show ?thesis using dom_invD(5) [OF inv] c com by (auto simp: not_higher_def)
  qed
qed

lemma step_follows:
  assumes inv: "dom_inv preds po (Suc (po b)) par" and mv: "moves preds po par b x"
    and ne: "po c \<noteq> po b" and p: "po c < po p" "par p \<noteq> None"
    and f: "follows po (Suc (po b)) par c y p"
  shows "follows po (po b) (par(b \<mapsto> x)) c y p"
proof (cases "anc (par(b \<mapsto> x)) y p")
  case False
  note tr = dom_invD(1) [OF inv]
  have "po c < po b \<and> po b < po y \<and> (\<forall>z. anc par z p \<longrightarrow> po y \<le> po z \<longrightarrow> anc par z y)"
  proof (cases "anc par y p")
    case True
    then have "anc par y b" "y \<noteq> b" using anc_kept [of par y p b x] False by auto
    then have "po b < po y" using anc_po [OF tr] by auto
    moreover have "\<not> po b < po c" using False True anc_above [OF mv, of p y] p(1) by auto
    moreover have "anc par z y" if "anc par z p" "po y \<le> po z" for z
      using anc_linear [OF tr that(1) True] anc_po [OF tr, of y z] that(2) by auto
    ultimately show ?thesis using ne by auto
  next
    case False
    then show ?thesis using f ne by (auto simp: follows_def)
  qed
  then show ?thesis
    unfolding follows_def using anc_moved [OF mv _ p(2)] anc_above [OF mv, of y] by auto
qed (simp add: follows_def)

lemma step_forward:
  assumes num: "numbered preds po" and inv: "dom_inv preds po (Suc (po b)) par"
    and mv: "moves preds po par b x" and x: "nearest preds par b x"
  shows "forward preds po (po b) (par(b \<mapsto> x))"
  unfolding forward_def
proof (intro allI impI)
  fix c y p
  assume c: "(par(b \<mapsto> x)) c = Some y" "c \<noteq> 0" and p: "reached preds p" "pred_edge preds p c" "po c < po p"
  note up = dom_invD(2) [OF inv, unfolded upward_def]
  show "follows po (po b) (par(b \<mapsto> x)) c y p"
  proof (cases "c = b")
    case True
    have "par p \<noteq> None" using up p(1,3) True by simp
    then have "anc par x p" using x p(2) True by (simp add: nearest_def common_def)
    then show ?thesis using c(1) True anc_above [OF mv, of p x] p(3) by (simp add: follows_def)
  next
    case False
    then have par: "par c = Some y" using c(1) by simp
    then have "po c \<noteq> po b"
      using numberedD(1) [OF num _ movesD(3) [OF mv]] treeD(2) [OF dom_invD(1) [OF inv] par] False by auto
    moreover have "par p \<noteq> None" using up par p(1,3) by auto
    moreover have "follows po (Suc (po b)) par c y p"
      using dom_invD(6) [OF inv] par c(2) p by (simp add: forward_def)
    ultimately show ?thesis using step_follows [OF inv mv] p(3) by simp
  qed
qed

text \<open>The step keeps the invariant, and a parent that changes gets a larger number.\<close>

lemma dom_step:
  assumes num: "numbered preds po" and inv: "dom_inv preds po (Suc (po b)) par"
    and b: "b \<noteq> 0" "reached preds b" and x: "nearest preds par b x"
  shows "dom_inv preds po (po b) (par(b \<mapsto> x))" "par b = Some y \<Longrightarrow> po y \<le> po x"
proof -
  note mv = step_moves [OF assms]
  obtain q where q: "reached preds q" "pred_edge preds q b" "po b < po q"
    using numberedD(3) [OF num b(2,1)] by blast
  then have "par q \<noteq> None" using dom_invD(2) [OF inv] by (simp add: upward_def)
  then have "anc par x q" using x q(2) by (simp add: nearest_def common_def)
  then show "dom_inv preds po (po b) (par(b \<mapsto> x))"
    unfolding dom_inv_def
    using moves_tree [OF mv] step_upward [OF num dom_invD(2) [OF inv] b(2)] step_low_tree [OF inv mv q(2)]
      step_covers [OF inv mv x] step_not_higher [OF inv mv x] step_forward [OF num inv mv x] by blast
  show "po y \<le> po x" if "par b = Some y"
    using anc_po [OF dom_invD(1) [OF inv] movesD(6) [OF mv that]] by simp
qed

text \<open>A pass ends with every block done, and the next starts with only the entry done.\<close>

lemma dom_inv_restart:
  assumes num: "numbered preds po" and inv: "dom_inv preds po 0 par"
  shows "dom_inv preds po (po 0) par"
proof -
  have "forward preds po (po 0) par"
    using dom_invD(6) [OF inv] by (auto simp: forward_def follows_def)
  moreover have "upward preds po (po 0) par" using dom_invD(2) [OF inv] by (auto simp: upward_def)
  ultimately show ?thesis using inv by (simp add: dom_inv_def)
qed

lemma dom_inv_init:
  assumes "numbered preds po"
  shows "dom_inv preds po (po 0) [0 \<mapsto> 0]"
proof -
  have "tree preds po [0 \<mapsto> 0]" by (auto simp: tree_def split: if_splits)
  moreover have "covers preds [0 \<mapsto> 0]"
  proof -
    have "a = 0" if "doms preds a 0" for a
      using that by (auto simp: doms_def reach_avoiding_def)
    moreover have "anc [0 \<mapsto> 0] 0 0" by (rule anc.anc_refl [of _ _ 0]) simp
    ultimately have "anc [0 \<mapsto> 0] a 0" if "doms preds a 0" for a using that by metis
    then show ?thesis by (auto simp: covers_def split: if_splits)
  qed
  moreover have "upward preds po (po 0) [0 \<mapsto> 0]"
  proof -
    have "c = 0" if "reached preds c" "po 0 \<le> po c" for c
      using numberedD(2) [OF assms that(1)] that(2) by force
    then show ?thesis unfolding upward_def by (auto dest: less_imp_le split: if_splits)
  qed
  ultimately show ?thesis
    by (auto simp: dom_inv_def low_tree_def not_higher_def forward_def split: if_splits)
qed

section \<open>What a fixed point is\<close>

text \<open>When no block moves any more, the ancestors of a block are its dominators.\<close>

lemma fixpoint_dominators:
  assumes num: "numbered preds po" and inv: "dom_inv preds po 0 par"
    and fix_: "\<And>b x. b \<noteq> 0 \<Longrightarrow> par b = Some x \<Longrightarrow> common preds par b x"
  shows "anc par a b \<longleftrightarrow> doms preds a b"
proof
  note tr = dom_invD(1) [OF inv] and up = dom_invD(2) [OF inv, unfolded upward_def]
  show "anc par a b" if "doms preds a b"
    using that dom_invD(4) [OF inv] up by (auto simp: covers_def doms_def)
  assume ab: "anc par a b"
  have "reached preds c \<and> \<not> anc par a c"
    if "(\<lambda>u v. pred_edge preds u v \<and> v \<noteq> a)\<^sup>*\<^sup>* 0 c" "a \<noteq> 0" for c
    using that
  proof (induction rule: rtranclp_induct)
    case base
    then show ?case using anc_entry [OF tr] by simp
  next
    case (step u v)
    have reach: "reached preds v" using step by (auto intro: rtranclp.rtrancl_into_rtrancl)
    then obtain y where y: "par v = Some y" using up by auto
    show ?case
    proof (intro conjI notI reach)
      assume "anc par a v"
      then have "v \<noteq> 0" "anc par a y" using anc_cases [OF tr _ y] step.hyps(2) by auto
      moreover have "par u \<noteq> None" using up step by auto
      ultimately have "anc par a u" using fix_ [OF _ y] step.hyps(2) by (auto simp: common_def intro: anc_trans)
      then show False using step by simp
    qed
  qed
  then have "\<not> reach_avoiding preds a b" using ab by (auto simp: reach_avoiding_def)
  then show "doms preds a b" using anc_par [OF ab] treeD(2) [OF tr] by (auto simp: doms_def)
qed

end
