(* ===== verification/Rpo.thy ===== *)
theory Rpo
  imports Cfg
begin

text \<open>
  \<open>crates/arandu_middle/src/amir/rpo.rs\<close>: the reverse post-order of a function's blocks, by a
  depth-first search with an explicit stack of suspended frames (block, next successor). The head of
  the list is the top of the stack; \<open>visited\<close> has one flag per block.
\<close>

text \<open>
  The index of the successor a frame looks at next. In the reversed order the source subtracts with
  wrap-around; past the last successor that gives an index beyond every slice, hence no successor.
\<close>

definition successor_at :: "bool \<Rightarrow> block_id list \<Rightarrow> nat \<Rightarrow> block_id option" where
  "successor_at reverse_successors ss next =
     (if next < length ss
      then Some (ss ! (if reverse_successors then length ss - (next + 1) else next))
      else None)"

function rpo_loop ::
  "block_id list list \<Rightarrow> bool \<Rightarrow> bool list \<Rightarrow> (block_id \<times> nat) list \<Rightarrow> block_id list \<Rightarrow>
   block_id list option" where
  "rpo_loop succs reverse_successors visited [] post = Some post"
| "rpo_loop succs reverse_successors visited ((b, next) # stack) post =
     (case vec_get succs b of
        None \<Rightarrow> None
      | Some ss \<Rightarrow>
          (case successor_at reverse_successors ss next of
             Some s \<Rightarrow>
               if s < length visited \<and> \<not> visited ! s
               then rpo_loop succs reverse_successors (visited[s := True])
                      ((s, 0) # (b, Suc next) # stack) post
               else rpo_loop succs reverse_successors visited ((b, Suc next) # stack) post
           | None \<Rightarrow> rpo_loop succs reverse_successors visited stack (post @ [b])))"
  by pat_completeness auto

definition rpo_measure ::
  "block_id list list \<times> bool \<times> bool list \<times> (block_id \<times> nat) list \<times> block_id list \<Rightarrow> nat \<times> nat" where
  "rpo_measure = (\<lambda>(succs, _, visited, stack, _).
     (count_list visited False,
      length stack + sum_list (map (\<lambda>(b, next). length (succs ! b) - next) stack)))"

lemma count_False_update:
  "s < length v \<Longrightarrow> \<not> v ! s \<Longrightarrow> count_list (v[s := True]) False < count_list v False"
  using count_list_update [of s v True False] by simp

lemma successor_at_Some: "successor_at r ss k = Some s \<Longrightarrow> k < length ss \<and> s \<in> set ss"
  by (auto simp: successor_at_def split: if_splits)

termination rpo_loop
  by (relation "inv_image (less_than <*lex*> less_than) rpo_measure")
    (auto simp: rpo_measure_def vec_get_def count_False_update dest!: successor_at_Some
      split: if_splits)

declare rpo_loop.simps(2) [simp del]

definition rpo_traverse :: "'op amir_func \<Rightarrow> bool \<Rightarrow> block_id list option" where
  "rpo_traverse func reverse_successors =
     (let n = length (af_blocks func) in
      if n = 0 then Some []
      else map_option rev (rpo_loop (cfg_successors (af_cfg func)) reverse_successors
             ((replicate n False)[0 := True]) [(0, 0)] []))"

definition reverse_post_order :: "'op amir_func \<Rightarrow> block_id list option" where
  "reverse_post_order func = rpo_traverse func False"

definition reverse_post_order_body_first :: "'op amir_func \<Rightarrow> block_id list option" where
  "reverse_post_order_body_first func = rpo_traverse func True"

section \<open>The invariant of the search\<close>

definition succ_edge :: "block_id list list \<Rightarrow> nat \<Rightarrow> block_id \<Rightarrow> block_id \<Rightarrow> bool" where
  "succ_edge succs n u v \<longleftrightarrow> u < n \<and> v < n \<and> v \<in> set (succs ! u)"

text \<open>The stack is a path of the graph, its top the last block.\<close>

fun stack_path :: "block_id list list \<Rightarrow> nat \<Rightarrow> (block_id \<times> nat) list \<Rightarrow> bool" where
  "stack_path succs n (x # y # st) \<longleftrightarrow> succ_edge succs n (fst y) (fst x) \<and> stack_path succs n (y # st)"
| "stack_path succs n _ \<longleftrightarrow> True"

definition finished_ok ::
  "block_id list list \<Rightarrow> nat \<Rightarrow> bool list \<Rightarrow> block_id list \<Rightarrow> bool" where
  "finished_ok succs n visited post \<longleftrightarrow>
     (\<forall>i < length post. \<forall>v. succ_edge succs n (post ! i) v \<longrightarrow> visited ! v \<and>
        ((\<exists>j < i. post ! j = v) \<or> (succ_edge succs n)\<^sup>*\<^sup>* v (post ! i)))"

definition frames_ok ::
  "block_id list list \<Rightarrow> bool \<Rightarrow> bool list \<Rightarrow> (block_id \<times> nat) list \<Rightarrow> bool" where
  "frames_ok succs r visited stack \<longleftrightarrow>
     (\<forall>(b, k) \<in> set stack. \<forall>j < k. \<forall>s. successor_at r (succs ! b) j = Some s \<longrightarrow>
        s < length visited \<longrightarrow> visited ! s)"

definition dfs_inv ::
  "block_id list list \<Rightarrow> bool \<Rightarrow> bool list \<Rightarrow> (block_id \<times> nat) list \<Rightarrow> block_id list \<Rightarrow> bool" where
  "dfs_inv succs r visited stack post \<longleftrightarrow>
     length visited \<le> length succs \<and>
     (\<forall>b < length visited. visited ! b \<longleftrightarrow> b \<in> set (post @ map fst stack)) \<and>
     (\<forall>b \<in> set (post @ map fst stack). b < length visited \<and>
        (succ_edge succs (length visited))\<^sup>*\<^sup>* 0 b) \<and>
     distinct (post @ map fst stack) \<and> stack_path succs (length visited) stack \<and>
     frames_ok succs r visited stack \<and> finished_ok succs (length visited) visited post \<and>
     (stack \<noteq> [] \<longrightarrow> fst (last stack) = 0) \<and> (stack = [] \<longrightarrow> post \<noteq> [] \<and> last post = 0)"

lemma dfs_invD:
  assumes "dfs_inv succs r visited stack post"
  shows "length visited \<le> length succs"
    "\<And>b. b < length visited \<Longrightarrow> visited ! b \<longleftrightarrow> b \<in> set (post @ map fst stack)"
    "\<And>b. b \<in> set (post @ map fst stack) \<Longrightarrow> b < length visited"
    "\<And>b. b \<in> set (post @ map fst stack) \<Longrightarrow> (succ_edge succs (length visited))\<^sup>*\<^sup>* 0 b"
    "distinct (post @ map fst stack)" "stack_path succs (length visited) stack"
    "frames_ok succs r visited stack" "finished_ok succs (length visited) visited post"
    "stack \<noteq> [] \<Longrightarrow> fst (last stack) = 0" "stack = [] \<Longrightarrow> post \<noteq> [] \<and> last post = 0"
  using assms unfolding dfs_inv_def by blast+

lemma successor_at_mem:
  assumes "s \<in> set ss"
  obtains j where "j < length ss" "successor_at r ss j = Some s"
proof -
  from assms obtain i where i: "i < length ss" "ss ! i = s" by (auto simp: in_set_conv_nth)
  then have "successor_at r ss (if r then length ss - Suc i else i) = Some s"
    by (auto simp: successor_at_def)
  with i show ?thesis using that by (metis successor_at_Some)
qed

lemma stack_path_reach:
  "stack_path succs n ((b, k) # st) \<Longrightarrow> a \<in> set (map fst ((b, k) # st)) \<Longrightarrow>
     (succ_edge succs n)\<^sup>*\<^sup>* a b"
proof (induction st arbitrary: b k)
  case (Cons y st)
  obtain c l where y: "y = (c, l)" by fastforce
  show ?case
  proof (cases "a = b")
    case False
    then have "(succ_edge succs n)\<^sup>*\<^sup>* a c" using Cons.prems y by (intro Cons.IH [of c l]) auto
    moreover have "succ_edge succs n c b" using Cons.prems(1) y by simp
    ultimately show ?thesis by (rule rtranclp.rtrancl_into_rtrancl)
  qed simp
qed simp

text \<open>A step that visits a new block, one that skips a visited one, one that finishes a block.\<close>

lemma dfs_inv_push:
  assumes inv: "dfs_inv succs r visited ((b, k) # st) post"
    and s: "successor_at r (succs ! b) k = Some s" "s < length visited" "\<not> visited ! s"
  shows "dfs_inv succs r (visited[s := True]) ((s, 0) # (b, Suc k) # st) post"
proof -
  note d = dfs_invD [OF inv]
  let ?n = "length visited"
  have b: "b < ?n" using d(3) [of b] by simp
  have edge: "succ_edge succs ?n b s"
    using successor_at_Some [OF s(1)] s(2) b by (simp add: succ_edge_def)
  have new: "s \<notin> set (post @ map fst ((b, k) # st))" using d(2) [OF s(2)] s(3) by simp
  have "(succ_edge succs ?n)\<^sup>*\<^sup>* 0 s"
    using d(4) [of b] edge by (auto intro: rtranclp.rtrancl_into_rtrancl)
  then have reach: "c < ?n \<and> (succ_edge succs ?n)\<^sup>*\<^sup>* 0 c"
    if "c \<in> set (post @ map fst ((s, 0) # (b, Suc k) # st))" for c
    using that d(3,4) [of c] s(2) by auto
  have mem: "(visited[s := True]) ! c \<longleftrightarrow> c \<in> set (post @ map fst ((s, 0) # (b, Suc k) # st))"
    if "c < ?n" for c
    using d(2) [OF that] s(2) by (auto simp: nth_list_update)
  have "frames_ok succs r (visited[s := True]) ((s, 0) # (b, Suc k) # st)"
    using d(7) s(1,2) by (auto simp: frames_ok_def nth_list_update less_Suc_eq)
  moreover have "finished_ok succs ?n (visited[s := True]) post"
    using d(8) s(2) by (auto simp: finished_ok_def nth_list_update)
  moreover have "stack_path succs ?n ((s, 0) # (b, Suc k) # st)"
    using d(6) edge by (cases st) auto
  moreover have "distinct (post @ map fst ((s, 0) # (b, Suc k) # st))" using d(5) new by auto
  ultimately show ?thesis
    unfolding dfs_inv_def using d(1,9) reach mem by (auto split: if_splits)
qed

lemma dfs_inv_skip:
  assumes inv: "dfs_inv succs r visited ((b, k) # st) post"
    and s: "successor_at r (succs ! b) k = Some s" "\<not> (s < length visited \<and> \<not> visited ! s)"
  shows "dfs_inv succs r visited ((b, Suc k) # st) post"
proof -
  note d = dfs_invD [OF inv]
  have "frames_ok succs r visited ((b, Suc k) # st)"
    using d(7) s by (auto simp: frames_ok_def less_Suc_eq)
  moreover have "stack_path succs (length visited) ((b, Suc k) # st)" using d(6) by (cases st) auto
  ultimately show ?thesis
    unfolding dfs_inv_def using d(1-5,8,9) by (auto split: if_splits)
qed

lemma dfs_inv_pop:
  assumes inv: "dfs_inv succs r visited ((b, k) # st) post"
    and s: "successor_at r (succs ! b) k = None"
  shows "dfs_inv succs r visited st (post @ [b])"
proof -
  note d = dfs_invD [OF inv]
  let ?n = "length visited"
  have b: "b < ?n" using d(3) [of b] by simp
  have done_b: "visited ! v \<and> (v \<in> set post \<or> (succ_edge succs ?n)\<^sup>*\<^sup>* v b)" if e: "succ_edge succs ?n b v" for v
  proof -
    have "v \<in> set (succs ! b)" "v < ?n" using e by (auto simp: succ_edge_def)
    then obtain j where j: "j < length (succs ! b)" "successor_at r (succs ! b) j = Some v"
      by (metis successor_at_mem)
    moreover have "length (succs ! b) \<le> k" using s by (auto simp: successor_at_def split: if_splits)
    ultimately have "j < k" by simp
    then have v: "visited ! v" using d(7) j(2) \<open>v < ?n\<close> by (auto simp: frames_ok_def)
    moreover have "v \<in> set post \<or> v \<in> set (map fst ((b, k) # st))" using d(2) [OF \<open>v < ?n\<close>] v by auto
    ultimately show ?thesis using stack_path_reach [OF d(6)] by blast
  qed
  have fin: "finished_ok succs ?n visited (post @ [b])"
    unfolding finished_ok_def
  proof (intro allI impI)
    fix i v assume i: "i < length (post @ [b])" and e: "succ_edge succs ?n ((post @ [b]) ! i) v"
    show "visited ! v \<and> ((\<exists>j < i. (post @ [b]) ! j = v) \<or> (succ_edge succs ?n)\<^sup>*\<^sup>* v ((post @ [b]) ! i))"
    proof (cases "i < length post")
      case True
      then have eq: "(post @ [b]) ! j = post ! j" if "j \<le> i" for j using that by (simp add: nth_append)
      have "visited ! v \<and> ((\<exists>j < i. post ! j = v) \<or> (succ_edge succs ?n)\<^sup>*\<^sup>* v (post ! i))"
        using d(8) e True unfolding eq [OF order_refl] finished_ok_def by blast
      then show ?thesis using eq by (metis less_imp_le_nat order_refl)
    next
      case False
      then have "i = length post" using i by simp
      then show ?thesis using done_b [of v] e by (auto simp: nth_append in_set_conv_nth)
    qed
  qed
  have "stack_path succs ?n st" using d(6) by (cases st) auto
  moreover have "frames_ok succs r visited st" using d(7) by (auto simp: frames_ok_def)
  ultimately show ?thesis
    unfolding dfs_inv_def using d(1-5,9) fin by (auto split: if_splits)
qed

lemma rpo_loop_inv:
  "dfs_inv succs r visited stack post \<Longrightarrow>
   \<exists>visited' post'. rpo_loop succs r visited stack post = Some post' \<and> length visited' = length visited \<and>
     dfs_inv succs r visited' [] post'"
proof (induction succs r visited stack post rule: rpo_loop.induct)
  case (2 succs r visited b k st post)
  have b: "vec_get succs b = Some (succs ! b)"
    using dfs_invD(1) [OF "2.prems"] dfs_invD(3) [OF "2.prems", of b] by (simp add: vec_get_def)
  show ?case
  proof (cases "successor_at r (succs ! b) k")
    case None
    then show ?thesis
      using "2.IH"(1) [OF b None dfs_inv_pop [OF "2.prems" None]] b by (simp add: rpo_loop.simps(2) [of succs r visited b k st post])
  next
    case (Some s)
    show ?thesis
    proof (cases "s < length visited \<and> \<not> visited ! s")
      case True
      then show ?thesis
        using "2.IH"(2) [OF b Some True dfs_inv_push [OF "2.prems" Some]] b Some
        by (simp add: rpo_loop.simps(2) [of succs r visited b k st post])
    next
      case False
      then show ?thesis
        using "2.IH"(3) [OF b Some False dfs_inv_skip [OF "2.prems" Some False]] b Some
        by (auto simp: rpo_loop.simps(2) [of succs r visited b k st post])
    qed
  qed
qed auto

text \<open>
  The finished blocks followed by the stack, top first: every block but the entry has a predecessor
  further on. A block is finished by moving the border between the two.
\<close>

fun parents_later :: "(block_id \<Rightarrow> block_id \<Rightarrow> bool) \<Rightarrow> block_id list \<Rightarrow> bool" where
  "parents_later E [] \<longleftrightarrow> True"
| "parents_later E (b # bs) \<longleftrightarrow> (b = 0 \<or> (\<exists>p \<in> set bs. E p b)) \<and> parents_later E bs"

lemma parents_later_insert:
  "parents_later E (xs @ b # ys) \<Longrightarrow> E b s \<Longrightarrow> parents_later E (xs @ s # b # ys)"
  by (induction xs) auto

lemma parents_later_nth:
  "parents_later E xs \<Longrightarrow> i < length xs \<Longrightarrow> xs ! i \<noteq> 0 \<Longrightarrow> \<exists>j. i < j \<and> j < length xs \<and> E (xs ! j) (xs ! i)"
proof (induction xs arbitrary: i)
  case (Cons b bs)
  show ?case
  proof (cases i)
    case 0
    then obtain p where "p \<in> set bs" "E p b" using Cons.prems by auto
    then show ?thesis using 0 by (metis Suc_less_eq in_set_conv_nth length_Cons nth_Cons_0 nth_Cons_Suc zero_less_Suc)
  next
    case (Suc k)
    then obtain j where "k < j" "j < length bs" "E (bs ! j) (bs ! k)" using Cons.IH [of k] Cons.prems by auto
    then show ?thesis using Suc by (intro exI [of _ "Suc j"]) simp
  qed
qed simp

lemma rpo_loop_parents:
  "dfs_inv succs r visited stack post \<Longrightarrow>
   parents_later (succ_edge succs (length visited)) (post @ map fst stack) \<Longrightarrow>
   rpo_loop succs r visited stack post = Some post' \<Longrightarrow>
   parents_later (succ_edge succs (length visited)) post'"
proof (induction succs r visited stack post rule: rpo_loop.induct)
  case (2 succs r visited b k st post)
  note d = dfs_invD [OF "2.prems"(1)] and run = "2.prems"(3) [unfolded rpo_loop.simps(2) [of succs r visited b k st post]]
  have b: "b < length visited" using d(3) [of b] by simp
  have get: "vec_get succs b = Some (succs ! b)" using d(1) b by (simp add: vec_get_def)
  show ?case
  proof (cases "successor_at r (succs ! b) k")
    case None
    then show ?thesis
      using "2.IH"(1) [OF get None dfs_inv_pop [OF "2.prems"(1) None]] "2.prems"(2) run get by simp
  next
    case (Some s)
    show ?thesis
    proof (cases "s < length visited \<and> \<not> visited ! s")
      case True
      have "succ_edge succs (length visited) b s"
        using successor_at_Some [OF Some] True b by (simp add: succ_edge_def)
      then have "parents_later (succ_edge succs (length (visited[s := True])))
          (post @ map fst ((s, 0) # (b, Suc k) # st))"
        using parents_later_insert "2.prems"(2) by simp
      then show ?thesis
        using "2.IH"(2) [OF get Some True dfs_inv_push [OF "2.prems"(1) Some]] True run get Some by simp
    next
      case False
      then show ?thesis
        using "2.IH"(3) [OF get Some False dfs_inv_skip [OF "2.prems"(1) Some False]] "2.prems"(2) run get Some
        by (simp split: if_splits)
    qed
  qed
qed simp

section \<open>The order computed\<close>

lemma dfs_inv_init:
  assumes "0 < n" "n \<le> length succs"
  shows "dfs_inv succs r ((replicate n False)[0 := True]) [(0, 0)] []"
  using assms
  by (auto simp: dfs_inv_def frames_ok_def finished_ok_def nth_list_update)

lemma dfs_done:
  assumes "dfs_inv succs r visited [] post"
  shows "distinct post" "last post = 0" "post \<noteq> []"
    "set post = {b. (succ_edge succs (length visited))\<^sup>*\<^sup>* 0 b}"
    "finished_ok succs (length visited) visited post"
proof -
  let ?E = "succ_edge succs (length visited)"
  note d = dfs_invD [OF assms]
  show "distinct post" "last post = 0" "post \<noteq> []" "finished_ok succs (length visited) visited post"
    using d(5,8,10) by auto
  have zero: "0 \<in> set post" using d(10) last_in_set by fastforce
  have step: "v \<in> set post" if "u \<in> set post" "?E u v" for u v
  proof -
    from that(1) obtain i where "i < length post" "post ! i = u" by (auto simp: in_set_conv_nth)
    then have "visited ! v" using d(8) that(2) by (auto simp: finished_ok_def)
    moreover have "v < length visited" using that(2) by (simp add: succ_edge_def)
    ultimately show ?thesis using d(2) [of v] by simp
  qed
  have "b \<in> set post" if "?E\<^sup>*\<^sup>* 0 b" for b
    using that by (induction rule: rtranclp_induct) (rule zero, rule step)
  then show "set post = {b. ?E\<^sup>*\<^sup>* 0 b}" using d(4) by auto
qed

lemma rpo_traverse_spec:
  assumes "af_blocks func \<noteq> []" "length (af_blocks func) \<le> length (cfg_successors (af_cfg func))"
  defines "E \<equiv> succ_edge (cfg_successors (af_cfg func)) (length (af_blocks func))"
  obtains ord where "rpo_traverse func r = Some ord" "distinct ord" "hd ord = 0" "ord \<noteq> []"
    "set ord = {b. E\<^sup>*\<^sup>* 0 b}"
    "\<And>i v. i < length ord \<Longrightarrow> E (ord ! i) v \<Longrightarrow>
       (\<exists>j. i < j \<and> j < length ord \<and> ord ! j = v) \<or> E\<^sup>*\<^sup>* v (ord ! i)"
    "\<And>i. i < length ord \<Longrightarrow> ord ! i \<noteq> 0 \<Longrightarrow> \<exists>j < i. E (ord ! j) (ord ! i)"
proof -
  let ?n = "length (af_blocks func)" and ?S = "cfg_successors (af_cfg func)"
  have n: "0 < ?n" using assms(1) by simp
  from rpo_loop_inv [OF dfs_inv_init [OF n assms(2), of r]] obtain vis post
    where run: "rpo_loop ?S r ((replicate ?n False)[0 := True]) [(0, 0)] [] = Some post"
      and len: "length vis = ?n" and inv: "dfs_inv ?S r vis [] post" by auto
  note d = dfs_done [OF inv, unfolded len, folded E_def]
  have later: "parents_later E post"
    using rpo_loop_parents [OF dfs_inv_init [OF n assms(2), of r] _ run] by (simp add: E_def)
  show ?thesis
  proof (rule that [of "rev post"])
    show "rpo_traverse func r = Some (rev post)" using run assms(1) by (simp add: rpo_traverse_def)
    show "hd (rev post) = 0" using d(2,3) by (simp add: hd_rev)
    fix i v assume i: "i < length (rev post)" and e: "E (rev post ! i) v"
    let ?k = "length post - Suc i"
    have k: "?k < length post" "rev post ! i = post ! ?k" using i by (auto simp: rev_nth)
    then consider j where "j < ?k" "post ! j = v" | "E\<^sup>*\<^sup>* v (post ! ?k)"
      using d(5) e unfolding finished_ok_def E_def by metis
    then show "(\<exists>j. i < j \<and> j < length (rev post) \<and> rev post ! j = v) \<or> E\<^sup>*\<^sup>* v (rev post ! i)"
    proof cases
      case (1 j)
      then have "rev post ! (length post - Suc j) = v" "i < length post - Suc j"
        using k(1) i by (auto simp: rev_nth)
      then show ?thesis using k(1) 1 by (intro disjI1 exI [of _ "length post - Suc j"]) auto
    next
      case 2
      then show ?thesis using k(2) by simp
    qed
  next
    fix i assume i: "i < length (rev post)" "rev post ! i \<noteq> 0"
    let ?k = "length post - Suc i"
    obtain j where j: "?k < j" "j < length post" "E (post ! j) (post ! ?k)"
      using parents_later_nth [OF later, of ?k] i by (fastforce simp: rev_nth)
    then show "\<exists>j < i. E (rev post ! j) (rev post ! i)"
      using i by (intro exI [of _ "length post - Suc j"]) (auto simp: rev_nth)
  qed (use d in auto)
qed

lemma compute_cfg_succ_edge:
  "succ_edge (cfg_successors (compute_cfg_edges blocks)) (length blocks) = block_edge blocks"
  by (intro ext) (auto simp: succ_edge_def block_edge_def compute_cfg_successors)

lemma computed_cfg:
  assumes "af_cfg func = compute_cfg_edges (af_blocks func)"
  shows "length (af_blocks func) \<le> length (cfg_successors (af_cfg func))"
    "succ_edge (cfg_successors (af_cfg func)) (length (af_blocks func)) = block_edge (af_blocks func)"
  by (simp_all add: assms cfg_countD(1) [OF compute_cfg_count] compute_cfg_succ_edge)

section \<open>Properties\<close>

text \<open>
  C17: both traversals terminate without a panic on every function whose edge lists were computed from
  its blocks, and return the reachable blocks, each once, the entry first, such that an edge leads
  forward in the order unless its target reaches its source: only the edges of cycles go back. Every
  block but the entry has a predecessor in front of it.
\<close>

theorem rpo_orders_reachable_blocks:
  assumes "af_blocks func \<noteq> []" "af_cfg func = compute_cfg_edges (af_blocks func)"
  shows "\<exists>ord. rpo_traverse func r = Some ord \<and> distinct ord \<and> hd ord = 0 \<and>
    set ord = bs_elems (reachable_blocks_dense func) \<and>
    (\<forall>i < length ord. \<forall>v. block_edge (af_blocks func) (ord ! i) v \<longrightarrow>
       (\<exists>j. i < j \<and> j < length ord \<and> ord ! j = v) \<or> (block_edge (af_blocks func))\<^sup>*\<^sup>* v (ord ! i)) \<and>
    (\<forall>i < length ord. ord ! i \<noteq> 0 \<longrightarrow> (\<exists>j < i. block_edge (af_blocks func) (ord ! j) (ord ! i)))"
proof -
  note cfg = computed_cfg [OF assms(2)]
  show ?thesis
    by (rule rpo_traverse_spec [OF assms(1) cfg(1), of r, unfolded cfg(2)])
      (use assms(1) reachable_blocks_elems [of func] in auto)
qed

definition ex_func :: "unit amir_func" where
  "ex_func = \<lparr>af_blocks = ex_blocks, af_cfg = compute_cfg_edges ex_blocks\<rparr>"

theorem rpo_orders_reachable_blocks_witness:
  "\<exists>ord. rpo_traverse ex_func False = Some ord \<and> hd ord = 0 \<and>
     set ord = bs_elems (reachable_blocks_dense ex_func)"
  using rpo_orders_reachable_blocks [of ex_func False] by (auto simp: ex_func_def ex_blocks_def)

text \<open>
  On a graph without cycles among the reachable blocks the order is topological: every edge between
  listed blocks goes forward.
\<close>

theorem rpo_topological:
  assumes "af_blocks func \<noteq> []" "af_cfg func = compute_cfg_edges (af_blocks func)"
    and acyclic: "\<And>u v. block_edge (af_blocks func) u v \<Longrightarrow> \<not> (block_edge (af_blocks func))\<^sup>*\<^sup>* v u"
    and "rpo_traverse func r = Some ord" "i < length ord" "block_edge (af_blocks func) (ord ! i) v"
  shows "\<exists>j. i < j \<and> j < length ord \<and> ord ! j = v"
proof -
  note cfg = computed_cfg [OF assms(2)]
  show ?thesis
    by (rule rpo_traverse_spec [OF assms(1) cfg(1), of r, unfolded cfg(2)])
      (use assms(4-6) acyclic in \<open>metis option.inject\<close>)
qed

lemma ex_edge_less: "block_edge ex_blocks u v \<Longrightarrow> u < v"
  by (auto simp: block_edge_def ex_blocks_def less_Suc_eq eval_nat_numeral)

lemma ex_path_le: "(block_edge ex_blocks)\<^sup>*\<^sup>* u v \<Longrightarrow> u \<le> v"
  by (induction rule: rtranclp_induct) (auto dest: ex_edge_less)

lemma ex_rpo: "rpo_traverse ex_func False = Some [0, 1, 2]"
  by (simp add: rpo_traverse_def ex_func_def ex_blocks_cfg, simp add: ex_blocks_def)
    (simp add: rpo_loop.simps(2) vec_get_def successor_at_def eval_nat_numeral)

theorem rpo_topological_witness:
  "\<exists>j. 0 < j \<and> j < length [0, 1, 2 :: nat] \<and> [0, 1, 2 :: nat] ! j = 1"
proof (rule rpo_topological [of ex_func False])
  show "\<not> (block_edge (af_blocks ex_func))\<^sup>*\<^sup>* v u" if "block_edge (af_blocks ex_func) u v" for u v
    using that ex_edge_less ex_path_le by (fastforce simp: ex_func_def)
  show "rpo_traverse ex_func False = Some [0, 1, 2]" by (rule ex_rpo)
  show "block_edge (af_blocks ex_func) ([0, 1, 2] ! 0) 1"
    by (simp add: block_edge_def ex_func_def ex_blocks_def)
qed (simp_all add: ex_func_def ex_blocks_def)

end
