(* ===== verification/Dominators.thy ===== *)
theory Dominators
  imports DomTree Rpo BitMatrix
begin

text \<open>
  \<open>crates/arandu_middle/src/amir/dominators.rs\<close>: the dominator tree of a function by iteration over the
  reverse post-order, its numbering for constant-time queries, and the dominance frontiers. A loop whose
  end is not evident is a partial function into \<open>option\<close>; \<^const>\<open>None\<close> stands for a panic or for not
  returning, and the theorems show that neither happens.
\<close>

section \<open>The operations\<close>

record dominators =
  idoms :: "block_id option list"
  pre_order :: "u32 list"
  post_order :: "u32 list"

definition func_predecessors :: "'op amir_func \<Rightarrow> block_id \<Rightarrow> block_id list option" where
  "func_predecessors func block = vec_get (cfg_predecessors (af_cfg func)) block"

text \<open>The inner loops of \<open>intersect\<close>: one finger climbs until it is no longer below the other.\<close>

partial_function (option) climb ::
  "nat list \<Rightarrow> block_id option list \<Rightarrow> block_id \<Rightarrow> block_id \<Rightarrow> block_id option" where
  "climb post_order_indices ids b1 b2 =
     (case vec_get post_order_indices b1 of
        None \<Rightarrow> None
      | Some i1 \<Rightarrow>
          (case vec_get post_order_indices b2 of
             None \<Rightarrow> None
           | Some i2 \<Rightarrow>
               if i1 < i2
               then (case vec_get ids b1 of
                       None \<Rightarrow> None
                     | Some None \<Rightarrow> None
                     | Some (Some p) \<Rightarrow> climb post_order_indices ids p b2)
               else Some b1))"

partial_function (option) intersect ::
  "nat list \<Rightarrow> block_id option list \<Rightarrow> block_id \<Rightarrow> block_id \<Rightarrow> block_id option" where
  "intersect post_order_indices ids b1 b2 =
     (if b1 \<noteq> b2
      then (case climb post_order_indices ids b1 b2 of
              None \<Rightarrow> None
            | Some b1' \<Rightarrow>
                (case climb post_order_indices ids b2 b1' of
                   None \<Rightarrow> None
                 | Some b2' \<Rightarrow> intersect post_order_indices ids b1' b2'))
      else Some b1)"

fun first_processed :: "block_id option list \<Rightarrow> block_id list \<Rightarrow> block_id option option" where
  "first_processed ids [] = Some None"
| "first_processed ids (p # ps) =
     (case vec_get ids p of
        None \<Rightarrow> None
      | Some d \<Rightarrow> if d \<noteq> None then Some (Some p) else first_processed ids ps)"

fun meet_preds ::
  "nat list \<Rightarrow> block_id option list \<Rightarrow> block_id list \<Rightarrow> block_id \<Rightarrow> block_id option" where
  "meet_preds post_order_indices ids [] new_idom = Some new_idom"
| "meet_preds post_order_indices ids (p # ps) new_idom =
     (if p \<noteq> new_idom
      then (case vec_get ids p of
              None \<Rightarrow> None
            | Some d \<Rightarrow>
                if d \<noteq> None
                then (case intersect post_order_indices ids p new_idom of
                        None \<Rightarrow> None
                      | Some x \<Rightarrow> meet_preds post_order_indices ids ps x)
                else meet_preds post_order_indices ids ps new_idom)
      else meet_preds post_order_indices ids ps new_idom)"

text \<open>The body of the loop over the order, the loop, and the loop until nothing changes.\<close>

definition process_block ::
  "'op amir_func \<Rightarrow> nat list \<Rightarrow> block_id \<Rightarrow> block_id option list \<times> bool \<Rightarrow>
   (block_id option list \<times> bool) option" where
  "process_block func post_order_indices b = (\<lambda>(ids, changed).
     (case func_predecessors func b of
        None \<Rightarrow> None
      | Some preds \<Rightarrow>
          (case first_processed ids preds of
             None \<Rightarrow> None
           | Some None \<Rightarrow> Some (ids, changed)
           | Some (Some p) \<Rightarrow>
               (case meet_preds post_order_indices ids preds p of
                  None \<Rightarrow> None
                | Some new_idom \<Rightarrow>
                    (case vec_get ids b of
                       None \<Rightarrow> None
                     | Some d \<Rightarrow>
                         if d \<noteq> Some new_idom then Some (ids[b := Some new_idom], True)
                         else Some (ids, changed))))))"

fun dom_pass ::
  "'op amir_func \<Rightarrow> nat list \<Rightarrow> block_id list \<Rightarrow> block_id option list \<times> bool \<Rightarrow>
   (block_id option list \<times> bool) option" where
  "dom_pass func post_order_indices [] st = Some st"
| "dom_pass func post_order_indices (b # rpo) st =
     (case process_block func post_order_indices b st of
        None \<Rightarrow> None
      | Some st' \<Rightarrow> dom_pass func post_order_indices rpo st')"

partial_function (option) dom_iterate ::
  "'op amir_func \<Rightarrow> nat list \<Rightarrow> block_id list \<Rightarrow> block_id option list \<Rightarrow> block_id option list option" where
  "dom_iterate func post_order_indices rpo ids =
     (case dom_pass func post_order_indices rpo (ids, False) of
        None \<Rightarrow> None
      | Some (ids', changed) \<Rightarrow>
          if changed then dom_iterate func post_order_indices rpo ids' else Some ids')"

text \<open>Step 3: the children of every block, and the traversal of the tree that numbers it.\<close>

fun collect_children ::
  "nat \<Rightarrow> block_id option list \<Rightarrow> block_id list list \<Rightarrow> block_id list list option" where
  "collect_children v [] children = Some children"
| "collect_children v (idom # rest) children =
     (case idom of
        None \<Rightarrow> collect_children (Suc v) rest children
      | Some u \<Rightarrow>
          if u \<noteq> v
          then if u < length children
               then collect_children (Suc v) rest (children[u := children ! u @ [v]])
               else None
          else collect_children (Suc v) rest children)"

partial_function (option) number_tree ::
  "block_id list list \<Rightarrow> (block_id \<times> nat) list \<Rightarrow> u32 list \<times> u32 list \<times> u32 \<times> u32 \<Rightarrow>
   (u32 list \<times> u32 list) option" where
  "number_tree children stack st =
     (case st of (pre, post, pre_counter, post_counter) \<Rightarrow>
      (case stack of
         [] \<Rightarrow> Some (pre, post)
       | frame # stack' \<Rightarrow>
         (case frame of (cur, child_idx) \<Rightarrow>
          (case vec_get children cur of
             None \<Rightarrow> None
           | Some cs \<Rightarrow>
               if child_idx < length cs
               then if cs ! child_idx < length pre
                    then number_tree children ((cs ! child_idx, 0) # (cur, child_idx + 1) # stack')
                           (pre[cs ! child_idx := pre_counter + 1], post, pre_counter + 1, post_counter)
                    else None
               else if cur < length post
                    then number_tree children stack'
                           (pre, post[cur := post_counter + 1], pre_counter, post_counter + 1)
                    else None))))"

fun index_blocks :: "nat \<Rightarrow> block_id list \<Rightarrow> nat list \<Rightarrow> nat list option" where
  "index_blocks idx [] indices = Some indices"
| "index_blocks idx (b # bs) indices =
     (if b < length indices then index_blocks (Suc idx) bs (indices[b := idx]) else None)"

text \<open>\<open>Vec::remove\<close> at the position of the first occurrence, if there is one.\<close>

definition remove_first :: "'a \<Rightarrow> 'a list \<Rightarrow> 'a list" where
  "remove_first x xs = (case position x xs of None \<Rightarrow> xs | Some pos \<Rightarrow> take pos xs @ drop (Suc pos) xs)"

definition number_dominators :: "block_id option list \<Rightarrow> dominators option" where
  "number_dominators ids =
     (let n = length ids in
      case collect_children 0 ids (replicate n []) of
        None \<Rightarrow> None
      | Some children \<Rightarrow>
          if 0 < n \<and> ids ! 0 \<noteq> None
          then map_option (\<lambda>(pre, post). \<lparr>idoms = ids, pre_order = pre, post_order = post\<rparr>)
                 (number_tree children [(0, 0)] ((replicate n 0)[0 := 1], replicate n 0, 1, 0))
          else Some \<lparr>idoms = ids, pre_order = replicate n 0, post_order = replicate n 0\<rparr>)"

definition dominators_new :: "'op amir_func \<Rightarrow> dominators option" where
  "dominators_new func =
     (let n = length (af_blocks func); ids = replicate n None in
      if n = 0 then Some \<lparr>idoms = ids, pre_order = [], post_order = []\<rparr>
      else
        let ids = ids[0 := Some 0] in
        case reverse_post_order func of
          None \<Rightarrow> None
        | Some full_rpo \<Rightarrow>
            (case index_blocks 0 (rev full_rpo) (replicate n 0) of
               None \<Rightarrow> None
             | Some post_order_indices \<Rightarrow>
                 (case dom_iterate func post_order_indices (remove_first 0 full_rpo) ids of
                    None \<Rightarrow> None
                  | Some ids' \<Rightarrow> number_dominators ids')))"

definition immediate_dominator :: "dominators \<Rightarrow> block_id \<Rightarrow> block_id option" where
  "immediate_dominator d block =
     (case vec_get (idoms d) block of None \<Rightarrow> None | Some idom \<Rightarrow> idom)"

definition dominates :: "dominators \<Rightarrow> block_id \<Rightarrow> block_id \<Rightarrow> bool option" where
  "dominates d a b =
     (if a = b then Some True
      else if length (idoms d) \<le> a \<or> length (idoms d) \<le> b then Some False
      else if idoms d ! a = None \<or> idoms d ! b = None then Some False
      else
        case (vec_get (pre_order d) a, vec_get (pre_order d) b) of
          (Some pre_a, Some pre_b) \<Rightarrow>
            if pre_a \<le> pre_b
            then (case (vec_get (post_order d) b, vec_get (post_order d) a) of
                    (Some post_b, Some post_a) \<Rightarrow> Some (post_b \<le> post_a)
                  | _ \<Rightarrow> None)
            else Some False
        | _ \<Rightarrow> None)"

text \<open>The frontiers: from every predecessor of a join, the blocks up to the join's parent.\<close>

partial_function (option) frontier_walk ::
  "dominators \<Rightarrow> block_id \<Rightarrow> block_id \<Rightarrow> block_id \<Rightarrow> bitmatrix \<Rightarrow> bitmatrix option" where
  "frontier_walk d block block_idom runner m =
     (if runner \<noteq> block_idom
      then (case bm_insert m runner block of
              None \<Rightarrow> None
            | Some (m', fresh) \<Rightarrow>
                (case immediate_dominator d runner of
                   None \<Rightarrow> Some m'
                 | Some next \<Rightarrow>
                     if next = runner then Some m' else frontier_walk d block block_idom next m'))
      else Some m)"

fun frontier_preds ::
  "dominators \<Rightarrow> block_id \<Rightarrow> block_id \<Rightarrow> block_id list \<Rightarrow> bitmatrix \<Rightarrow> bitmatrix option" where
  "frontier_preds d block block_idom [] m = Some m"
| "frontier_preds d block block_idom (pred # preds) m =
     (case frontier_walk d block block_idom pred m of
        None \<Rightarrow> None
      | Some m' \<Rightarrow> frontier_preds d block block_idom preds m')"

fun frontier_blocks ::
  "dominators \<Rightarrow> 'op amir_func \<Rightarrow> 'op amir_basic_block list \<Rightarrow> bitmatrix \<Rightarrow> bitmatrix option" where
  "frontier_blocks d func [] m = Some m"
| "frontier_blocks d func (block # blocks) m =
     (case func_predecessors func (bb_id block) of
        None \<Rightarrow> None
      | Some preds \<Rightarrow>
          if length preds < 2 then frontier_blocks d func blocks m
          else
            (case immediate_dominator d (bb_id block) of
               None \<Rightarrow> frontier_blocks d func blocks m
             | Some block_idom \<Rightarrow>
                 (case frontier_preds d (bb_id block) block_idom preds m of
                    None \<Rightarrow> None
                  | Some m' \<Rightarrow> frontier_blocks d func blocks m')))"

definition frontiers :: "dominators \<Rightarrow> 'op amir_func \<Rightarrow> bitmatrix option" where
  "frontiers d func =
     (case bm_new (length (af_blocks func)) (length (af_blocks func)) of
        None \<Rightarrow> None
      | Some m \<Rightarrow> frontier_blocks d func (af_blocks func) m)"

section \<open>The iteration computes dominators\<close>

text \<open>The parents held by a vector, and the fixed data of the iteration.\<close>

definition par_of :: "block_id option list \<Rightarrow> parent_map" where
  "par_of ids b = (if b < length ids then ids ! b else None)"

definition dom_env :: "'op amir_func \<Rightarrow> nat list \<Rightarrow> bool" where
  "dom_env func pol \<longleftrightarrow>
     (let preds = cfg_predecessors (af_cfg func) in
      0 < length pol \<and> length preds = length pol \<and> (\<forall>v < length pol. \<forall>u \<in> set (preds ! v). u < length pol) \<and>
      numbered preds (nth pol))"

lemma dom_envD:
  assumes "dom_env func pol"
  shows "numbered (cfg_predecessors (af_cfg func)) (nth pol)"
    and "length (cfg_predecessors (af_cfg func)) = length pol"
    and "v < length pol \<Longrightarrow> u \<in> set (cfg_predecessors (af_cfg func) ! v) \<Longrightarrow> u < length pol"
    and "0 < length pol"
  using assms by (auto simp: dom_env_def Let_def)

lemma par_of_update: "b < length ids \<Longrightarrow> par_of (ids[b := Some x]) = (par_of ids)(b \<mapsto> x)"
  by (rule ext) (simp add: par_of_def)

lemma par_of_Some: "par_of ids b = Some p \<longleftrightarrow> b < length ids \<and> ids ! b = Some p"
  by (simp add: par_of_def)

lemma par_of_get: "par_of ids b = Some p \<Longrightarrow> vec_get ids b = Some (Some p)"
  by (simp add: par_of_def vec_get_def split: if_splits)

text \<open>The two fingers climb to the nearest common ancestor.\<close>

lemma climb_spec:
  assumes "numbered preds (nth pol)" and tr: "tree preds (nth pol) (par_of ids)" and len: "length ids = length pol"
  shows "par_of ids b1 \<noteq> None \<Longrightarrow> par_of ids b2 \<noteq> None \<Longrightarrow>
    \<exists>c. climb pol ids b1 b2 = Some c \<and> anc (par_of ids) c b1 \<and> pol ! b2 \<le> pol ! c \<and>
      (\<forall>z. anc (par_of ids) z b1 \<longrightarrow> pol ! b2 \<le> pol ! z \<longrightarrow> anc (par_of ids) z c)"
proof (induction "pol ! b2 - pol ! b1" arbitrary: b1 rule: less_induct)
  case less
  obtain p q where p: "par_of ids b1 = Some p" and q: "par_of ids b2 = Some q" using less.prems by auto
  have "vec_get pol b1 = Some (pol ! b1)" "vec_get pol b2 = Some (pol ! b2)"
    using p q len by (simp_all add: vec_get_def par_of_Some)
  note unf = climb.simps [of pol ids b1 b2, unfolded this par_of_get [OF p] option.case]
  show ?case
  proof (cases "pol ! b1 < pol ! b2")
    case True
    have "b1 \<noteq> 0"
      using True numberedD(2) [OF assms(1) treeD(2) [OF tr q]] by (metis less_asym less_irrefl)
    then have up: "pol ! b1 < pol ! p" using treeD(3) [OF tr p] by simp
    have "par_of ids p \<noteq> None" using treeD(4) [OF tr p] by auto
    then obtain c where c: "climb pol ids p b2 = Some c" "anc (par_of ids) c p" "pol ! b2 \<le> pol ! c"
      "\<And>z. anc (par_of ids) z p \<Longrightarrow> pol ! b2 \<le> pol ! z \<Longrightarrow> anc (par_of ids) z c"
      using less.hyps [OF diff_less_mono2 [OF up True]] less.prems(2) by auto
    have "anc (par_of ids) z c" if "anc (par_of ids) z b1" "pol ! b2 \<le> pol ! z" for z
      using anc_cases [OF tr that(1) p] that(2) True c(4) by auto
    then show ?thesis using c unf True anc.anc_step [of "par_of ids", OF p c(2)] by auto
  next
    case False
    then show ?thesis using unf anc.anc_refl [of "par_of ids", OF p] by auto
  qed
qed

lemma intersect_spec:
  assumes num: "numbered preds (nth pol)" and tr: "tree preds (nth pol) (par_of ids)"
    and len: "length ids = length pol"
  shows "par_of ids b1 \<noteq> None \<Longrightarrow> par_of ids b2 \<noteq> None \<Longrightarrow>
    \<exists>x. intersect pol ids b1 b2 = Some x \<and> anc (par_of ids) x b1 \<and> anc (par_of ids) x b2 \<and>
      (\<forall>z. anc (par_of ids) z b1 \<longrightarrow> anc (par_of ids) z b2 \<longrightarrow> anc (par_of ids) z x)"
proof (induction "2 * pol ! 0 - (pol ! b1 + pol ! b2)" arbitrary: b1 b2 rule: less_induct)
  case less
  note unf = intersect.simps [of pol ids b1 b2]
  show ?case
  proof (cases "b1 = b2")
    case True
    then show ?thesis using less.prems unf by (auto intro: anc.anc_refl)
  next
    case False
    have le0: "pol ! b \<le> pol ! 0" if "par_of ids b \<noteq> None" for b
      using that numberedD(2) [OF num, of b] treeD(2) [OF tr] by (cases "b = 0") auto
    have ne: "pol ! b1 \<noteq> pol ! b2"
      using numberedD(1) [OF num, of b1 b2] less.prems treeD(2) [OF tr] False by auto
    obtain c1 where c1: "climb pol ids b1 b2 = Some c1" "anc (par_of ids) c1 b1" "pol ! b2 \<le> pol ! c1"
      "\<And>z. anc (par_of ids) z b1 \<Longrightarrow> pol ! b2 \<le> pol ! z \<Longrightarrow> anc (par_of ids) z c1"
      using climb_spec [OF assms less.prems] by auto
    have p1: "par_of ids c1 \<noteq> None" using anc_par_left [OF tr c1(2)] by auto
    obtain c2 where c2: "climb pol ids b2 c1 = Some c2" "anc (par_of ids) c2 b2" "pol ! c1 \<le> pol ! c2"
      "\<And>z. anc (par_of ids) z b2 \<Longrightarrow> pol ! c1 \<le> pol ! z \<Longrightarrow> anc (par_of ids) z c2"
      using climb_spec [OF assms less.prems(2) p1] by auto
    have p2: "par_of ids c2 \<noteq> None" using anc_par_left [OF tr c2(2)] by auto
    note up = anc_po [OF tr]
    have "pol ! b1 \<le> pol ! c1" "pol ! b2 \<le> pol ! c2" using up [OF c1(2)] up [OF c2(2)] by auto
    then have "2 * pol ! 0 - (pol ! c1 + pol ! c2) < 2 * pol ! 0 - (pol ! b1 + pol ! b2)"
      using ne c1(3) c2(3) le0 [OF p1] le0 [OF p2] le0 [OF less.prems(1)] le0 [OF less.prems(2)] by linarith
    then obtain x where x: "intersect pol ids c1 c2 = Some x" "anc (par_of ids) x c1" "anc (par_of ids) x c2"
      "\<And>z. anc (par_of ids) z c1 \<Longrightarrow> anc (par_of ids) z c2 \<Longrightarrow> anc (par_of ids) z x"
      using less.hyps [OF _ p1 p2] by auto
    have "anc (par_of ids) z x" if z: "anc (par_of ids) z b1" "anc (par_of ids) z b2" for z
    proof -
      have "anc (par_of ids) z c1" using c1(4) [OF z(1)] up [OF z(2)] by simp
      moreover from this have "anc (par_of ids) z c2" using c2(4) [OF z(2)] up by simp
      ultimately show ?thesis by (rule x(4))
    qed
    then show ?thesis
      using unf False c1(1) c2(1) x(1) anc_trans [OF c1(2) x(2)] anc_trans [OF c2(2) x(3)] by auto
  qed
qed

lemma meet_preds_spec:
  assumes num: "numbered preds (nth pol)" and tr: "tree preds (nth pol) (par_of ids)"
    and len: "length ids = length pol"
  shows "(\<forall>p \<in> set ps. p < length ids) \<Longrightarrow> par_of ids acc \<noteq> None \<Longrightarrow>
    \<exists>x. meet_preds pol ids ps acc = Some x \<and> anc (par_of ids) x acc \<and>
      (\<forall>p \<in> set ps. par_of ids p \<noteq> None \<longrightarrow> anc (par_of ids) x p) \<and>
      (\<forall>z. anc (par_of ids) z acc \<longrightarrow> (\<forall>p \<in> set ps. par_of ids p \<noteq> None \<longrightarrow> anc (par_of ids) z p) \<longrightarrow>
        anc (par_of ids) z x)"
proof (induction ps arbitrary: acc)
  case Nil
  then show ?case by (auto intro: anc.anc_refl)
next
  case (Cons p ps)
  show ?case
  proof (cases "p \<noteq> acc \<and> par_of ids p \<noteq> None")
    case True
    then obtain y where y: "intersect pol ids p acc = Some y" "anc (par_of ids) y p" "anc (par_of ids) y acc"
      "\<And>z. anc (par_of ids) z p \<Longrightarrow> anc (par_of ids) z acc \<Longrightarrow> anc (par_of ids) z y"
      using intersect_spec [OF assms, of p acc] Cons.prems(2) by auto
    have "par_of ids y \<noteq> None" using anc_par_left [OF tr y(2)] by auto
    then obtain x where x: "meet_preds pol ids ps y = Some x" "anc (par_of ids) x y"
      "\<forall>p \<in> set ps. par_of ids p \<noteq> None \<longrightarrow> anc (par_of ids) x p"
      "\<And>z. anc (par_of ids) z y \<Longrightarrow> \<forall>p \<in> set ps. par_of ids p \<noteq> None \<longrightarrow> anc (par_of ids) z p \<Longrightarrow>
        anc (par_of ids) z x"
      using Cons.IH [of y] Cons.prems(1) by auto
    have "meet_preds pol ids (p # ps) acc = Some x"
      using True y(1) x(1) by (auto simp: par_of_Some vec_get_def)
    then show ?thesis
      using x(2-4) y(2-4) True anc_trans [OF y(2) x(2)] anc_trans [OF y(3) x(2)] by auto
  next
    case False
    then have "meet_preds pol ids (p # ps) acc = meet_preds pol ids ps acc"
      using Cons.prems by (auto simp: par_of_def vec_get_def)
    moreover have "anc (par_of ids) z p" if "anc (par_of ids) z acc" "par_of ids p \<noteq> None" for z
      using that False by auto
    ultimately show ?thesis using Cons.IH [of acc] Cons.prems by auto
  qed
qed

lemma first_processed_spec:
  "(\<forall>p \<in> set ps. p < length ids) \<Longrightarrow> q \<in> set ps \<Longrightarrow> par_of ids q \<noteq> None \<Longrightarrow>
   \<exists>p \<in> set ps. first_processed ids ps = Some (Some p) \<and> par_of ids p \<noteq> None"
  by (induction ps) (auto simp: vec_get_def par_of_def split: if_splits)

text \<open>The body of the loop moves the block to the nearest common ancestor of its predecessors.\<close>

lemma process_block_spec:
  assumes env: "dom_env func pol" and len: "length ids = length pol"
    and inv: "dom_inv (cfg_predecessors (af_cfg func)) (nth pol) (Suc (pol ! b)) (par_of ids)"
    and b: "b \<noteq> 0" "reached (cfg_predecessors (af_cfg func)) b" "b < length pol"
  shows "\<exists>x. nearest (cfg_predecessors (af_cfg func)) (par_of ids) b x \<and>
    process_block func pol b (ids, changed) =
      Some (ids[b := Some x], changed \<or> ids ! b \<noteq> Some x)"
proof -
  let ?P = "cfg_predecessors (af_cfg func)"
  note num = dom_envD(1) [OF env] and tr = dom_invD(1) [OF inv]
  obtain q where q: "reached ?P q" "pred_edge ?P q b" "pol ! b < pol ! q"
    using numberedD(3) [OF num b(2,1)] by blast
  have pre: "\<forall>p \<in> set (?P ! b). p < length ids" using dom_envD(3) [OF env b(3)] len by auto
  have "par_of ids q \<noteq> None" using dom_invD(2) [OF inv] q by (simp add: upward_def)
  then obtain p where p: "p \<in> set (?P ! b)" "first_processed ids (?P ! b) = Some (Some p)" "par_of ids p \<noteq> None"
    using first_processed_spec [OF pre] q(2) by (auto simp: pred_edge_def)
  obtain x where x: "meet_preds pol ids (?P ! b) p = Some x"
    "\<forall>p \<in> set (?P ! b). par_of ids p \<noteq> None \<longrightarrow> anc (par_of ids) x p"
    "\<And>z. anc (par_of ids) z p \<Longrightarrow> \<forall>p \<in> set (?P ! b). par_of ids p \<noteq> None \<longrightarrow> anc (par_of ids) z p \<Longrightarrow>
       anc (par_of ids) z x"
    using meet_preds_spec [OF num tr len pre p(3)] by auto
  have "nearest ?P (par_of ids) b x"
    using x(2,3) p(1,3) b(3) dom_envD(2) [OF env] by (auto simp: nearest_def common_def pred_edge_def)
  moreover have "vec_get ?P b = Some (?P ! b)" "vec_get ids b = Some (ids ! b)"
    using b(3) dom_envD(2) [OF env] len by (simp_all add: vec_get_def)
  then have "process_block func pol b (ids, changed) = Some (ids[b := Some x], changed \<or> ids ! b \<noteq> Some x)"
    using p(2) x(1) by (auto simp: process_block_def func_predecessors_def) (metis list_update_id)
  ultimately show ?thesis by blast
qed

text \<open>A pass raises the sum of the parents' numbers, or changes nothing.\<close>

definition par_weight :: "nat list \<Rightarrow> block_id option list \<Rightarrow> nat" where
  "par_weight pol ids = sum_list (map (case_option 0 (\<lambda>y. Suc (pol ! y))) ids)"

lemma par_weight_update:
  assumes "b < length ids" and "\<And>y. ids ! b = Some y \<Longrightarrow> pol ! y < pol ! x"
  shows "par_weight pol ids < par_weight pol (ids[b := Some x])"
proof -
  let ?f = "case_option 0 (\<lambda>y. Suc (pol ! y))"
  have "ids = take b ids @ ids ! b # drop (Suc b) ids" using assms(1) by (rule id_take_nth_drop)
  then have "par_weight pol ids = sum_list (map ?f (take b ids)) + ?f (ids ! b) + sum_list (map ?f (drop (Suc b) ids))"
    unfolding par_weight_def by (metis (no_types, lifting) add.assoc list.simps(9) map_append sum_list.Cons sum_list_append)
  moreover have "par_weight pol (ids[b := Some x]) =
      sum_list (map ?f (take b ids)) + ?f (Some x) + sum_list (map ?f (drop (Suc b) ids))"
    unfolding par_weight_def by (simp add: upd_conv_take_nth_drop [OF assms(1)])
  ultimately show ?thesis using assms(2) by (cases "ids ! b") auto
qed

lemma par_weight_bound:
  assumes "\<And>y. Some y \<in> set ids \<Longrightarrow> pol ! y \<le> k"
  shows "par_weight pol ids \<le> length ids * Suc k"
proof -
  have "sum_list (map (case_option 0 (\<lambda>y. Suc (pol ! y))) ids) \<le> sum_list (map (\<lambda>_. Suc k) ids)"
    by (rule sum_list_mono) (auto simp: assms split: option.splits)
  then show ?thesis by (simp add: par_weight_def sum_list_triv)
qed

definition descending :: "nat list \<Rightarrow> block_id list \<Rightarrow> bool" where
  "descending pol bs \<longleftrightarrow> map (nth pol) bs = rev [0..<length bs]"

lemma descending_Cons: "descending pol (b # bs) \<longleftrightarrow> pol ! b = length bs \<and> descending pol bs"
  by (simp add: descending_def)

definition pass_result ::
  "'op amir_func \<Rightarrow> nat list \<Rightarrow> block_id list \<Rightarrow> block_id option list \<Rightarrow> bool \<Rightarrow>
   block_id option list \<Rightarrow> bool \<Rightarrow> bool" where
  "pass_result func pol bs ids changed ids' changed' \<longleftrightarrow> length ids' = length pol \<and>
     dom_inv (cfg_predecessors (af_cfg func)) (nth pol) 0 (par_of ids') \<and>
     (changed \<longrightarrow> changed') \<and> (changed' \<longrightarrow> changed \<or> par_weight pol ids < par_weight pol ids') \<and>
     par_weight pol ids \<le> par_weight pol ids' \<and>
     (\<not> changed' \<longrightarrow> ids' = ids \<and>
        (\<forall>b \<in> set bs. \<forall>x. par_of ids b = Some x \<longrightarrow> common (cfg_predecessors (af_cfg func)) (par_of ids) b x))"

lemma dom_pass_spec:
  assumes env: "dom_env func pol"
  shows "descending pol bs \<Longrightarrow>
    (\<forall>b \<in> set bs. b \<noteq> 0 \<and> reached (cfg_predecessors (af_cfg func)) b \<and> b < length pol) \<Longrightarrow>
    length ids = length pol \<Longrightarrow>
    dom_inv (cfg_predecessors (af_cfg func)) (nth pol) (length bs) (par_of ids) \<Longrightarrow>
    \<exists>ids' changed'. dom_pass func pol bs (ids, changed) = Some (ids', changed') \<and>
      pass_result func pol bs ids changed ids' changed'"
proof (induction bs arbitrary: ids changed)
  case (Cons b bs)
  let ?P = "cfg_predecessors (af_cfg func)"
  note num = dom_envD(1) [OF env]
  have pb: "pol ! b = length bs" and desc: "descending pol bs" using Cons.prems(1) by (simp_all add: descending_Cons)
  have b: "b \<noteq> 0" "reached ?P b" "b < length pol" using Cons.prems(2) by auto
  have inv: "dom_inv ?P (nth pol) (Suc (pol ! b)) (par_of ids)" using Cons.prems(4) pb by simp
  note tr = dom_invD(1) [OF inv]
  obtain x where x: "nearest ?P (par_of ids) b x"
    and step: "process_block func pol b (ids, changed) = Some (ids[b := Some x], changed \<or> ids ! b \<noteq> Some x)"
    using process_block_spec [OF env Cons.prems(3) inv b, of changed] by blast
  let ?ids = "ids[b := Some x]" and ?ch = "changed \<or> ids ! b \<noteq> Some x"
  have bl: "b < length ids" using b(3) Cons.prems(3) by simp
  note st = dom_step [OF num inv b(1,2) x]
  have inv': "dom_inv ?P (nth pol) (length bs) (par_of ?ids)"
    using st(1) pb by (simp add: par_of_update [OF bl])
  obtain ids' ch' where run: "dom_pass func pol bs (?ids, ?ch) = Some (ids', ch')"
    and r: "pass_result func pol bs ?ids ?ch ids' ch'"
    using Cons.IH [OF desc _ _ inv', of ?ch] Cons.prems(2,3) by auto
  have "par_weight pol ids < par_weight pol ?ids" if "ids ! b \<noteq> Some x"
  proof (rule par_weight_update [OF bl])
    fix y assume y: "ids ! b = Some y"
    have "par_of ids y \<noteq> None" "par_of ids x \<noteq> None"
      using treeD(4) [OF tr] y bl movesD(4) [OF step_moves [OF num inv b(1,2) x]] by (auto simp: par_of_Some)
    then have "pol ! y \<noteq> pol ! x" using numberedD(1) [OF num, of y x] treeD(2) [OF tr] that y by auto
    then show "pol ! y < pol ! x" using st(2) [of y] y bl by (simp add: par_of_Some)
  qed
  moreover have "?ids = ids" if "ids ! b = Some x" using that by (metis list_update_id)
  ultimately have "pass_result func pol (b # bs) ids changed ids' ch'"
    using r x bl unfolding pass_result_def
    by (cases "ids ! b = Some x") (auto simp: nearest_def par_of_Some)
  then show ?case using run step by auto
qed (simp add: pass_result_def)

lemma dom_iterate_spec:
  assumes env: "dom_env func pol" and rpo: "descending pol rpo" "length rpo = pol ! 0"
    and bs: "\<forall>b \<in> set rpo. b \<noteq> 0 \<and> reached (cfg_predecessors (af_cfg func)) b \<and> b < length pol"
    and all: "\<And>b. reached (cfg_predecessors (af_cfg func)) b \<Longrightarrow> b \<noteq> 0 \<Longrightarrow> b \<in> set rpo"
  shows "length ids = length pol \<Longrightarrow>
    dom_inv (cfg_predecessors (af_cfg func)) (nth pol) (pol ! 0) (par_of ids) \<Longrightarrow>
    \<exists>ids'. dom_iterate func pol rpo ids = Some ids' \<and> length ids' = length pol \<and>
      dom_inv (cfg_predecessors (af_cfg func)) (nth pol) 0 (par_of ids') \<and>
      (\<forall>a b. anc (par_of ids') a b \<longleftrightarrow> doms (cfg_predecessors (af_cfg func)) a b)"
proof (induction "length pol * Suc (pol ! 0) - par_weight pol ids" arbitrary: ids rule: less_induct)
  case less
  let ?P = "cfg_predecessors (af_cfg func)"
  note num = dom_envD(1) [OF env]
  obtain ids' ch' where run: "dom_pass func pol rpo (ids, False) = Some (ids', ch')"
    and r: "pass_result func pol rpo ids False ids' ch'"
    using dom_pass_spec [OF env rpo(1) bs less.prems(1)] less.prems(2) rpo(2) by metis
  note unf = dom_iterate.simps [of func pol rpo ids, unfolded run option.case prod.case]
  have len: "length ids' = length pol" and inv: "dom_inv ?P (nth pol) 0 (par_of ids')"
    using r by (simp_all add: pass_result_def)
  note tr = dom_invD(1) [OF inv]
  show ?case
  proof (cases ch')
    case True
    have le: "pol ! y \<le> pol ! 0" if mem: "Some y \<in> set ids'" for y
    proof -
      obtain b where "b < length ids'" "ids' ! b = Some y" using mem by (auto simp: in_set_conv_nth)
      then have b: "par_of ids' b = Some y" by (simp add: par_of_Some)
      obtain q where "par_of ids' y = Some q" using treeD(4) [OF tr b] by blast
      then have "reached ?P y" by (rule treeD(2) [OF tr])
      then show ?thesis using numberedD(2) [OF num, of y] by (cases "y = 0") auto
    qed
    have "par_weight pol ids' \<le> length pol * Suc (pol ! 0)" using par_weight_bound [of ids' pol "pol ! 0", OF le] len by simp
    moreover have "par_weight pol ids < par_weight pol ids'" using r True by (simp add: pass_result_def)
    ultimately show ?thesis using less.hyps [OF _ len dom_inv_restart [OF num inv]] unf True by auto
  next
    case False
    then have same: "ids' = ids"
      and com: "\<And>b x. b \<in> set rpo \<Longrightarrow> par_of ids b = Some x \<Longrightarrow> common ?P (par_of ids) b x"
      using r by (auto simp: pass_result_def)
    have "anc (par_of ids') a b \<longleftrightarrow> doms ?P a b" for a b
    proof (rule fixpoint_dominators [OF num inv])
      fix b x assume b: "b \<noteq> 0" "par_of ids' b = Some x"
      then show "common ?P (par_of ids') b x" using com all [OF treeD(2) [OF tr b(2)] b(1)] same by simp
    qed
    then show ?thesis using unf False len inv by auto
  qed
qed

end
