(* ===== verification/DomNumbering.thy ===== *)
theory DomNumbering
  imports Dominators
begin

text \<open>
  The numbering of the dominator tree (step 3 of \<open>Dominators::new\<close>): the traversal returns, and the
  pre-order and post-order numbers of two blocks tell whether one is an ancestor of the other.
\<close>

section \<open>The numbering of the tree\<close>

text \<open>
  What numbering a set of blocks closed under descendants does, over natural numbers: the counters
  advance by its size, its numbers lie between their old and new values, nothing else changes, and
  the two numbers of a block enclose those of its descendants only.
\<close>

type_synonym numbering = "nat list \<times> nat list \<times> nat \<times> nat"

definition words_of :: "numbering \<Rightarrow> u32 list \<times> u32 list \<times> u32 \<times> u32" where
  "words_of = (\<lambda>(pre, post, p, q). (map of_nat pre, map of_nat post, of_nat p, of_nat q))"

definition numbers :: "parent_map \<Rightarrow> block_id set \<Rightarrow> numbering \<Rightarrow> numbering \<Rightarrow> bool" where
  "numbers par X = (\<lambda>(pre, post, p, q) (pre', post', p', q').
     length pre' = length pre \<and> length post' = length post \<and>
     (\<forall>d. d \<notin> X \<longrightarrow> pre' ! d = pre ! d \<and> post' ! d = post ! d) \<and>
     p' = p + card X \<and> q' = q + card X \<and>
     (\<forall>d \<in> X. p < pre' ! d \<and> pre' ! d \<le> p' \<and> q < post' ! d \<and> post' ! d \<le> q') \<and>
     (\<forall>a \<in> X. \<forall>b \<in> X. pre' ! a \<le> pre' ! b \<and> post' ! b \<le> post' ! a \<longleftrightarrow> anc par a b))"

lemma numbers_empty: "numbers par {} s s"
  by (cases s) (simp add: numbers_def)

lemma numbers_union:
  assumes "numbers par X s s1" "numbers par Y s1 s2" "finite X" "finite Y" "X \<inter> Y = {}"
    and "\<And>a b. a \<in> X \<Longrightarrow> b \<in> Y \<Longrightarrow> \<not> anc par a b \<and> \<not> anc par b a"
  shows "numbers par (X \<union> Y) s s2"
proof -
  obtain pre post p q where s: "s = (pre, post, p, q)" by (metis surj_pair)
  obtain pre1 post1 p1 q1 where s1: "s1 = (pre1, post1, p1, q1)" by (metis surj_pair)
  obtain pre2 post2 p2 q2 where s2: "s2 = (pre2, post2, p2, q2)" by (metis surj_pair)
  note n1 = assms(1) [unfolded s s1 numbers_def prod.case]
  note n2 = assms(2) [unfolded s1 s2 numbers_def prod.case]
  have X: "pre2 ! a = pre1 ! a \<and> post2 ! a = post1 ! a" if "a \<in> X" for a
    using n2 that assms(5) by blast
  have cross: "pre2 ! a < pre2 ! b \<and> post2 ! a < post2 ! b" if "a \<in> X" "b \<in> Y" for a b
    using n1 n2 X that by fastforce
  have "pre2 ! a \<le> pre2 ! b \<and> post2 ! b \<le> post2 ! a \<longleftrightarrow> anc par a b" if "a \<in> X \<union> Y" "b \<in> X \<union> Y" for a b
    using that cross [of a b] cross [of b a] assms(6) [of a b] assms(6) [of b a] n1 n2 X by (smt (verit) UnE leD)
  moreover have "p < pre2 ! d \<and> pre2 ! d \<le> p2 \<and> q < post2 ! d \<and> post2 ! d \<le> q2" if "d \<in> X \<union> Y" for d
    using that n1 n2 X by fastforce
  moreover have "card (X \<union> Y) = card X + card Y" using assms(3-5) by (rule card_Un_disjoint)
  ultimately show ?thesis
    unfolding s s2 numbers_def prod.case using n1 n2 by auto
qed

lemma numbers_node:
  assumes "numbers par X (pre[x := Suc p], post, Suc p, q) (pre1, post1, p1, q1)" "finite X" "x \<notin> X"
    and x: "x < length pre" "x < length post" "anc par x x"
    and "\<And>b. b \<in> X \<Longrightarrow> anc par x b \<and> \<not> anc par b x"
  shows "numbers par (insert x X) (pre, post, p, q) (pre1, post1[x := Suc q1], p1, Suc q1)"
proof -
  note n = assms(1) [unfolded numbers_def prod.case]
  have px: "pre1 ! x = Suc p" using n x(1) assms(3) by auto
  have len: "x < length post1" using n x(2) by simp
  have old: "post1[x := Suc q1] ! d = post1 ! d" if "d \<in> X" for d
    using that assms(3) by (metis nth_list_update_neq)
  have "pre1 ! a \<le> pre1 ! b \<and> post1[x := Suc q1] ! b \<le> post1[x := Suc q1] ! a \<longleftrightarrow> anc par a b"
    if "a \<in> insert x X" "b \<in> insert x X" for a b
  proof (cases "a = x"; cases "b = x")
    show ?thesis if "a = x" "b = x" using that x(3) by simp
    show ?thesis if "a = x" "b \<noteq> x"
      using that \<open>b \<in> insert x X\<close> n px len old [of b] assms(7) [of b] by fastforce
    show ?thesis if "a \<noteq> x" "b = x"
      using that \<open>a \<in> insert x X\<close> n px assms(7) [of a] by fastforce
    show ?thesis if "a \<noteq> x" "b \<noteq> x"
      using that \<open>a \<in> insert x X\<close> \<open>b \<in> insert x X\<close> n old [of a] old [of b] by auto
  qed
  moreover have "p < pre1 ! d \<and> pre1 ! d \<le> p1 \<and> q < post1[x := Suc q1] ! d \<and> post1[x := Suc q1] ! d \<le> Suc q1"
    if "d \<in> insert x X" for d
    using that n px len old [of d] by (cases "d = x") fastforce+
  ultimately show ?thesis
    unfolding numbers_def prod.case using n assms(2,3) by auto
qed

text \<open>The children of a block and the blocks below it.\<close>

definition children_of :: "block_id option list \<Rightarrow> block_id \<Rightarrow> block_id list" where
  "children_of ids u = filter (\<lambda>v. ids ! v = Some u \<and> u \<noteq> v) [0..<length ids]"

abbreviation below :: "parent_map \<Rightarrow> block_id \<Rightarrow> block_id set" where
  "below par c \<equiv> {d. anc par c d}"

lemma collect_children_spec:
  "(\<forall>u. Some u \<in> set rest \<longrightarrow> u < length ch) \<Longrightarrow>
   \<exists>ch'. collect_children v rest ch = Some ch' \<and> length ch' = length ch \<and>
     (\<forall>u < length ch. ch' ! u = ch ! u @ filter (\<lambda>w. rest ! (w - v) = Some u \<and> u \<noteq> w) [v..<v + length rest])"
proof (induction rest arbitrary: v ch)
  case (Cons idom rest)
  have shift: "filter (\<lambda>w. (idom # rest) ! (w - v) = Some u \<and> u \<noteq> w) [v..<v + length (idom # rest)] =
      (if idom = Some u \<and> u \<noteq> v then [v] else []) @
      filter (\<lambda>w. rest ! (w - Suc v) = Some u \<and> u \<noteq> w) [Suc v..<Suc v + length rest]" for u
  proof -
    have "[v..<v + length (idom # rest)] = v # [Suc v..<Suc v + length rest]" by (simp add: upt_conv_Cons del: upt_Suc)
    moreover have nth: "(idom # rest) ! (w - v) = rest ! (w - Suc v)" if "Suc v \<le> w" for w
      using that by (metis Suc_diff_Suc Suc_le_eq nth_Cons_Suc)
    have "filter (\<lambda>w. (idom # rest) ! (w - v) = Some u \<and> u \<noteq> w) [Suc v..<Suc v + length rest] =
        filter (\<lambda>w. rest ! (w - Suc v) = Some u \<and> u \<noteq> w) [Suc v..<Suc v + length rest]"
      by (rule filter_cong) (simp_all add: nth del: upt_Suc)
    ultimately show ?thesis by (auto simp del: upt_Suc)
  qed
  show ?case
  proof (cases "\<exists>u. idom = Some u \<and> u \<noteq> v")
    case True
    then obtain u where u: "idom = Some u" "u \<noteq> v" by blast
    then have "u < length ch" using Cons.prems by simp
    then show ?thesis
      using Cons.IH [of "ch[u := ch ! u @ [v]]" "Suc v"] Cons.prems u unfolding shift
      by (auto simp: nth_list_update simp del: upt_Suc)
  next
    case False
    then have "collect_children v (idom # rest) ch = collect_children (Suc v) rest ch" by (auto split: option.split)
    then show ?thesis using Cons.IH [of ch "Suc v"] Cons.prems False unfolding shift
      by (auto simp del: upt_Suc collect_children.simps)
  qed
qed simp

lemma collect_children_of:
  assumes "\<forall>u. Some u \<in> set ids \<longrightarrow> u < length ids"
  shows "collect_children 0 ids (replicate (length ids) []) = Some (map (children_of ids) [0..<length ids])"
proof -
  obtain ch' where "collect_children 0 ids (replicate (length ids) []) = Some ch'" "length ch' = length ids"
    "\<And>u. u < length ids \<Longrightarrow> ch' ! u = children_of ids u"
    using collect_children_spec [of ids "replicate (length ids) []" 0] assms by (auto simp: children_of_def)
  then show ?thesis by (auto intro!: nth_equalityI)
qed

lemma children_par: "x \<in> set (children_of ids c) \<longleftrightarrow> par_of ids x = Some c \<and> x \<noteq> c"
  by (auto simp: children_of_def par_of_Some)

lemma below_unfold:
  assumes tr: "tree preds po (par_of ids)" and "par_of ids c \<noteq> None"
  shows "below (par_of ids) c = insert c (\<Union>x \<in> set (children_of ids c). below (par_of ids) x)"
proof -
  have down: "d = c \<or> (\<exists>x \<in> set (children_of ids c). anc (par_of ids) x d)" if "anc (par_of ids) c d" for d
    using that
  proof (induction c\<equiv>c d rule: anc.induct)
    case (anc_step d p)
    show ?case
    proof (cases "p = c")
      case True
      then show ?thesis using anc_step.hyps(1) children_par [of d ids c] anc.anc_refl [of "par_of ids" d] by blast
    next
      case False
      then show ?thesis using anc_step anc.anc_step [of "par_of ids" d p] by blast
    qed
  qed simp
  have "anc (par_of ids) c x" if "x \<in> set (children_of ids c)" for x
    using that assms(2) by (auto simp: children_par intro!: anc.anc_step [of "par_of ids" x c] anc.anc_refl)
  then show ?thesis using down assms(2) by (auto intro: anc_trans anc.anc_refl)
qed

lemma siblings_apart:
  assumes tr: "tree preds po (par_of ids)" and c: "x \<in> set (children_of ids c)" "y \<in> set (children_of ids c)" "x \<noteq> y"
    and "anc (par_of ids) x d" "anc (par_of ids) y d"
  shows False
proof -
  have no: "\<not> anc (par_of ids) x y" if "x \<in> set (children_of ids c)" "y \<in> set (children_of ids c)" "x \<noteq> y" for x y
  proof
    assume a: "anc (par_of ids) x y"
    have "par_of ids x = Some c" "x \<noteq> c" "par_of ids y = Some c" using that by (simp_all add: children_par)
    moreover from this have "x \<noteq> 0" using treeD(1) [OF tr] by (metis option.inject)
    ultimately have "po x < po c" "anc (par_of ids) x c"
      using treeD(3) [OF tr] anc_cases [OF tr a] that(3) by auto
    then show False using anc_po [OF tr] by fastforce
  qed
  show False using anc_linear [OF tr assms(5,6)] no c by metis
qed

lemma below_subset: "below (par_of ids) c \<subseteq> {..<length ids}"
  by (auto dest!: anc_par simp: par_of_Some)

lemma below_finite: "finite (below (par_of ids) c)"
  by (rule finite_subset [OF below_subset]) simp

lemma number_tree_step:
  assumes "c < length children" "i < length (children ! c)" "children ! c ! i < length pre"
  shows "number_tree children ((c, i) # st) (words_of (pre, post, p, q)) =
    number_tree children ((children ! c ! i, 0) # (c, Suc i) # st)
      (words_of (pre[children ! c ! i := Suc p], post, Suc p, q))"
  using assms by (subst number_tree.simps) (simp add: words_of_def vec_get_def map_update add.commute)

lemma number_tree_leave:
  assumes "c < length children" "c < length post"
  shows "number_tree children ((c, length (children ! c)) # st) (words_of (pre, post, p, q)) =
    number_tree children st (words_of (pre, post[c := Suc q], p, Suc q))"
  using assms by (subst number_tree.simps) (simp add: words_of_def vec_get_def map_update add.commute)

text \<open>Numbering the blocks below the remaining children of a block, then below a block.\<close>

lemma number_tree_forest:
  assumes tr: "tree preds po (par_of ids)" and ch: "children = map (children_of ids) [0..<length ids]"
    and c: "c < length ids"
    and tree_ok: "\<And>x pre post p q. x \<in> set (children_of ids c) \<Longrightarrow> length pre = length ids \<Longrightarrow>
      length post = length ids \<Longrightarrow> \<exists>s'. numbers (par_of ids) (below (par_of ids) x) (pre, post, p, q) s' \<and>
        (\<forall>st. number_tree children ((x, 0) # st) (words_of (pre[x := Suc p], post, Suc p, q)) =
           number_tree children st (words_of s'))"
  shows "i \<le> length (children_of ids c) \<Longrightarrow> length pre = length ids \<Longrightarrow> length post = length ids \<Longrightarrow>
    \<exists>s'. numbers (par_of ids) (\<Union>x \<in> set (drop i (children_of ids c)). below (par_of ids) x) (pre, post, p, q) s' \<and>
      (\<forall>st. number_tree children ((c, i) # st) (words_of (pre, post, p, q)) =
         number_tree children ((c, length (children_of ids c)) # st) (words_of s'))"
proof (induction "length (children_of ids c) - i" arbitrary: i pre post p q)
  case 0
  then have "i = length (children_of ids c)" by simp
  then show ?case using numbers_empty by fastforce
next
  case (Suc k)
  let ?cs = "children_of ids c" and ?below = "below (par_of ids)"
  let ?x = "?cs ! i"
  have i: "i < length ?cs" and k: "k = length ?cs - Suc i" using Suc.hyps(2) by simp_all
  have x: "?x \<in> set ?cs" "?x < length ids"
    using i nth_mem [OF i] by (auto simp: children_par par_of_Some)
  obtain pre1 post1 p1 q1 where s1: "numbers (par_of ids) (?below ?x) (pre, post, p, q) (pre1, post1, p1, q1)"
    and run1: "\<And>st. number_tree children ((?x, 0) # st) (words_of (pre[?x := Suc p], post, Suc p, q)) =
      number_tree children st (words_of (pre1, post1, p1, q1))"
    using tree_ok [OF x(1) Suc.prems(2,3), of p q] by (metis surj_pair)
  have len: "length pre1 = length ids" "length post1 = length ids"
    using s1 Suc.prems by (auto simp: numbers_def)
  obtain s' where s': "numbers (par_of ids) (\<Union>x \<in> set (drop (Suc i) ?cs). ?below x) (pre1, post1, p1, q1) s'"
    and run: "\<And>st. number_tree children ((c, Suc i) # st) (words_of (pre1, post1, p1, q1)) =
      number_tree children ((c, length ?cs) # st) (words_of s')"
    using Suc.hyps(1) [OF k _ len, of p1 q1] i by auto
  have "distinct ?cs" by (simp add: children_of_def)
  then have fresh: "?x \<notin> set (drop (Suc i) ?cs)"
    using i by (metis Cons_nth_drop_Suc distinct.simps(2) distinct_drop)
  have apart: False if "anc (par_of ids) ?x d" "y \<in> set (drop (Suc i) ?cs)" "anc (par_of ids) y d" for y d
    using siblings_apart [OF tr x(1) _ _ that(1,3)] that(2) fresh by (metis in_set_dropD)
  have "numbers (par_of ids) (?below ?x \<union> (\<Union>x \<in> set (drop (Suc i) ?cs). ?below x)) (pre, post, p, q) s'"
  proof (rule numbers_union [OF s1 s'])
    fix a b assume "a \<in> ?below ?x" "b \<in> (\<Union>x \<in> set (drop (Suc i) ?cs). ?below x)"
    then obtain y where a: "anc (par_of ids) ?x a" and y: "y \<in> set (drop (Suc i) ?cs)" "anc (par_of ids) y b" by blast
    show "\<not> anc (par_of ids) a b \<and> \<not> anc (par_of ids) b a"
      using apart [of b y] apart [of a y] a y anc_trans [of "par_of ids"] by blast
  qed (auto simp: below_finite dest: apart)
  moreover have "(\<Union>x \<in> set (drop i ?cs). ?below x) = ?below ?x \<union> (\<Union>x \<in> set (drop (Suc i) ?cs). ?below x)"
    using i by (simp flip: Cons_nth_drop_Suc)
  moreover have "number_tree children ((c, i) # st) (words_of (pre, post, p, q)) =
      number_tree children ((c, length ?cs) # st) (words_of s')" for st
    using number_tree_step [of c children i pre st post p q] c i x(2) Suc.prems(2) run1 run by (simp add: ch)
  ultimately show ?case by metis
qed

lemma number_tree_spec:
  assumes tr: "tree preds po (par_of ids)" and ch: "children = map (children_of ids) [0..<length ids]"
  shows "par_of ids c \<noteq> None \<Longrightarrow> length pre = length ids \<Longrightarrow> length post = length ids \<Longrightarrow>
    \<exists>s'. numbers (par_of ids) (below (par_of ids) c) (pre, post, p, q) s' \<and>
      (\<forall>st. number_tree children ((c, 0) # st) (words_of (pre[c := Suc p], post, Suc p, q)) =
         number_tree children st (words_of s'))"
proof (induction "po c" arbitrary: c pre post p q rule: less_induct)
  case less
  let ?cs = "children_of ids c" and ?below = "below (par_of ids)"
  let ?X = "\<Union>x \<in> set ?cs. ?below x"
  have c: "c < length ids" using less.prems(1) by (auto simp: par_of_Some)
  have cs: "po x < po c \<and> par_of ids x \<noteq> None" if "x \<in> set ?cs" for x
  proof -
    have x: "par_of ids x = Some c" "x \<noteq> c" using that by (simp_all add: children_par)
    then have "x \<noteq> 0" using treeD(1) [OF tr] by (metis option.inject)
    then show ?thesis using treeD(3) [OF tr x(1)] x(1) by simp
  qed
  have kids: "\<exists>s'. numbers (par_of ids) (?below x) (pre, post, p, q) s' \<and>
      (\<forall>st. number_tree children ((x, 0) # st) (words_of (pre[x := Suc p], post, Suc p, q)) =
         number_tree children st (words_of s'))"
    if "x \<in> set ?cs" "length pre = length ids" "length post = length ids" for x pre post p q
    using less.hyps [of x pre post p q] cs [OF that(1)] that(2,3) by simp
  have len: "length (pre[c := Suc p]) = length ids" using less.prems(2) by simp
  obtain pre1 post1 p1 q1
    where s1: "numbers (par_of ids) ?X (pre[c := Suc p], post, Suc p, q) (pre1, post1, p1, q1)"
      and run: "\<And>st. number_tree children ((c, 0) # st) (words_of (pre[c := Suc p], post, Suc p, q)) =
        number_tree children ((c, length ?cs) # st) (words_of (pre1, post1, p1, q1))"
    using number_tree_forest [OF tr ch c kids le0 len less.prems(3), of "Suc p" q, unfolded drop0]
    by (metis surj_pair)
  have up: "anc (par_of ids) c b \<and> \<not> anc (par_of ids) b c" if b: "b \<in> ?X" for b
  proof -
    obtain x where x: "x \<in> set ?cs" "anc (par_of ids) x b" using b by blast
    have "anc (par_of ids) c b" using below_unfold [OF tr less.prems(1)] x by blast
    moreover have "po b < po c" using cs [OF x(1)] anc_po [OF tr x(2)] by simp
    ultimately show ?thesis using anc_po [OF tr, of b c] by auto
  qed
  have "anc (par_of ids) c c" using less.prems(1) by (auto intro: anc.anc_refl)
  then have "numbers (par_of ids) (insert c ?X) (pre, post, p, q) (pre1, post1[c := Suc q1], p1, Suc q1)"
    by (intro numbers_node [OF s1]) (use up c less.prems below_finite in auto)
  moreover have "number_tree children ((c, length ?cs) # st) (words_of (pre1, post1, p1, q1)) =
      number_tree children st (words_of (pre1, post1[c := Suc q1], p1, Suc q1))" for st
    using number_tree_leave [of c children post1 st pre1 p1 q1] c s1 less.prems(3) by (simp add: ch numbers_def)
  ultimately show ?case using run below_unfold [OF tr less.prems(1)] by metis
qed

end
