(* ===== verification/DomCorrect.thy ===== *)
theory DomCorrect
  imports DomNumbering Rpo
begin

text \<open>
  What \<open>Dominators::new\<close> computes, stated over paths of blocks: \<open>dominates\<close> and \<open>immediate_dominator\<close>
  are exact for every function whose edge lists were computed from its blocks.
\<close>

section \<open>The tree of a function\<close>

lemma index_blocks_spec:
  "distinct bs \<Longrightarrow> \<forall>b \<in> set bs. b < length ind \<Longrightarrow>
   \<exists>r. index_blocks k bs ind = Some r \<and> length r = length ind \<and> (\<forall>i < length bs. r ! (bs ! i) = k + i) \<and>
     (\<forall>b. b \<notin> set bs \<longrightarrow> r ! b = ind ! b)"
proof (induction bs arbitrary: k ind)
  case (Cons b bs)
  then obtain r where r: "index_blocks (Suc k) bs (ind[b := k]) = Some r" "length r = length ind"
    "\<And>i. i < length bs \<Longrightarrow> r ! (bs ! i) = Suc k + i" "\<And>c. c \<notin> set bs \<Longrightarrow> r ! c = ind[b := k] ! c"
    using Cons.IH [of "ind[b := k]" "Suc k"] by auto
  have "r ! ((b # bs) ! i) = k + i" if "i < length (b # bs)" for i
    using that r(3) [of "i - 1"] r(4) [of b] Cons.prems by (cases i) auto
  then show ?case using r Cons.prems by auto
qed simp

lemma pred_edge_computed:
  assumes "af_cfg func = compute_cfg_edges (af_blocks func)"
  shows "pred_edge (cfg_predecessors (af_cfg func)) = block_edge (af_blocks func)"
proof (intro ext)
  fix u v
  note d = cfg_countD [OF compute_cfg_count [of "af_blocks func"], folded assms]
  note e = computed_cfg(2) [OF assms, THEN fun_cong, THEN fun_cong, of u v, symmetric]
  have "count_list (cfg_successors (af_cfg func) ! u) v = count_list (cfg_predecessors (af_cfg func) ! v) u"
    if "u < length (af_blocks func)" "v < length (af_blocks func)" using d(3) that .
  then show "pred_edge (cfg_predecessors (af_cfg func)) u v \<longleftrightarrow> block_edge (af_blocks func) u v"
    unfolding pred_edge_def e succ_edge_def using d(2,5) by (metis count_list_0_iff)
qed

lemma rpo_env:
  assumes ne: "af_blocks func \<noteq> []" and cfg: "af_cfg func = compute_cfg_edges (af_blocks func)"
  obtains ord pol where "reverse_post_order func = Some ord"
    "index_blocks 0 (rev ord) (replicate (length (af_blocks func)) 0) = Some pol"
    "length pol = length (af_blocks func)" "dom_env func pol" "remove_first 0 ord = tl ord"
    "descending pol (tl ord)" "length (tl ord) = pol ! 0"
    "set (tl ord) = {b. reached (cfg_predecessors (af_cfg func)) b \<and> b \<noteq> 0}"
proof -
  let ?n = "length (af_blocks func)" and ?E = "block_edge (af_blocks func)"
  let ?P = "cfg_predecessors (af_cfg func)"
  note E = pred_edge_computed [OF cfg]
  obtain ord where ord: "rpo_traverse func False = Some ord" "distinct ord" "hd ord = 0" "ord \<noteq> []"
    "set ord = {b. ?E\<^sup>*\<^sup>* 0 b}" "\<And>i. i < length ord \<Longrightarrow> ord ! i \<noteq> 0 \<Longrightarrow> \<exists>j < i. ?E (ord ! j) (ord ! i)"
    using rpo_traverse_spec [OF ne computed_cfg(1) [OF cfg], of False, unfolded computed_cfg(2) [OF cfg]] by metis
  have lt: "b < ?n" if "b \<in> set ord" for b
  proof -
    have "?E\<^sup>*\<^sup>* 0 b" using that ord(5) by simp
    then show ?thesis by (cases rule: rtranclp.cases) (use ne in \<open>auto simp: block_edge_def\<close>)
  qed
  obtain pol where pol: "index_blocks 0 (rev ord) (replicate ?n 0) = Some pol" "length pol = ?n"
    "\<And>i. i < length ord \<Longrightarrow> pol ! (rev ord ! i) = i"
    using index_blocks_spec [of "rev ord" "replicate ?n 0" 0] ord(2) lt by auto
  have po: "pol ! (ord ! i) = length ord - Suc i" if "i < length ord" for i
    using pol(3) [of "length ord - Suc i"] that by (simp add: rev_nth)
  have reach: "reached ?P b \<longleftrightarrow> b \<in> set ord" for b using ord(5) by (simp add: E)
  obtain rest where rest: "ord = 0 # rest" using ord(3,4) by (cases ord) auto
  have num: "numbered ?P (nth pol)"
  proof -
    have inj: "inj_on (nth pol) (set ord)"
      by (rule inj_onI) (metis po in_set_conv_nth diff_diff_cancel diff_Suc_diff_eq1 Suc_leI Suc_inject)
    have "pol ! b < pol ! 0 \<and> (\<exists>p. reached ?P p \<and> pred_edge ?P p b \<and> pol ! b < pol ! p)"
      if b: "b \<in> set ord" "b \<noteq> 0" for b
    proof -
      obtain i where i: "i < length ord" "ord ! i = b" using b(1) by (auto simp: in_set_conv_nth)
      have "ord ! 0 = 0" using rest by simp
      then obtain j where j: "j < i" "?E (ord ! j) b" and "0 < i" using ord(6) [OF i(1)] i b(2) by (metis gr0I)
      moreover have "pol ! 0 = length ord - Suc 0" using po [of 0] rest by simp
      moreover have "reached ?P (ord ! j)" using j(1) i(1) reach [of "ord ! j"] by simp
      ultimately show ?thesis using po [of i] po [of j] i j unfolding E by (intro conjI exI [of _ "ord ! j"]) auto
    qed
    then show ?thesis using inj by (auto simp: numbered_def reach)
  qed
  note d = cfg_countD [OF compute_cfg_count [of "af_blocks func"], folded cfg]
  have "dom_env func pol" using num d(2,5) pol(2) ne by (auto simp: dom_env_def Let_def)
  moreover have "descending pol (tl ord)"
    unfolding descending_def by (rule nth_equalityI) (use po [of "Suc _"] rest in \<open>auto simp: rev_nth\<close>)
  moreover have "length (tl ord) = pol ! 0" using po [of 0] rest by simp
  moreover have "remove_first 0 ord = tl ord" using rest by (simp add: remove_first_def)
  moreover have "set (tl ord) = {b. reached ?P b \<and> b \<noteq> 0}"
    unfolding reach using ord(2) rest by auto (metis gr0I)
  ultimately show ?thesis using that ord(1) pol(1,2) by (simp add: reverse_post_order_def)
qed

definition tree_numbered :: "dominators \<Rightarrow> bool" where
  "tree_numbered d \<longleftrightarrow> length (pre_order d) = length (idoms d) \<and> length (post_order d) = length (idoms d) \<and>
     (\<forall>a b. par_of (idoms d) a \<noteq> None \<longrightarrow> par_of (idoms d) b \<noteq> None \<longrightarrow>
        (pre_order d ! a \<le> pre_order d ! b \<and> post_order d ! b \<le> post_order d ! a \<longleftrightarrow> anc (par_of (idoms d)) a b))"

lemma number_dominators_spec:
  assumes num: "numbered preds po" and tr: "tree preds po (par_of ids)" and n: "length ids < 2 ^ 32"
  shows "\<exists>d. number_dominators ids = Some d \<and> idoms d = ids \<and> tree_numbered d"
proof -
  let ?n = "length ids" and ?par = "par_of ids"
  let ?ch = "map (children_of ids) [0..<?n]"
  have entry: "0 < ?n" "ids ! 0 = Some 0" using treeD(1) [OF tr] by (auto simp: par_of_Some)
  have "u < ?n" if u: "Some u \<in> set ids" for u
  proof -
    obtain b where "b < ?n" "ids ! b = Some u" using u by (auto simp: in_set_conv_nth)
    then show ?thesis using treeD(4) [OF tr, of b u] by (auto simp: par_of_Some)
  qed
  then have ch: "collect_children 0 ids (replicate ?n []) = Some ?ch" by (simp add: collect_children_of)
  obtain pre post p q where s: "numbers ?par (below ?par 0) (replicate ?n 0, replicate ?n 0, 0, 0) (pre, post, p, q)"
    and run: "number_tree ?ch [(0, 0)] (words_of ((replicate ?n 0)[0 := Suc 0], replicate ?n 0, Suc 0, 0)) =
      number_tree ?ch [] (words_of (pre, post, p, q))"
    using number_tree_spec [OF tr refl, of 0 "replicate ?n 0" "replicate ?n 0" 0 0] treeD(1) [OF tr]
    by (auto simp del: replicate_Suc)
  have "number_tree ?ch [] (words_of (pre, post, p, q)) = Some (map of_nat pre, map of_nat post)"
    by (subst number_tree.simps) (simp add: words_of_def)
  then have "number_dominators ids = Some \<lparr>idoms = ids, pre_order = map of_nat pre, post_order = map of_nat post\<rparr>"
    using ch entry run by (simp add: number_dominators_def Let_def words_of_def map_update)
  moreover have "tree_numbered \<lparr>idoms = ids, pre_order = map of_nat pre, post_order = map of_nat post\<rparr>"
  proof -
    note d = s [unfolded numbers_def prod.case]
    have "card (below ?par 0) \<le> ?n"
      using card_mono [OF _ below_subset [of ids 0]] by simp
    then have small: "b < ?n \<and> pre ! b < 2 ^ 32 \<and> post ! b < 2 ^ 32" "b \<in> below ?par 0" if "?par b \<noteq> None" for b
      using that d n anc_of_entry [OF num tr, of b] by (fastforce simp: par_of_Some)+
    have "(of_nat (pre ! a) :: u32) \<le> of_nat (pre ! b) \<longleftrightarrow> pre ! a \<le> pre ! b"
         "(of_nat (post ! b) :: u32) \<le> of_nat (post ! a) \<longleftrightarrow> post ! b \<le> post ! a"
      if "?par a \<noteq> None" "?par b \<noteq> None" for a b
      using small [OF that(1)] small [OF that(2)] by (simp_all add: word_le_nat_alt unat_of_nat)
    then show ?thesis using d small by (auto simp: tree_numbered_def)
  qed
  ultimately show ?thesis by (metis select_convs(1))
qed

lemma dominators_new_spec:
  assumes "af_blocks func \<noteq> []" "af_cfg func = compute_cfg_edges (af_blocks func)" "length (af_blocks func) < 2 ^ 32"
  obtains d po where "dominators_new func = Some d" "length (idoms d) = length (af_blocks func)" "tree_numbered d"
    "numbered (cfg_predecessors (af_cfg func)) po" "tree (cfg_predecessors (af_cfg func)) po (par_of (idoms d))"
    "\<And>a b. anc (par_of (idoms d)) a b \<longleftrightarrow> doms (cfg_predecessors (af_cfg func)) a b"
proof -
  let ?n = "length (af_blocks func)" and ?P = "cfg_predecessors (af_cfg func)"
  let ?ids = "(replicate ?n None)[0 := Some 0]"
  obtain ord pol where rpo: "reverse_post_order func = Some ord" "index_blocks 0 (rev ord) (replicate ?n 0) = Some pol"
    "length pol = ?n" "dom_env func pol" "remove_first 0 ord = tl ord" "descending pol (tl ord)"
    "length (tl ord) = pol ! 0" "set (tl ord) = {b. reached ?P b \<and> b \<noteq> 0}"
    using rpo_env [OF assms(1,2)] by blast
  note num = dom_envD(1) [OF rpo(4)]
  have "par_of ?ids = [0 \<mapsto> 0]" using assms(1) by (auto simp: par_of_def fun_eq_iff)
  then have init: "dom_inv ?P (nth pol) (pol ! 0) (par_of ?ids)" using dom_inv_init [OF num] by simp
  have "b < length pol" if "reached ?P b" for b
    using that rpo(3) assms(1) unfolding pred_edge_computed [OF assms(2)]
    by (cases rule: rtranclp.cases) (auto simp: block_edge_def)
  then obtain ids' where run: "dom_iterate func pol (tl ord) ?ids = Some ids'" "length ids' = length pol"
    and inv: "dom_inv ?P (nth pol) 0 (par_of ids')" and anc: "\<And>a b. anc (par_of ids') a b \<longleftrightarrow> doms ?P a b"
    using dom_iterate_spec [OF rpo(4,6,7) _ _ _ init] rpo(3,8) by auto
  obtain d where "number_dominators ids' = Some d" "idoms d = ids'" "tree_numbered d"
    using number_dominators_spec [OF num dom_invD(1) [OF inv]] run(2) rpo(3) assms(3) by auto
  then show ?thesis
    using that [of d "nth pol"] num dom_invD(1) [OF inv] anc rpo run assms(1) by (simp add: dominators_new_def Let_def)
qed

section \<open>Properties of the dominator tree\<close>

text \<open>Paths of blocks from the entry.\<close>

definition entry_path :: "'op amir_basic_block list \<Rightarrow> block_id \<Rightarrow> block_id list \<Rightarrow> bool" where
  "entry_path blocks b path \<longleftrightarrow> path \<noteq> [] \<and> hd path = 0 \<and> last path = b \<and> successively (block_edge blocks) path"

text \<open>A block dominates another when every path to the latter goes through it.\<close>

definition on_every_path :: "'op amir_basic_block list \<Rightarrow> block_id \<Rightarrow> block_id \<Rightarrow> bool" where
  "on_every_path blocks a b \<longleftrightarrow> (\<forall>path. entry_path blocks b path \<longrightarrow> a \<in> set path)"

lemma entry_path_avoiding:
  "(\<exists>path. entry_path blocks b path \<and> a \<notin> set path) \<longleftrightarrow>
   a \<noteq> 0 \<and> (\<lambda>u v. block_edge blocks u v \<and> v \<noteq> a)\<^sup>*\<^sup>* 0 b"
proof
  assume "\<exists>path. entry_path blocks b path \<and> a \<notin> set path"
  then obtain path where path: "entry_path blocks b path" "a \<notin> set path" by blast
  then show "a \<noteq> 0 \<and> (\<lambda>u v. block_edge blocks u v \<and> v \<noteq> a)\<^sup>*\<^sup>* 0 b"
  proof (induction path arbitrary: b rule: rev_induct)
    case (snoc x xs)
    show ?case
    proof (cases "xs = []")
      case True
      then show ?thesis using snoc.prems by (auto simp: entry_path_def)
    next
      case False
      then have "entry_path blocks (last xs) xs" "block_edge blocks (last xs) b" "b \<noteq> a"
        using snoc.prems by (auto simp: entry_path_def successively_append_iff)
      then show ?thesis using snoc.IH [of "last xs"] snoc.prems(2) by (auto intro: rtranclp.rtrancl_into_rtrancl)
    qed
  qed (simp add: entry_path_def)
next
  assume a: "a \<noteq> 0 \<and> (\<lambda>u v. block_edge blocks u v \<and> v \<noteq> a)\<^sup>*\<^sup>* 0 b"
  then have "(\<lambda>u v. block_edge blocks u v \<and> v \<noteq> a)\<^sup>*\<^sup>* 0 b" by simp
  then show "\<exists>path. entry_path blocks b path \<and> a \<notin> set path"
  proof (induction rule: rtranclp_induct)
    case base
    show ?case using a by (intro exI [of _ "[0]"]) (simp add: entry_path_def)
  next
    case (step u v)
    then obtain path where "entry_path blocks u path" "a \<notin> set path" by blast
    then show ?case using step.hyps(2) a
      by (intro exI [of _ "path @ [v]"]) (auto simp: entry_path_def successively_append_iff)
  qed
qed

lemma doms_paths:
  assumes "af_cfg func = compute_cfg_edges (af_blocks func)"
  shows "doms (cfg_predecessors (af_cfg func)) a b \<longleftrightarrow>
    (block_edge (af_blocks func))\<^sup>*\<^sup>* 0 b \<and> on_every_path (af_blocks func) a b"
  unfolding doms_def reach_avoiding_def pred_edge_computed [OF assms] on_every_path_def
  using entry_path_avoiding [of "af_blocks func" b a] by blast

text \<open>
  C6: on every function whose edge lists were computed from its blocks, \<open>Dominators::new\<close> returns, and
  \<open>dominates\<close> answers, for every pair of blocks and without a panic, whether they are equal or the
  second is reachable and the first on every path from the entry to it.
\<close>

theorem dominates_exact:
  assumes "af_blocks func \<noteq> []" "af_cfg func = compute_cfg_edges (af_blocks func)"
    and "length (af_blocks func) < 2 ^ 32"
  shows "\<exists>d. dominators_new func = Some d \<and> (\<forall>a b. dominates d a b =
    Some (a = b \<or> (block_edge (af_blocks func))\<^sup>*\<^sup>* 0 b \<and> on_every_path (af_blocks func) a b))"
proof -
  obtain d po where d: "dominators_new func = Some d" "length (idoms d) = length (af_blocks func)" "tree_numbered d"
    "tree (cfg_predecessors (af_cfg func)) po (par_of (idoms d))"
    "\<And>a b. anc (par_of (idoms d)) a b \<longleftrightarrow> doms (cfg_predecessors (af_cfg func)) a b"
    using dominators_new_spec [OF assms] by metis
  have "dominates d a b = Some (a = b \<or> anc (par_of (idoms d)) a b)" for a b
  proof (cases "a = b \<or> par_of (idoms d) a = None \<or> par_of (idoms d) b = None")
    case True
    then show ?thesis using anc_par [of "par_of (idoms d)" a b] anc_par_left [OF d(4), of a b]
      by (auto simp: dominates_def par_of_def split: if_splits)
  next
    case False
    then show ?thesis using d(3)
      by (auto simp: dominates_def tree_numbered_def par_of_Some vec_get_def)
  qed
  then show ?thesis using d(1) unfolding d(5) doms_paths [OF assms(2)] by blast
qed

text \<open>Block 0 branches to blocks 1 and 2, which both go on to block 3.\<close>

definition diamond :: "unit amir_func" where
  "diamond = (let blocks = map (\<lambda>(i, t). \<lparr>bb_id = i, bb_params = \<lparr>dr_start = 0, dr_len = 0\<rparr>,
       bb_statements = \<lparr>dr_start = 0, dr_len = 0\<rparr>, bb_terminator = t\<rparr>)
       [(0, Branch () 1 [] 2 []), (1, Goto 3 []), (2, Goto 3 []), (3, Return)]
     in \<lparr>af_blocks = blocks, af_cfg = compute_cfg_edges blocks\<rparr>)"

lemma diamond_facts:
  "af_blocks diamond \<noteq> []" "af_cfg diamond = compute_cfg_edges (af_blocks diamond)"
  "length (af_blocks diamond) = 4" "map bb_id (af_blocks diamond) = [0..<length (af_blocks diamond)]"
  by (simp_all add: diamond_def Let_def upt_conv_Cons)

lemma diamond_edges:
  "block_edge (af_blocks diamond) 0 1" "block_edge (af_blocks diamond) 0 2"
  "block_edge (af_blocks diamond) 1 3" "block_edge (af_blocks diamond) 2 3"
  by (simp_all add: block_edge_def diamond_def Let_def)

lemma diamond_reach:
  "(block_edge (af_blocks diamond))\<^sup>*\<^sup>* 0 1" "(block_edge (af_blocks diamond))\<^sup>*\<^sup>* 0 3"
  using diamond_edges by (blast intro: rtranclp.rtrancl_into_rtrancl)+

lemma diamond_paths: "on_every_path (af_blocks diamond) b b" "\<not> on_every_path (af_blocks diamond) 1 3"
proof -
  show "on_every_path (af_blocks diamond) b b" by (auto simp: on_every_path_def entry_path_def)
  have "entry_path (af_blocks diamond) 3 [0, 2, 3]" using diamond_edges by (simp add: entry_path_def)
  then show "\<not> on_every_path (af_blocks diamond) 1 3" by (auto simp: on_every_path_def)
qed

theorem dominates_exact_witness:
  "\<exists>d. dominators_new diamond = Some d \<and> dominates d 0 3 = Some True \<and> dominates d 1 3 = Some False"
proof -
  have "on_every_path (af_blocks diamond) 0 3" unfolding on_every_path_def entry_path_def by (metis hd_in_set)
  then show ?thesis
    using dominates_exact [of diamond] diamond_facts diamond_reach diamond_paths by auto
qed

text \<open>
  C7: \<open>immediate_dominator\<close> is \<open>None\<close> exactly for the blocks the entry does not reach, the entry is its
  own, and that of any other block is a different block on every path to it that all the other
  dominators of the block dominate in turn.
\<close>

theorem immediate_dominator_exact:
  assumes "af_blocks func \<noteq> []" "af_cfg func = compute_cfg_edges (af_blocks func)"
    and "length (af_blocks func) < 2 ^ 32"
  shows "\<exists>d. dominators_new func = Some d \<and> immediate_dominator d 0 = Some 0 \<and>
    (\<forall>b. \<not> (block_edge (af_blocks func))\<^sup>*\<^sup>* 0 b \<longrightarrow> immediate_dominator d b = None) \<and>
    (\<forall>b. (block_edge (af_blocks func))\<^sup>*\<^sup>* 0 b \<longrightarrow> b \<noteq> 0 \<longrightarrow>
       (\<exists>i. immediate_dominator d b = Some i \<and> i \<noteq> b \<and> on_every_path (af_blocks func) i b \<and>
          (\<forall>a. a \<noteq> b \<longrightarrow> on_every_path (af_blocks func) a b \<longrightarrow> on_every_path (af_blocks func) a i)))"
proof -
  let ?P = "cfg_predecessors (af_cfg func)"
  obtain d po where d: "dominators_new func = Some d" "tree ?P po (par_of (idoms d))"
    "\<And>a b. anc (par_of (idoms d)) a b \<longleftrightarrow> doms ?P a b"
    using dominators_new_spec [OF assms] by metis
  let ?par = "par_of (idoms d)"
  note paths = doms_paths [OF assms(2)]
  have idom: "immediate_dominator d b = ?par b" for b
    by (simp add: immediate_dominator_def par_of_def vec_get_def)
  have none: "?par b = None" if "\<not> reached ?P b" for b using that treeD(2) [OF d(2)] by (cases "?par b") auto
  have some: "\<exists>i. ?par b = Some i \<and> i \<noteq> b \<and> doms ?P i b \<and> (\<forall>a. a \<noteq> b \<longrightarrow> doms ?P a b \<longrightarrow> doms ?P a i)"
    if "reached ?P b" "b \<noteq> 0" for b
  proof -
    have "anc ?par b b" using doms_refl [OF that(1)] d(3) by simp
    then obtain i where i: "?par b = Some i" using anc_par by blast
    obtain j where "?par i = Some j" using treeD(4) [OF d(2) i] by blast
    then have "anc ?par i i" by (rule anc.anc_refl)
    then have "doms ?P i b" using d(3) anc.anc_step [of ?par, OF i] by blast
    moreover have "doms ?P a i" if "a \<noteq> b" "doms ?P a b" for a
      using anc_cases [OF d(2) _ i] that d(3) by blast
    ultimately show ?thesis using i treeD(3) [OF d(2) i that(2)] by auto
  qed
  have "\<exists>i. immediate_dominator d b = Some i \<and> i \<noteq> b \<and> on_every_path (af_blocks func) i b \<and>
      (\<forall>a. a \<noteq> b \<longrightarrow> on_every_path (af_blocks func) a b \<longrightarrow> on_every_path (af_blocks func) a i)"
    if r: "(block_edge (af_blocks func))\<^sup>*\<^sup>* 0 b" "b \<noteq> 0" for b
    using some [of b] r by (auto simp: idom paths pred_edge_computed [OF assms(2)])
  then show ?thesis
    using d(1) treeD(1) [OF d(2)] none by (auto simp: idom pred_edge_computed [OF assms(2)])
qed

theorem immediate_dominator_exact_witness:
  "\<exists>d i. dominators_new diamond = Some d \<and> immediate_dominator d 3 = Some i \<and> i \<noteq> 3 \<and> i \<noteq> 1"
proof -
  obtain d i where "dominators_new diamond = Some d" "immediate_dominator d 3 = Some i" "i \<noteq> 3"
    "on_every_path (af_blocks diamond) i 3"
    using immediate_dominator_exact [of diamond] diamond_facts diamond_reach(2) by auto
  then show ?thesis using diamond_paths(2) by blast
qed

end
