(* ===== verification/DomFrontiers.thy ===== *)
theory DomFrontiers
  imports DomCorrect
begin

text \<open>
  The dominance frontiers of \<open>dominators.rs\<close>, over the bit matrix of the theory \<open>BitMatrix\<close>.
\<close>

section \<open>Dominance frontiers\<close>

text \<open>The blocks a walk visits: those above the predecessor up to the join's parent, or the predecessor alone.\<close>

definition walked :: "parent_map \<Rightarrow> block_id \<Rightarrow> block_id \<Rightarrow> block_id \<Rightarrow> bool" where
  "walked par i p r \<longleftrightarrow> (if par p = None then r = p else anc par r p \<and> \<not> anc par r i)"

text \<open>A square matrix to which a column has been added in some rows.\<close>

definition extends :: "nat \<Rightarrow> (block_id \<Rightarrow> block_id \<Rightarrow> bool) \<Rightarrow> bitmatrix \<Rightarrow> bitmatrix \<Rightarrow> bool" where
  "extends n R m m' \<longleftrightarrow> bm_wf m' \<and> bm_num_rows m' = n \<and> bm_num_cols m' = n \<and>
     (\<forall>r < n. bm_row m' r = bm_row m r \<union> Collect (R r))"

definition square :: "nat \<Rightarrow> bitmatrix \<Rightarrow> bool" where
  "square n m \<longleftrightarrow> bm_wf m \<and> bm_num_rows m = n \<and> bm_num_cols m = n"

lemma extends_square: "extends n R m m' \<Longrightarrow> square n m'"
  by (simp add: extends_def square_def)

lemma extends_none: "square n m \<Longrightarrow> (\<And>r c. r < n \<Longrightarrow> \<not> R r c) \<Longrightarrow> extends n R m m"
  by (auto simp: extends_def square_def)

lemma extends_trans:
  "extends n R m m1 \<Longrightarrow> extends n S m1 m2 \<Longrightarrow> (\<And>r c. r < n \<Longrightarrow> T r c \<longleftrightarrow> R r c \<or> S r c) \<Longrightarrow> extends n T m m2"
  by (auto simp: extends_def)

lemma insert_extends:
  assumes "square n m" "r < n" "c < n"
  obtains m' fresh where "bm_insert m r c = Some (m', fresh)" "extends n (\<lambda>r' c'. r' = r \<and> c' = c) m m'"
proof -
  have wf: "bm_wf m" "r < bm_num_rows m" "c < bm_num_cols m" using assms by (auto simp: square_def)
  obtain m' where m': "bm_insert m r c = Some (m', c \<notin> bm_row m r)" "bm_wf m'" "same_shape m m'"
    "\<And>r'. r' < bm_num_rows m \<Longrightarrow> bm_row m' r' = (if r' = r then insert c (bm_row m r) else bm_row m r')"
    using bm_insert_spec [OF wf] by blast
  have "bm_num_rows m' = n" "bm_num_cols m' = n" using m'(3) assms(1) by (auto simp: same_shape_def square_def)
  then have "extends n (\<lambda>r' c'. r' = r \<and> c' = c) m m'"
    using m'(2,4) assms(1) by (auto simp: extends_def square_def)
  then show ?thesis using that m'(1) by blast
qed

lemma immediate_dominator_par: "immediate_dominator d b = par_of (idoms d) b"
  by (simp add: immediate_dominator_def par_of_def vec_get_def)

lemma frontier_walk_up:
  assumes num: "numbered preds po" and tr: "tree preds po (par_of (idoms d))" and len: "length (idoms d) = n" and "c < n"
  shows "anc (par_of (idoms d)) i p \<Longrightarrow> square n m \<Longrightarrow>
    \<exists>m'. frontier_walk d c i p m = Some m' \<and> extends n (\<lambda>r c'. c' = c \<and> walked (par_of (idoms d)) i p r) m m'"
proof (induction "po 0 - po p" arbitrary: p m rule: less_induct)
  case less
  let ?par = "par_of (idoms d)"
  note unf = frontier_walk.simps [of d c i p m]
  obtain q where q: "?par p = Some q" using anc_par [OF less.prems(1)] by blast
  have p: "p < n" using q len by (simp add: par_of_Some)
  show ?case
  proof (cases "p = i")
    case True
    then have "extends n (\<lambda>r c'. c' = c \<and> walked ?par i p r) m m"
      using q less.prems(2) by (intro extends_none) (auto simp: walked_def)
    then show ?thesis using unf True by auto
  next
    case False
    have p0: "p \<noteq> 0" using less.prems(1) False anc_entry [OF tr, of i] by metis
    have up: "po p < po q" using treeD(3) [OF tr q p0] .
    have iq: "anc ?par i q" using anc_cases [OF tr less.prems(1) q] False by blast
    obtain q' where q': "?par q = Some q'" using treeD(4) [OF tr q] by blast
    have "po p < po 0" using numberedD(2) [OF num treeD(2) [OF tr q] p0] .
    then have dec: "po 0 - po q < po 0 - po p" using up by simp
    obtain m1 fresh where m1: "bm_insert m p c = Some (m1, fresh)" "extends n (\<lambda>r' c'. r' = p \<and> c' = c) m m1"
      using insert_extends [OF less.prems(2) p assms(4)] by blast
    obtain m2 where m2: "frontier_walk d c i q m1 = Some m2"
      "extends n (\<lambda>r c'. c' = c \<and> walked ?par i q r) m1 m2"
      using less.hyps [OF dec iq extends_square [OF m1(2)]] by blast
    have "walked ?par i p r \<longleftrightarrow> r = p \<or> walked ?par i q r" for r
    proof -
      have "anc ?par r p \<longleftrightarrow> r = p \<or> anc ?par r q"
        using anc_cases [OF tr _ q, of r] anc.anc_step [of ?par, OF q] anc.anc_refl [of ?par, OF q] by blast
      moreover have "\<not> anc ?par p i" using anc_antisym [OF tr less.prems(1)] False by blast
      ultimately show ?thesis using q q' by (auto simp: walked_def)
    qed
    then have "extends n (\<lambda>r c'. c' = c \<and> walked ?par i p r) m m2"
      by (intro extends_trans [OF m1(2) m2(2)]) auto
    moreover have "q \<noteq> p" using up by auto
    ultimately show ?thesis using unf False m1(1) m2(1) q by (simp add: immediate_dominator_par)
  qed
qed

lemma frontier_walk_spec:
  assumes num: "numbered preds po" and tr: "tree preds po (par_of (idoms d))" and len: "length (idoms d) = n"
    and c: "c < n" "p < n" and i: "par_of (idoms d) i \<noteq> None"
    and up: "par_of (idoms d) p \<noteq> None \<Longrightarrow> anc (par_of (idoms d)) i p" and m: "square n m"
  shows "\<exists>m'. frontier_walk d c i p m = Some m' \<and> extends n (\<lambda>r c'. c' = c \<and> walked (par_of (idoms d)) i p r) m m'"
proof (cases "par_of (idoms d) p = None")
  case True
  then have "p \<noteq> i" using i by auto
  obtain m1 fresh where m1: "bm_insert m p c = Some (m1, fresh)" "extends n (\<lambda>r' c'. r' = p \<and> c' = c) m m1"
    using insert_extends [OF m c(2,1)] by blast
  moreover have "extends n (\<lambda>r c'. c' = c \<and> walked (par_of (idoms d)) i p r) m m1"
    using m1(2) True by (auto simp: walked_def extends_def)
  ultimately show ?thesis using True \<open>p \<noteq> i\<close> frontier_walk.simps [of d c i p m] by (simp add: immediate_dominator_par)
qed (use frontier_walk_up [OF num tr len c(1) up m] in blast)

lemma frontier_preds_spec:
  assumes num: "numbered preds po" and tr: "tree preds po (par_of (idoms d))" and len: "length (idoms d) = n"
    and c: "c < n" and i: "par_of (idoms d) i \<noteq> None"
  shows "(\<And>p. p \<in> set ps \<Longrightarrow> p < n \<and> (par_of (idoms d) p \<noteq> None \<longrightarrow> anc (par_of (idoms d)) i p)) \<Longrightarrow> square n m \<Longrightarrow>
    \<exists>m'. frontier_preds d c i ps m = Some m' \<and>
      extends n (\<lambda>r c'. c' = c \<and> (\<exists>p \<in> set ps. walked (par_of (idoms d)) i p r)) m m'"
proof (induction ps arbitrary: m)
  case Nil
  then show ?case using extends_none [of n m] by simp
next
  case (Cons p ps)
  obtain m1 where m1: "frontier_walk d c i p m = Some m1"
    "extends n (\<lambda>r c'. c' = c \<and> walked (par_of (idoms d)) i p r) m m1"
    using frontier_walk_spec [OF num tr len c _ i, of p m] Cons.prems by auto
  obtain m2 where m2: "frontier_preds d c i ps m1 = Some m2"
    "extends n (\<lambda>r c'. c' = c \<and> (\<exists>p \<in> set ps. walked (par_of (idoms d)) i p r)) m1 m2"
    using Cons.IH [OF _ extends_square [OF m1(2)]] Cons.prems(1) by auto
  have "extends n (\<lambda>r c'. c' = c \<and> (\<exists>p \<in> set (p # ps). walked (par_of (idoms d)) i p r)) m m2"
    by (rule extends_trans [OF m1(2) m2(2)]) auto
  then show ?case using m1(1) m2(1) by simp
qed

text \<open>The entries of the column of a block.\<close>

definition joined :: "dominators \<Rightarrow> 'op amir_func \<Rightarrow> block_id \<Rightarrow> block_id \<Rightarrow> bool" where
  "joined d func r c \<longleftrightarrow> 2 \<le> length (cfg_predecessors (af_cfg func) ! c) \<and>
     (\<exists>i. par_of (idoms d) c = Some i \<and>
        (\<exists>p \<in> set (cfg_predecessors (af_cfg func) ! c). walked (par_of (idoms d)) i p r))"

lemma frontier_blocks_spec:
  assumes num: "numbered (cfg_predecessors (af_cfg func)) po"
    and tr: "tree (cfg_predecessors (af_cfg func)) po (par_of (idoms d))" and len: "length (idoms d) = n"
    and preds: "length (cfg_predecessors (af_cfg func)) = n"
      "\<And>p c. c < n \<Longrightarrow> p \<in> set (cfg_predecessors (af_cfg func) ! c) \<Longrightarrow> p < n"
    and parent: "\<And>i p c. par_of (idoms d) c = Some i \<Longrightarrow> pred_edge (cfg_predecessors (af_cfg func)) p c \<Longrightarrow>
      par_of (idoms d) p \<noteq> None \<Longrightarrow> anc (par_of (idoms d)) i p"
  shows "(\<forall>b \<in> set blocks. bb_id b < n) \<Longrightarrow> square n m \<Longrightarrow>
    \<exists>m'. frontier_blocks d func blocks m = Some m' \<and>
      extends n (\<lambda>r c. c \<in> bb_id ` set blocks \<and> joined d func r c) m m'"
proof (induction blocks arbitrary: m)
  case Nil
  then show ?case using extends_none [of n m] by simp
next
  case (Cons b blocks)
  let ?c = "bb_id b" and ?P = "cfg_predecessors (af_cfg func)"
  have c: "?c < n" using Cons.prems(1) by simp
  have get: "func_predecessors func ?c = Some (?P ! ?c)"
    using c preds(1) by (simp add: func_predecessors_def vec_get_def)
  obtain m1 where m1: "frontier_blocks d func (b # blocks) m = frontier_blocks d func blocks m1"
    "extends n (\<lambda>r c'. c' = ?c \<and> joined d func r c') m m1"
  proof (cases "2 \<le> length (?P ! ?c) \<and> par_of (idoms d) ?c \<noteq> None")
    case True
    then obtain i where i: "par_of (idoms d) ?c = Some i" by auto
    have "par_of (idoms d) i \<noteq> None" using treeD(4) [OF tr i] by auto
    then obtain m1 where "frontier_preds d ?c i (?P ! ?c) m = Some m1"
      "extends n (\<lambda>r c'. c' = ?c \<and> (\<exists>p \<in> set (?P ! ?c). walked (par_of (idoms d)) i p r)) m m1"
      using frontier_preds_spec [OF num tr len c _ _ Cons.prems(2), of i "?P ! ?c"] preds c parent [OF i]
      by (auto simp: pred_edge_def)
    moreover from this(2) have "extends n (\<lambda>r c'. c' = ?c \<and> joined d func r c') m m1"
      using True i by (auto simp: extends_def joined_def)
    ultimately show ?thesis using that get True i by (simp add: immediate_dominator_par)
  next
    case False
    then have "frontier_blocks d func (b # blocks) m = frontier_blocks d func blocks m"
      using get by (auto simp: immediate_dominator_par)
    moreover have "extends n (\<lambda>r c'. c' = ?c \<and> joined d func r c') m m"
      by (rule extends_none [OF Cons.prems(2)]) (use False in \<open>auto simp: joined_def\<close>)
    ultimately show ?thesis by (rule that)
  qed
  obtain m2 where m2: "frontier_blocks d func blocks m1 = Some m2"
    "extends n (\<lambda>r c. c \<in> bb_id ` set blocks \<and> joined d func r c) m1 m2"
    using Cons.IH [OF _ extends_square [OF m1(2)]] Cons.prems(1) by auto
  have "extends n (\<lambda>r c. c \<in> bb_id ` set (b # blocks) \<and> joined d func r c) m m2"
    by (rule extends_trans [OF m1(2) m2(2)]) auto
  then show ?case using m1(1) m2(1) by simp
qed

text \<open>A block with one predecessor has it as its parent.\<close>

lemma only_pred_dominates:
  assumes num: "numbered preds po" and tr: "tree preds po par" and anc: "\<And>a b. anc par a b \<longleftrightarrow> doms preds a b"
    and par: "par c = Some i" and c: "c \<noteq> 0" and only: "\<And>u. pred_edge preds u c \<longleftrightarrow> u = p"
  shows "anc par p i"
proof -
  note rc = treeD(2) [OF tr par]
  obtain q where q: "reached preds q" "pred_edge preds q c" "po c < po q" using numberedD(3) [OF num rc c] by blast
  then have p: "q = p" "p \<noteq> c" "reached preds p" using only by auto
  have "\<not> reach_avoiding preds p c"
  proof
    assume a: "reach_avoiding preds p c"
    then have "(\<lambda>u v. pred_edge preds u v \<and> v \<noteq> p)\<^sup>*\<^sup>* 0 c" by (simp add: reach_avoiding_def)
    then obtain u where "(\<lambda>u v. pred_edge preds u v \<and> v \<noteq> p)\<^sup>*\<^sup>* 0 u" "pred_edge preds u c"
      using c by (cases rule: rtranclp.cases) auto
    then have "reach_avoiding preds p p" using a only by (simp add: reach_avoiding_def)
    then show False using doms_refl [OF p(3)] by (simp add: doms_def)
  qed
  then have "anc par p c" using rc anc by (simp add: doms_def)
  then show ?thesis using anc_cases [OF tr _ par] p(2) by blast
qed

text \<open>In a tree of dominators the frontier of a block has its definition.\<close>

lemma joined_frontier:
  assumes tr: "tree (cfg_predecessors (af_cfg func)) po (par_of (idoms d))"
    and num: "numbered (cfg_predecessors (af_cfg func)) po"
    and anc: "\<And>a b. anc (par_of (idoms d)) a b \<longleftrightarrow> doms (cfg_predecessors (af_cfg func)) a b"
    and r: "reached (cfg_predecessors (af_cfg func)) r" and c: "c \<noteq> 0"
  shows "joined d func r c \<longleftrightarrow> (\<exists>p. pred_edge (cfg_predecessors (af_cfg func)) p c \<and>
    doms (cfg_predecessors (af_cfg func)) r p \<and> \<not> (r \<noteq> c \<and> doms (cfg_predecessors (af_cfg func)) r c))"
    (is "_ \<longleftrightarrow> ?R")
proof -
  let ?P = "cfg_predecessors (af_cfg func)" and ?par = "par_of (idoms d)"
  have proc: "?par b \<noteq> None \<longleftrightarrow> reached ?P b" for b
    using treeD(2) [OF tr, of b] doms_refl [of ?P b] anc [of b b] anc_par [of ?par b b] by auto
  have edge: "pred_edge ?P p c \<longleftrightarrow> p \<in> set (?P ! c)" if pc: "?par c \<noteq> None" for p
  proof -
    have "reached ?P c" using pc proc by blast
    then obtain u where "pred_edge ?P u c" using c by (cases rule: rtranclp.cases) auto
    then show ?thesis by (simp add: pred_edge_def)
  qed
  show ?thesis
  proof (cases "?par c")
    case None
    then have "\<not> reached ?P c" using proc [of c] by auto
    then have "\<not> ?R" by (auto simp: doms_def intro: rtranclp.rtrancl_into_rtrancl)
    then show ?thesis using None by (simp add: joined_def)
  next
    case (Some i)
    have strict: "r \<noteq> c \<and> doms ?P r c \<longleftrightarrow> anc ?par r i"
      using anc_cases [OF tr _ Some, of r] anc.anc_step [of ?par, OF Some, of r] anc_po [OF tr, of r i]
        treeD(3) [OF tr Some c] anc by auto
    have walked: "walked ?par i p r \<longleftrightarrow> doms ?P r p \<and> \<not> anc ?par r i" if "pred_edge ?P p c" for p
      using r proc [of r] anc [of r p] anc_par [of ?par r p] by (auto simp: walked_def)
    have "2 \<le> length (?P ! c)" if p: "pred_edge ?P p c" "doms ?P r p" "\<not> anc ?par r i" for p
    proof (rule ccontr)
      assume "\<not> 2 \<le> length (?P ! c)"
      then have "length (?P ! c) \<le> 1" by simp
      moreover have mem: "p \<in> set (?P ! c)" using p(1) edge Some by simp
      ultimately have "?P ! c = [p]" by (cases "?P ! c"; cases "tl (?P ! c)") auto
      then have "anc ?par p i" using only_pred_dominates [OF num tr anc Some c] Some edge by simp
      then show False using anc_trans [of ?par p i r] p(2,3) anc by blast
    qed
    then show ?thesis using Some walked edge strict by (auto simp: joined_def)
  qed
qed

lemma bm_new_blocks:
  assumes "n < 2 ^ 32"
  obtains m where "bm_new n n = Some m" "square n m" "\<And>r. r < n \<Longrightarrow> bm_row m r = {}"
proof -
  have "n * div_ceil n 64 \<le> n * (n div 64 + 1)" by (rule mult_le_mono2 [OF div_ceil_le_Suc])
  also have "\<dots> \<le> 2 ^ 32 * (2 ^ 26)" by (rule mult_le_mono) (use assms in auto)
  also have "\<dots> \<le> usize_max" by (simp add: usize_max_def)
  finally have "bm_new n n \<noteq> None" by (simp add: bm_new_def Let_def)
  then show ?thesis using that bm_new_rows [of n n] by (auto simp: square_def)
qed

text \<open>
  C16: \<open>frontiers\<close> returns, and the matrix relates a reachable block to a block other than the entry exactly
  when the latter is in the dominance frontier of the former: a predecessor of it is dominated by
  the former, and it is not strictly dominated itself.
\<close>

theorem frontiers_exact:
  assumes "af_blocks func \<noteq> []" "af_cfg func = compute_cfg_edges (af_blocks func)"
    and "length (af_blocks func) < 2 ^ 32" "map bb_id (af_blocks func) = [0..<length (af_blocks func)]"
  shows "\<exists>d m. dominators_new func = Some d \<and> frontiers d func = Some m \<and>
    (\<forall>r c. (block_edge (af_blocks func))\<^sup>*\<^sup>* 0 r \<longrightarrow> 0 < c \<longrightarrow> c < length (af_blocks func) \<longrightarrow>
       bm_contains m r c = Some (\<exists>p. block_edge (af_blocks func) p c \<and>
         (block_edge (af_blocks func))\<^sup>*\<^sup>* 0 p \<and> on_every_path (af_blocks func) r p \<and>
         \<not> (r \<noteq> c \<and> on_every_path (af_blocks func) r c)))"
proof -
  let ?n = "length (af_blocks func)" and ?P = "cfg_predecessors (af_cfg func)" and ?E = "block_edge (af_blocks func)"
  obtain d po where d: "dominators_new func = Some d" "length (idoms d) = ?n" "numbered ?P po"
    "tree ?P po (par_of (idoms d))" "\<And>a b. anc (par_of (idoms d)) a b \<longleftrightarrow> doms ?P a b"
    using dominators_new_spec [OF assms(1-3)] by metis
  let ?par = "par_of (idoms d)"
  note E = pred_edge_computed [OF assms(2)]
  note cnt = cfg_countD [OF compute_cfg_count [of "af_blocks func"], folded assms(2)]
  obtain m0 where m0: "bm_new ?n ?n = Some m0" "square ?n m0" "\<And>r. r < ?n \<Longrightarrow> bm_row m0 r = {}"
    using bm_new_blocks [OF assms(3)] by blast
  have ids: "bb_id ` set (af_blocks func) = {..<?n}" using arg_cong [OF assms(4), of set] by (simp add: atLeast0LessThan)
  have parent: "anc ?par i p" if "?par c = Some i" "pred_edge ?P p c" "?par p \<noteq> None" for i p c
  proof -
    have rp: "reached ?P p" using treeD(2) [OF d(4)] that(3) by auto
    have "anc ?par i i" using treeD(4) [OF d(4) that(1)] anc.anc_refl [of ?par] by blast
    then have "doms ?P i c" using anc.anc_step [of ?par, OF that(1)] d(5) by blast
    then show ?thesis
      using doms_pred [of ?P i c p] that(1,2) rp d(5) treeD(1,3) [OF d(4)] doms_entry [OF rp]
      by (metis less_irrefl option.inject)
  qed
  obtain m where m: "frontier_blocks d func (af_blocks func) m0 = Some m"
    "extends ?n (\<lambda>r c. c \<in> {..<?n} \<and> joined d func r c) m0 m"
  proof -
    have blocks: "\<forall>b \<in> set (af_blocks func). bb_id b < ?n" using ids by auto
    have "\<exists>m'. frontier_blocks d func (af_blocks func) m0 = Some m' \<and>
        extends ?n (\<lambda>r c. c \<in> bb_id ` set (af_blocks func) \<and> joined d func r c) m0 m'"
      by (rule frontier_blocks_spec [OF d(3,4,2) cnt(2) _ _ blocks m0(2)]) (blast intro: cnt(5) parent)+
    then show ?thesis using that unfolding ids by blast
  qed
  have "bm_contains m r c = Some (joined d func r c)" if "r < ?n" "c < ?n" for r c
    using m(2) m0(3) that by (auto simp: extends_def bm_contains_row)
  moreover have "r < ?n" if "?E\<^sup>*\<^sup>* 0 r" for r
    using that assms(1) by (cases rule: rtranclp.cases) (auto simp: block_edge_def)
  moreover have "frontiers d func = Some m" using m0(1) m(1) by (simp add: frontiers_def)
  moreover have "joined d func r c \<longleftrightarrow> (\<exists>p. ?E p c \<and> ?E\<^sup>*\<^sup>* 0 p \<and> on_every_path (af_blocks func) r p \<and>
      \<not> (r \<noteq> c \<and> on_every_path (af_blocks func) r c))" if "?E\<^sup>*\<^sup>* 0 r" "0 < c" for r c
    using joined_frontier [OF d(4,3,5), of r c] that unfolding E doms_paths [OF assms(2)]
    by (auto intro: rtranclp.rtrancl_into_rtrancl)
  ultimately show ?thesis using d(1) by (intro exI conjI allI impI) auto
qed

theorem frontiers_exact_witness:
  "\<exists>d m. dominators_new diamond = Some d \<and> frontiers d diamond = Some m \<and> bm_contains m 1 3 = Some True"
proof -
  have "\<exists>d m. dominators_new diamond = Some d \<and> frontiers d diamond = Some m \<and>
      bm_contains m 1 3 = Some (\<exists>p. block_edge (af_blocks diamond) p 3 \<and> (block_edge (af_blocks diamond))\<^sup>*\<^sup>* 0 p \<and>
        on_every_path (af_blocks diamond) 1 p \<and> \<not> (1 \<noteq> (3 :: block_id) \<and> on_every_path (af_blocks diamond) 1 3))"
    using frontiers_exact [of diamond] diamond_facts diamond_reach(1) by auto
  moreover have ex: "\<exists>p. block_edge (af_blocks diamond) p 3 \<and> (block_edge (af_blocks diamond))\<^sup>*\<^sup>* 0 p \<and>
      on_every_path (af_blocks diamond) 1 p \<and> \<not> (1 \<noteq> (3 :: block_id) \<and> on_every_path (af_blocks diamond) 1 3)"
    by (rule exI [of _ 1]) (use diamond_edges(3) diamond_reach(1) diamond_paths in blast)
  ultimately show ?thesis by (simp only: ex)
qed


end
