(* ===== verification/TypeInterner.thy ===== *)
theory TypeInterner
  imports Prelude
begin

text \<open>
  Types of the language and their interning: \<open>arandu_middle/src/types/primitive.rs\<close>, \<open>vector.rs\<close>,
  \<open>ar_type/mod.rs\<close>, \<open>hir/pool.rs\<close> (\<open>IndexRange\<close>) and \<open>type_interner.rs\<close>. An interner hands out dense ids for
  types and stores argument lists in one vector. Its locks make every operation atomic, so an operation
  is a function on the state. An index out of range is a panic, \<^const>\<open>None\<close>. The values of frozen constants
  are a parameter \<open>'c\<close>.
\<close>

section \<open>Types\<close>

datatype primitive =
    PInt | PUint | PISize | PUSize | PFloat | PI8 | PI16 | PI32 | PI64 | PU8 | PU16 | PU32 | PU64 | PF32 | PF64
  | PBool | PByte | PChar | PStr | PAny

datatype vector_type = F32x4 | F64x2 | I32x4 | I16x8 | U8x16 | I64x2

type_synonym type_id = nat

record symbol_id =
  sym_file_id :: u32
  sym_local_id :: u32

record index_range =
  ir_start :: nat
  ir_len :: nat

definition ir_empty :: index_range where
  "ir_empty = \<lparr>ir_start = 0, ir_len = 0\<rparr>"

datatype 'c ar_type =
    ArPrimitive primitive
  | ArVector vector_type
  | ArNamed symbol_id index_range
  | ArFunc index_range type_id
  | ArNullable type_id
  | ArSlice type_id
  | ArMutSlice type_id
  | ArArray u64 type_id
  | ArConstArray symbol_id type_id
  | ArConst u64
  | ArFrozenConst 'c
  | ArConstParam symbol_id
  | ArPtr type_id
  | ArRef type_id
  | ArRefMut type_id
  | ArGenRef
  | ArTuple index_range
  | ArResult type_id type_id
  | ArOption type_id
  | ArCoroutine type_id
  | ArPoll type_id
  | ArRange type_id
  | ArErr
  | ArVoid
  | ArIntLiteral
  | ArFloatLiteral
  | ArError

section \<open>Names of the primitive types\<close>

fun primitive_as_str :: "primitive \<Rightarrow> string" where
  "primitive_as_str PInt = ''int''"
| "primitive_as_str PUint = ''uint''"
| "primitive_as_str PISize = ''isize''"
| "primitive_as_str PUSize = ''usize''"
| "primitive_as_str PFloat = ''float''"
| "primitive_as_str PI8 = ''i8''"
| "primitive_as_str PI16 = ''i16''"
| "primitive_as_str PI32 = ''i32''"
| "primitive_as_str PI64 = ''i64''"
| "primitive_as_str PU8 = ''u8''"
| "primitive_as_str PU16 = ''u16''"
| "primitive_as_str PU32 = ''u32''"
| "primitive_as_str PU64 = ''u64''"
| "primitive_as_str PF32 = ''f32''"
| "primitive_as_str PF64 = ''f64''"
| "primitive_as_str PBool = ''bool''"
| "primitive_as_str PByte = ''byte''"
| "primitive_as_str PChar = ''char''"
| "primitive_as_str PStr = ''str''"
| "primitive_as_str PAny = ''any''"

definition primitive_from_name :: "string \<Rightarrow> primitive option" where
  "primitive_from_name name =
     (if name = ''int'' then Some PInt
      else if name = ''uint'' then Some PUint
      else if name = ''isize'' then Some PISize
      else if name = ''usize'' then Some PUSize
      else if name = ''float'' then Some PFloat
      else if name = ''i8'' then Some PI8
      else if name = ''i16'' then Some PI16
      else if name = ''i32'' then Some PI32
      else if name = ''i64'' then Some PI64
      else if name = ''u8'' then Some PU8
      else if name = ''u16'' then Some PU16
      else if name = ''u32'' then Some PU32
      else if name = ''u64'' then Some PU64
      else if name = ''f32'' then Some PF32
      else if name = ''f64'' then Some PF64
      else if name = ''bool'' then Some PBool
      else if name = ''byte'' then Some PByte
      else if name = ''char'' then Some PChar
      else if name = ''str'' then Some PStr
      else if name = ''any'' then Some PAny
      else None)"

definition primitive_is_numeric :: "primitive \<Rightarrow> bool" where
  "primitive_is_numeric p \<longleftrightarrow>
     p \<in> {PInt, PUint, PISize, PUSize, PFloat, PI8, PI16, PI32, PI64, PU8, PU16, PU32, PU64, PF32, PF64, PByte}"

definition primitive_is_integer :: "primitive \<Rightarrow> bool" where
  "primitive_is_integer p \<longleftrightarrow> p \<in> {PInt, PUint, PISize, PUSize, PI8, PI16, PI32, PI64, PU8, PU16, PU32, PU64, PByte}"

definition primitive_is_float :: "primitive \<Rightarrow> bool" where
  "primitive_is_float p \<longleftrightarrow> p \<in> {PFloat, PF32, PF64}"

definition primitive_is_signed :: "primitive \<Rightarrow> bool" where
  "primitive_is_signed p \<longleftrightarrow> p \<in> {PInt, PISize, PI8, PI16, PI32, PI64, PFloat, PF32, PF64}"

lemma primitive_name_roundtrip: "primitive_from_name (primitive_as_str p) = Some p"
  by (cases p) (simp_all add: primitive_from_name_def)

lemma primitive_name_parsed: "primitive_from_name name = Some p \<Longrightarrow> name = primitive_as_str p"
  unfolding primitive_from_name_def by (auto split: if_split_asm)

lemma primitive_numeric: "primitive_is_numeric p \<longleftrightarrow> primitive_is_integer p \<or> primitive_is_float p"
  by (cases p) (simp_all add: primitive_is_numeric_def primitive_is_integer_def primitive_is_float_def)

section \<open>The interner\<close>

record type_args_pool =
  pool_args :: "type_id list"
  pool_seen :: "type_id list \<rightharpoonup> nat"

record 'c interner =
  it_map :: "'c ar_type \<rightharpoonup> type_id"
  it_types :: "'c ar_type list"
  it_pool :: type_args_pool

definition push_args_dedup :: "type_args_pool \<Rightarrow> type_id list \<Rightarrow> type_args_pool \<times> index_range" where
  "push_args_dedup pool args =
     (if args = [] then (pool, ir_empty)
      else
        case pool_seen pool args of
          Some start \<Rightarrow> (pool, \<lparr>ir_start = start, ir_len = length args\<rparr>)
        | None \<Rightarrow>
            let start = length (pool_args pool)
            in (pool\<lparr>pool_args := pool_args pool @ args, pool_seen := (pool_seen pool)(args \<mapsto> start)\<rparr>,
                \<lparr>ir_start = start, ir_len = length args\<rparr>))"

definition pool_get :: "type_args_pool \<Rightarrow> index_range \<Rightarrow> type_id list option" where
  "pool_get pool rng =
     (if ir_start rng + ir_len rng \<le> length (pool_args pool)
      then Some (take (ir_len rng) (drop (ir_start rng) (pool_args pool)))
      else None)"

text \<open>\<open>TypeArgsPool::try_get\<close> reads the same slice, with a checked sum and no panic.\<close>

definition pool_try_get :: "type_args_pool \<Rightarrow> index_range \<Rightarrow> type_id list option" where
  "pool_try_get pool rng =
     (if usize_max < ir_start rng + ir_len rng then None
      else if ir_start rng + ir_len rng \<le> length (pool_args pool)
      then Some (take (ir_len rng) (drop (ir_start rng) (pool_args pool)))
      else None)"

definition intern_ref :: "'c ar_type \<Rightarrow> 'c interner \<Rightarrow> type_id \<times> 'c interner" where
  "intern_ref ty it =
     (case it_map it ty of
        Some i \<Rightarrow> (i, it)
      | None \<Rightarrow>
          let i = length (it_types it)
          in (i, it\<lparr>it_map := (it_map it)(ty \<mapsto> i), it_types := it_types it @ [ty]\<rparr>))"

definition intern :: "'c ar_type \<Rightarrow> 'c interner \<Rightarrow> type_id \<times> 'c interner" where
  "intern ty it = intern_ref ty it"

definition preinterned :: "'c ar_type list" where
  "preinterned =
     map ArPrimitive [PInt, PUint, PFloat, PI8, PI16, PI32, PI64, PU8, PU16, PU32, PU64, PF32, PF64, PBool, PByte, PChar, PStr, PAny] @
     [ArVoid, ArErr, ArError, ArIntLiteral, ArFloatLiteral]"

definition interner_new :: "'c interner" where
  "interner_new = fold (\<lambda>ty it. snd (intern ty it)) preinterned
     \<lparr>it_map = (\<lambda>_. None), it_types = [], it_pool = \<lparr>pool_args = [], pool_seen = (\<lambda>_. None)\<rparr>\<rparr>"

definition push_type_args :: "type_id list \<Rightarrow> 'c interner \<Rightarrow> index_range \<times> 'c interner" where
  "push_type_args args it =
     (let (pool, rng) = push_args_dedup (it_pool it) args in (rng, it\<lparr>it_pool := pool\<rparr>))"

definition type_args :: "'c interner \<Rightarrow> index_range \<Rightarrow> type_id list option" where
  "type_args it rng = pool_get (it_pool it) rng"

definition type_arg :: "'c interner \<Rightarrow> index_range \<Rightarrow> nat \<Rightarrow> type_id option" where
  "type_arg it rng index =
     (case pool_try_get (it_pool it) rng of
        None \<Rightarrow> None
      | Some args \<Rightarrow> if index < length args then Some (args ! index) else None)"

definition try_type_args :: "'c interner \<Rightarrow> index_range \<Rightarrow> type_id list option" where
  "try_type_args it rng = pool_try_get (it_pool it) rng"

definition resolve :: "'c interner \<Rightarrow> type_id \<Rightarrow> 'c ar_type option" where
  "resolve it i = (if i < length (it_types it) then Some (it_types it ! i) else None)"

text \<open>\<open>try_resolve\<close> returns the \<open>None\<close> where \<open>resolve\<close> panics.\<close>

definition try_resolve :: "'c interner \<Rightarrow> type_id \<Rightarrow> 'c ar_type option" where
  "try_resolve it i = (if i < length (it_types it) then Some (it_types it ! i) else None)"

definition lookup :: "'c interner \<Rightarrow> 'c ar_type \<Rightarrow> type_id option" where
  "lookup it ty = it_map it ty"

definition interner_len :: "'c interner \<Rightarrow> nat" where
  "interner_len it = length (it_types it)"

definition interner_is_empty :: "'c interner \<Rightarrow> bool" where
  "interner_is_empty it \<longleftrightarrow> it_types it = []"

definition vec_starts_with :: "'a list \<Rightarrow> 'a list \<Rightarrow> bool" where
  "vec_starts_with xs prefix \<longleftrightarrow> length prefix \<le> length xs \<and> take (length prefix) xs = prefix"

definition interner_extends :: "'c interner \<Rightarrow> 'c interner \<Rightarrow> bool" where
  "interner_extends it base \<longleftrightarrow> vec_starts_with (it_types it) (it_types base) \<and>
     vec_starts_with (pool_args (it_pool it)) (pool_args (it_pool base))"

definition error_type_id :: "'c interner \<Rightarrow> type_id \<times> 'c interner" where
  "error_type_id it = intern ArError it"

definition preinterned_error_id :: "'c itself \<Rightarrow> type_id" where
  "preinterned_error_id c = fst (error_type_id (interner_new :: 'c interner))"

text \<open>
  \<open>preinterned_primitive\<close> interns into a hidden interner shared by all callers; its state is passed on.
\<close>

definition preinterned_primitive :: "primitive \<Rightarrow> 'c interner \<Rightarrow> type_id \<times> 'c interner" where
  "preinterned_primitive p cache = intern (ArPrimitive p) cache"

definition slice_abi_element :: "'c interner \<Rightarrow> type_id \<Rightarrow> type_id option option" where
  "slice_abi_element it i =
     (case resolve it i of
        None \<Rightarrow> None
      | Some (ArSlice element) \<Rightarrow> Some (Some element)
      | Some (ArMutSlice element) \<Rightarrow> Some (Some element)
      | Some (ArRef inner) \<Rightarrow>
          (case resolve it inner of
             None \<Rightarrow> None
           | Some (ArSlice element) \<Rightarrow> Some (Some element)
           | Some (ArMutSlice element) \<Rightarrow> Some (Some element)
           | Some _ \<Rightarrow> Some None)
      | Some (ArRefMut inner) \<Rightarrow>
          (case resolve it inner of
             None \<Rightarrow> None
           | Some (ArSlice element) \<Rightarrow> Some (Some element)
           | Some (ArMutSlice element) \<Rightarrow> Some (Some element)
           | Some _ \<Rightarrow> Some None)
      | Some _ \<Rightarrow> Some None)"

section \<open>Invariant\<close>

text \<open>The types a type is built from; \<^const>\<open>None\<close> when its argument range is not in the pool.\<close>

fun type_children :: "'c interner \<Rightarrow> 'c ar_type \<Rightarrow> type_id list option" where
  "type_children it (ArNamed _ rng) = type_args it rng"
| "type_children it (ArFunc rng ret) = map_option (\<lambda>ps. ps @ [ret]) (type_args it rng)"
| "type_children it (ArNullable i) = Some [i]"
| "type_children it (ArSlice i) = Some [i]"
| "type_children it (ArMutSlice i) = Some [i]"
| "type_children it (ArArray _ i) = Some [i]"
| "type_children it (ArConstArray _ i) = Some [i]"
| "type_children it (ArPtr i) = Some [i]"
| "type_children it (ArRef i) = Some [i]"
| "type_children it (ArRefMut i) = Some [i]"
| "type_children it (ArTuple rng) = type_args it rng"
| "type_children it (ArResult i j) = Some [i, j]"
| "type_children it (ArOption i) = Some [i]"
| "type_children it (ArCoroutine i) = Some [i]"
| "type_children it (ArPoll i) = Some [i]"
| "type_children it (ArRange i) = Some [i]"
| "type_children it _ = Some []"

text \<open>A type all of whose parts have ids below a bound.\<close>

definition built_below :: "'c interner \<Rightarrow> nat \<Rightarrow> 'c ar_type \<Rightarrow> bool" where
  "built_below it n ty \<longleftrightarrow> (\<exists>cs. type_children it ty = Some cs \<and> (\<forall>i \<in> set cs. i < n))"

abbreviation known_type :: "'c interner \<Rightarrow> 'c ar_type \<Rightarrow> bool" where
  "known_type it \<equiv> built_below it (length (it_types it))"

text \<open>
  The map and the vector are inverse, an argument list seen before is where the pool says, and types
  are built from types with smaller ids.
\<close>

definition interner_inv :: "'c interner \<Rightarrow> bool" where
  "interner_inv it \<longleftrightarrow>
     (\<forall>ty i. it_map it ty = Some i \<longleftrightarrow> i < length (it_types it) \<and> it_types it ! i = ty) \<and>
     (\<forall>args start. pool_seen (it_pool it) args = Some start \<longrightarrow>
        pool_get (it_pool it) \<lparr>ir_start = start, ir_len = length args\<rparr> = Some args) \<and>
     (\<forall>i < length (it_types it). built_below it i (it_types it ! i))"

definition interner_start :: "'c interner \<Rightarrow> bool" where
  "interner_start it \<longleftrightarrow> it = interner_new"

inductive interner_step :: "'c interner \<Rightarrow> 'c interner \<Rightarrow> bool" where
  step_intern: "known_type it ty \<Longrightarrow> interner_step it (snd (intern ty it))"
| step_args: "\<forall>i \<in> set args. i < length (it_types it) \<Longrightarrow> interner_step it (snd (push_type_args args it))"

inductive_cases interner_stepE: "interner_step it it'"

lemma vec_starts_with_iff: "vec_starts_with xs ys \<longleftrightarrow> (\<exists>zs. xs = ys @ zs)"
  unfolding vec_starts_with_def by (metis append_take_drop_id append_eq_conv_conj length_append le_add1)

lemma pool_get_extends:
  "vec_starts_with (pool_args pool') (pool_args pool) \<Longrightarrow> pool_get pool rng = Some args \<Longrightarrow> pool_get pool' rng = Some args"
  by (auto simp: vec_starts_with_iff pool_get_def split: if_splits)

lemma extends_refl: "interner_extends it it"
  by (simp add: interner_extends_def vec_starts_with_def)

lemma interner_extends_trans: "interner_extends c b \<Longrightarrow> interner_extends b a \<Longrightarrow> interner_extends c a"
  by (auto simp: interner_extends_def vec_starts_with_iff)

lemma type_args_extends: "interner_extends it' it \<Longrightarrow> type_args it rng = Some args \<Longrightarrow> type_args it' rng = Some args"
  by (auto simp: interner_extends_def type_args_def intro: pool_get_extends)

lemma resolve_extends: "interner_extends it' it \<Longrightarrow> resolve it i = Some ty \<Longrightarrow> resolve it' i = Some ty"
  by (auto simp: interner_extends_def vec_starts_with_iff resolve_def nth_append split: if_splits)

lemma type_children_extends:
  "interner_extends it' it \<Longrightarrow> type_children it ty = Some cs \<Longrightarrow> type_children it' ty = Some cs"
  by (cases ty) (auto intro: type_args_extends)

lemma built_below_extends: "interner_extends it' it \<Longrightarrow> built_below it n ty \<Longrightarrow> built_below it' n ty"
  by (auto simp: built_below_def dest: type_children_extends)

lemma built_below_mono: "built_below it n ty \<Longrightarrow> n \<le> m \<Longrightarrow> built_below it m ty"
  unfolding built_below_def by (meson less_le_trans)

lemma extends_length: "interner_extends it' it \<Longrightarrow> length (it_types it) \<le> length (it_types it')"
  by (auto simp: interner_extends_def vec_starts_with_def)

lemma intern_extends: "interner_extends (snd (intern ty it)) it"
  by (auto simp: intern_def intern_ref_def Let_def interner_extends_def vec_starts_with_iff split: option.split)

lemma push_type_args_extends: "interner_extends (snd (push_type_args args it)) it"
  by (auto simp: push_type_args_def push_args_dedup_def interner_extends_def vec_starts_with_iff Let_def split: option.split)

lemma intern_inv:
  assumes inv: "interner_inv it" and ty: "known_type it ty"
  shows "interner_inv (snd (intern ty it))"
proof (cases "it_map it ty")
  case None
  let ?n = "length (it_types it)" and ?it = "snd (intern ty it)"
  have it': "?it = it\<lparr>it_map := (it_map it)(ty \<mapsto> ?n), it_types := it_types it @ [ty]\<rparr>"
    using None by (simp add: intern_def intern_ref_def Let_def)
  note ext = intern_extends [of ty it]
  have map: "it_map it u = Some i \<longleftrightarrow> i < ?n \<and> it_types it ! i = u" for u i
    using inv by (simp add: interner_inv_def)
  have new: "it_types it ! i \<noteq> ty" if "i < ?n" for i using map [of ty i] None that by simp
  have "it_map ?it u = Some i \<longleftrightarrow> i < length (it_types ?it) \<and> it_types ?it ! i = u" for u i
    using map [of u i] new by (auto simp: it' nth_append)
  moreover have "built_below ?it i (it_types ?it ! i)" if "i < length (it_types ?it)" for i
  proof (cases "i < ?n")
    case True
    then have "built_below it i (it_types it ! i)" using inv by (simp add: interner_inv_def)
    then show ?thesis using built_below_extends [OF ext] True by (simp add: it' nth_append)
  next
    case False
    then have "i = ?n" using that by (simp add: it')
    then show ?thesis using built_below_extends [OF ext ty] by (simp add: it')
  qed
  moreover have "it_pool ?it = it_pool it" by (simp add: it')
  ultimately show ?thesis using inv by (simp add: interner_inv_def)
qed (use inv in \<open>simp add: intern_def intern_ref_def\<close>)

lemma push_type_args_inv:
  assumes inv: "interner_inv it"
  shows "interner_inv (snd (push_type_args args it))" "type_args (snd (push_type_args args it)) (fst (push_type_args args it)) = Some args"
proof -
  let ?it = "snd (push_type_args args it)" and ?r = "fst (push_type_args args it)"
  note ext = push_type_args_extends [of args it]
  have same: "it_types ?it = it_types it" "it_map ?it = it_map it"
    by (auto simp: push_type_args_def Let_def split: prod.split)
  have seen: "pool_get (it_pool it) \<lparr>ir_start = start, ir_len = length xs\<rparr> = Some xs"
    if "pool_seen (it_pool it) xs = Some start" for xs start using inv that by (simp add: interner_inv_def)
  have new: "pool_get (it_pool ?it) \<lparr>ir_start = start, ir_len = length xs\<rparr> = Some xs"
    if "pool_seen (it_pool ?it) xs = Some start" for xs start
  proof (cases "pool_seen (it_pool it) xs = Some start")
    case True
    then show ?thesis using pool_get_extends seen ext by (auto simp: interner_extends_def)
  next
    case False
    then have "args \<noteq> []" "pool_seen (it_pool it) args = None" "xs = args" "start = length (pool_args (it_pool it))"
      using that by (auto simp: push_type_args_def push_args_dedup_def Let_def split: option.splits if_splits)
    then show ?thesis by (simp add: push_type_args_def push_args_dedup_def pool_get_def Let_def)
  qed
  show "type_args ?it ?r = Some args"
    using seen [of args] by (auto simp: push_type_args_def push_args_dedup_def type_args_def pool_get_def ir_empty_def Let_def split: option.split if_splits)
  have "built_below ?it i (it_types ?it ! i)" if "i < length (it_types ?it)" for i
    using inv that built_below_extends [OF ext, of i "it_types it ! i"] by (simp add: interner_inv_def same)
  then show "interner_inv ?it" using inv new by (simp add: interner_inv_def same)
qed

lemma empty_inv:
  "interner_inv \<lparr>it_map = (\<lambda>_. None), it_types = [], it_pool = \<lparr>pool_args = [], pool_seen = (\<lambda>_. None)\<rparr>\<rparr>"
  by (simp add: interner_inv_def)

lemma fold_intern_inv:
  "interner_inv it \<Longrightarrow> \<forall>ty \<in> set tys. \<forall>it. known_type it ty \<Longrightarrow> interner_inv (fold (\<lambda>ty it. snd (intern ty it)) tys it)"
  by (induction tys arbitrary: it) (auto intro: intern_inv)

lemma interner_new_inv: "interner_inv interner_new"
  unfolding interner_new_def
  by (rule fold_intern_inv [OF empty_inv]) (auto simp: preinterned_def built_below_def)

interpretation interned: inductive_invariant interner_start interner_step interner_inv
  by unfold_locales
    (auto simp: interner_start_def interner_new_inv elim!: interner_stepE intro: intern_inv push_type_args_inv(1))

section \<open>Properties\<close>



text \<open>Argument lists: the same list always gives the same range, and reading it gives the list back.\<close>

lemma push_type_args_again:
  assumes "interner_inv it"
  shows "push_type_args args (snd (push_type_args args it)) = (fst (push_type_args args it), snd (push_type_args args it))"
  by (auto simp: push_type_args_def push_args_dedup_def Let_def split: option.split)

text \<open>
  \<open>preinterned_primitive\<close> promises the same index for every fresh interner. The list of
  \<open>TypeInterner::new\<close> lacks \<open>isize\<close> and \<open>usize\<close>: a fresh interner has no type under the id returned for them,
  and gives it to the first new type interned.
\<close>

lemma interner_new_types: "it_types (interner_new :: 'c interner) = preinterned"
  by (simp add: interner_new_def preinterned_def intern_def intern_ref_def Let_def)

lemma interner_new_unknown:
  fixes ty :: "'c ar_type"
  assumes "ty \<notin> set preinterned"
  shows "it_map interner_new ty = None"
proof (cases "it_map interner_new ty")
  case (Some i)
  have "it_map (interner_new :: 'c interner) ty = Some i \<longleftrightarrow> i < length (preinterned :: 'c ar_type list) \<and> preinterned ! i = ty"
    using interner_new_inv [where ?'a = 'c] by (simp add: interner_inv_def interner_new_types)
  then have "i < length (preinterned :: 'c ar_type list)" "preinterned ! i = ty" using Some by simp_all
  then show ?thesis using nth_mem assms by blast
qed

lemma preinterned_primitive_isize:
  "resolve (interner_new :: 'c interner) (fst (preinterned_primitive PISize (interner_new :: 'c interner))) = None"
  "resolve (snd (intern (ArSlice 0) (interner_new :: 'c interner))) (fst (preinterned_primitive PISize (interner_new :: 'c interner))) =
     Some (ArSlice 0)"
proof -
  have none: "it_map (interner_new :: 'c interner) (ArPrimitive PISize) = None"
    "it_map (interner_new :: 'c interner) (ArSlice 0) = None" by (auto intro!: interner_new_unknown simp: preinterned_def)
  then have i: "fst (preinterned_primitive PISize (interner_new :: 'c interner)) = length (preinterned :: 'c ar_type list)"
    by (simp add: preinterned_primitive_def intern_def intern_ref_def Let_def interner_new_types)
  show "resolve (interner_new :: 'c interner) (fst (preinterned_primitive PISize (interner_new :: 'c interner))) = None"
    by (simp add: i resolve_def interner_new_types)
  show "resolve (snd (intern (ArSlice 0) (interner_new :: 'c interner))) (fst (preinterned_primitive PISize (interner_new :: 'c interner))) =
     Some (ArSlice 0)"
    using none(2) by (simp add: i resolve_def interner_new_types intern_def intern_ref_def Let_def)
qed

end
