(* ===== verification/Layout.thy ===== *)
theory Layout
  imports TypeInterner "HOL-Library.Product_Lexorder"
begin

unbundle bit_operations_syntax

text \<open>
  The memory layout of types: \<open>arandu_middle/src/layout/data_layout.rs\<close> (targets), \<open>mod.rs\<close> (layouts, errors,
  the bounded walk, substitution), \<open>engine.rs\<close> (queries) and \<open>type_layout.rs\<close> (the computation). Sizes
  and offsets are 64-bit words and every sum is checked, as in the code. The provider of nominal
  types is the trait \<open>StructLayoutProvider\<close>, a record of functions.
\<close>

section \<open>Targets\<close>

record size_align =
  sa_size :: u64
  abi_align :: u64

definition sa_natural :: "u64 \<Rightarrow> size_align" where
  "sa_natural width = \<lparr>sa_size = width, abi_align = width\<rparr>"

record data_layout =
  dl_pointer :: size_align
  dl_float :: size_align
  dl_i64 :: size_align
  dl_f64 :: size_align

datatype data_layout_error = PointerWidth | ScalarWidth | Alignment | FloatLayout

text \<open>\<open>u64::is_power_of_two\<close>: exactly one bit is set.\<close>

definition is_power_of_two :: "u64 \<Rightarrow> bool" where
  "is_power_of_two w \<longleftrightarrow> count_ones w = 1"

definition dl_validate :: "data_layout \<Rightarrow> (data_layout_error, unit) result" where
  "dl_validate dl =
     (if \<not> (sa_size (dl_pointer dl) = 4 \<or> sa_size (dl_pointer dl) = 8) then Err PointerWidth
      else if sa_size (dl_float dl) \<noteq> 8 \<or> sa_size (dl_i64 dl) \<noteq> 8 \<or> sa_size (dl_f64 dl) \<noteq> 8 then Err ScalarWidth
      else if \<exists>cls \<in> set [dl_pointer dl, dl_float dl, dl_i64 dl, dl_f64 dl].
                \<not> is_power_of_two (abi_align cls) \<or> sa_size cls < abi_align cls
      then Err Alignment
      else if dl_float dl \<noteq> dl_f64 dl then Err FloatLayout
      else Ok ())"

definition dl_ptr_width :: "u64 \<Rightarrow> data_layout option" where
  "dl_ptr_width w =
     (if w = 4 \<or> w = 8
      then Some \<lparr>dl_pointer = sa_natural w, dl_float = \<lparr>sa_size = 8, abi_align = 8\<rparr>,
                 dl_i64 = \<lparr>sa_size = 8, abi_align = 8\<rparr>, dl_f64 = \<lparr>sa_size = 8, abi_align = 8\<rparr>\<rparr>
      else None)"

definition i686_sysv :: data_layout where
  "i686_sysv = \<lparr>dl_pointer = sa_natural 4, dl_float = \<lparr>sa_size = 8, abi_align = 4\<rparr>,
     dl_i64 = \<lparr>sa_size = 8, abi_align = 4\<rparr>, dl_f64 = \<lparr>sa_size = 8, abi_align = 4\<rparr>\<rparr>"

definition pointer_width :: "data_layout \<Rightarrow> u64" where
  "pointer_width dl = sa_size (dl_pointer dl)"

definition pointer_align :: "data_layout \<Rightarrow> u64" where
  "pointer_align dl = abi_align (dl_pointer dl)"

definition object_size_bound :: "data_layout \<Rightarrow> u64" where
  "object_size_bound dl = push_bit (unat (sa_size (dl_pointer dl) * 8 - 1)) 1"

section \<open>Layouts\<close>

datatype tag_encoding =
    Direct u64 u64
  | Niche u64 u64 u64 nat nat
  | PointerTag nat u64 u64

record type_layout =
  tl_size :: u64
  tl_align :: u64
  field_offsets :: "u64 list"
  tl_tag :: "tag_encoding option"

definition tl_simple :: "u64 \<Rightarrow> u64 \<Rightarrow> type_layout" where
  "tl_simple sz al = \<lparr>tl_size = sz, tl_align = al, field_offsets = [], tl_tag = None\<rparr>"

record gen_payload =
  gp_size :: u64
  gp_align :: u64

record soo_layout =
  max_inline_bytes :: u64
  inline_capacity :: nat
  is_inline_eligible :: bool

datatype layout_operation =
    ArrayRepeat | FieldOffset | AggregatePadding | EnumPayload | ResultPayload | OptionPayload | RangePair | GenPayload

datatype layout_error =
    SizeOverflow layout_operation u64
  | InvalidAlignment u64
  | UnresolvedConst
  | UnknownType
  | StructuralLimit

section \<open>Checked arithmetic\<close>

definition check_object_size :: "data_layout \<Rightarrow> u64 \<Rightarrow> layout_operation \<Rightarrow> (layout_error, u64) result" where
  "check_object_size dl v operation =
     (let limit = object_size_bound dl in if limit \<le> v then Err (SizeOverflow operation limit) else Ok v)"

definition layout_add :: "data_layout \<Rightarrow> u64 \<Rightarrow> u64 \<Rightarrow> layout_operation \<Rightarrow> (layout_error, u64) result" where
  "layout_add dl lhs rhs operation =
     (if 2 ^ 64 \<le> unat lhs + unat rhs then Err (SizeOverflow operation (object_size_bound dl))
      else check_object_size dl (lhs + rhs) operation)"

definition layout_mul :: "data_layout \<Rightarrow> u64 \<Rightarrow> u64 \<Rightarrow> layout_operation \<Rightarrow> (layout_error, u64) result" where
  "layout_mul dl lhs rhs operation =
     (if 2 ^ 64 \<le> unat lhs * unat rhs then Err (SizeOverflow operation (object_size_bound dl))
      else check_object_size dl (lhs * rhs) operation)"

definition align_up :: "data_layout \<Rightarrow> u64 \<Rightarrow> u64 \<Rightarrow> layout_operation \<Rightarrow> (layout_error, u64) result" where
  "align_up dl v al operation =
     (if al = 0 \<or> \<not> is_power_of_two al then Err (InvalidAlignment al)
      else
        let msk = al - 1 in
        if 2 ^ 64 \<le> unat v + unat msk then Err (SizeOverflow operation (object_size_bound dl))
        else check_object_size dl ((v + msk) AND NOT msk) operation)"

definition fat_pointer_layout :: "data_layout \<Rightarrow> type_layout" where
  "fat_pointer_layout dl = \<lparr>tl_size = pointer_width dl * 2, tl_align = pointer_align dl,
     field_offsets = [0, pointer_width dl], tl_tag = None\<rparr>"

section \<open>Nominal types\<close>

record struct_field_info =
  sf_name :: string
  sf_symbol :: "symbol_id option"
  sf_ty :: type_id
  sf_index :: nat

record struct_fields =
  sfs_fields :: "struct_field_info list"
  sfs_by_name :: "string \<rightharpoonup> nat"

definition sfs_from_entries :: "struct_field_info list \<Rightarrow> struct_fields" where
  "sfs_from_entries entries =
     fold (\<lambda>entry table. table\<lparr>sfs_fields := sfs_fields table @ [entry],
         sfs_by_name := (sfs_by_name table)(sf_name entry \<mapsto> length (sfs_fields table))\<rparr>)
       entries \<lparr>sfs_fields = [], sfs_by_name = (\<lambda>_. None)\<rparr>"

definition sfs_get :: "struct_fields \<Rightarrow> string \<Rightarrow> struct_field_info option option" where
  "sfs_get table name =
     (case sfs_by_name table name of
        None \<Rightarrow> Some None
      | Some idx \<Rightarrow> if idx < length (sfs_fields table) then Some (Some (sfs_fields table ! idx)) else None)"

text \<open>The payload type of each variant of an enum.\<close>

type_synonym variant_shapes = "type_id option list"

record 'c layout_provider =
  get_struct_fields_for_type :: "'c ar_type \<Rightarrow> 'c interner \<Rightarrow> struct_fields option"
  get_generic_params :: "symbol_id \<Rightarrow> symbol_id list option"
  get_enum_variants_for_type :: "'c ar_type \<Rightarrow> 'c interner \<Rightarrow> variant_shapes option"
  is_repr_c :: "symbol_id \<Rightarrow> bool"

section \<open>Substitution\<close>

text \<open>
  Computations on the interner, which they may extend. A part of a type is substituted and then looked
  up; when the result was never interned, the part stays as it was.
\<close>

type_synonym ('c, 'a) interning = "'c interner \<Rightarrow> ('a \<times> 'c interner) option"

definition subst_part :: "('c ar_type \<Rightarrow> ('c, 'c ar_type) interning) \<Rightarrow> type_id \<Rightarrow> ('c, type_id) interning" where
  "subst_part subst_ty inner it =
     (case resolve it inner of
        None \<Rightarrow> None
      | Some ty \<Rightarrow>
          (case subst_ty ty it of
             None \<Rightarrow> None
           | Some (ty', it') \<Rightarrow> Some (case lookup it' ty' of Some i \<Rightarrow> i | None \<Rightarrow> inner, it')))"

fun subst_parts :: "('c ar_type \<Rightarrow> ('c, 'c ar_type) interning) \<Rightarrow> type_id list \<Rightarrow> ('c, type_id list) interning" where
  "subst_parts subst_ty [] it = Some ([], it)"
| "subst_parts subst_ty (i # is) it =
     (case subst_part subst_ty i it of
        None \<Rightarrow> None
      | Some (j, it1) \<Rightarrow>
          (case subst_parts subst_ty is it1 of
             None \<Rightarrow> None
           | Some (js, it2) \<Rightarrow> Some (j # js, it2)))"

definition subst_one ::
  "('c ar_type \<Rightarrow> ('c, 'c ar_type) interning) \<Rightarrow> (type_id \<Rightarrow> 'c ar_type) \<Rightarrow> type_id \<Rightarrow> ('c, 'c ar_type) interning" where
  "subst_one subst_ty con inner it = map_option (\<lambda>(i, it'). (con i, it')) (subst_part subst_ty inner it)"

definition subst_range ::
  "('c ar_type \<Rightarrow> ('c, 'c ar_type) interning) \<Rightarrow> index_range \<Rightarrow> ('c, type_id list) interning" where
  "subst_range subst_ty rng it =
     (case type_args it rng of None \<Rightarrow> None | Some args \<Rightarrow> subst_parts subst_ty args it)"

text \<open>
  The first argument bounds the nesting of the type. Types are built from types with smaller ids, so the
  number of interned types is enough.
\<close>

fun layout_substitute :: "nat \<Rightarrow> (symbol_id \<rightharpoonup> type_id) \<Rightarrow> 'c ar_type \<Rightarrow> ('c, 'c ar_type) interning" where
  "layout_substitute 0 subst ty it = None"
| "layout_substitute (Suc n) subst ty it =
     (case ty of
        ArNamed symb rng \<Rightarrow>
          (case subst symb of
             Some concrete \<Rightarrow> map_option (\<lambda>ty'. (ty', it)) (resolve it concrete)
           | None \<Rightarrow>
               (case subst_range (layout_substitute n subst) rng it of
                  None \<Rightarrow> None
                | Some (new_args, it1) \<Rightarrow>
                    let (rng', it2) = push_type_args new_args it1 in Some (ArNamed symb rng', it2)))
      | ArFunc rng ret \<Rightarrow>
          (case subst_range (layout_substitute n subst) rng it of
             None \<Rightarrow> None
           | Some (new_params, it1) \<Rightarrow>
               (case subst_part (layout_substitute n subst) ret it1 of
                  None \<Rightarrow> None
                | Some (new_ret, it2) \<Rightarrow>
                    let (rng', it3) = push_type_args new_params it2 in Some (ArFunc rng' new_ret, it3)))
      | ArNullable inner \<Rightarrow> subst_one (layout_substitute n subst) ArNullable inner it
      | ArSlice inner \<Rightarrow> subst_one (layout_substitute n subst) ArSlice inner it
      | ArMutSlice inner \<Rightarrow> subst_one (layout_substitute n subst) ArMutSlice inner it
      | ArArray len inner \<Rightarrow> subst_one (layout_substitute n subst) (ArArray len) inner it
      | ArConstArray param inner \<Rightarrow>
          (case resolve it inner of
             None \<Rightarrow> None
           | Some inner_ty \<Rightarrow>
               (case layout_substitute n subst inner_ty it of
                  None \<Rightarrow> None
                | Some (ty', it1) \<Rightarrow>
                    let (new_inner, it2) = intern ty' it1 in
                    (case subst param of
                       None \<Rightarrow> Some (ArConstArray param new_inner, it2)
                     | Some i \<Rightarrow>
                         (case resolve it2 i of
                            None \<Rightarrow> None
                          | Some (ArConst len) \<Rightarrow> Some (ArArray len new_inner, it2)
                          | Some _ \<Rightarrow> Some (ArConstArray param new_inner, it2)))))
      | ArConstParam param \<Rightarrow>
          (case subst param of
             None \<Rightarrow> Some (ty, it)
           | Some i \<Rightarrow> map_option (\<lambda>ty'. (ty', it)) (resolve it i))
      | ArPtr inner \<Rightarrow> subst_one (layout_substitute n subst) ArPtr inner it
      | ArRef inner \<Rightarrow> subst_one (layout_substitute n subst) ArRef inner it
      | ArRefMut inner \<Rightarrow> subst_one (layout_substitute n subst) ArRefMut inner it
      | ArTuple rng \<Rightarrow>
          (case subst_range (layout_substitute n subst) rng it of
             None \<Rightarrow> None
           | Some (new_tys, it1) \<Rightarrow>
               let (rng', it2) = push_type_args new_tys it1 in Some (ArTuple rng', it2))
      | ArResult ok err \<Rightarrow>
          (case subst_part (layout_substitute n subst) ok it of
             None \<Rightarrow> None
           | Some (new_ok, it1) \<Rightarrow> subst_one (layout_substitute n subst) (ArResult new_ok) err it1)
      | ArOption inner \<Rightarrow> subst_one (layout_substitute n subst) ArOption inner it
      | ArCoroutine inner \<Rightarrow> subst_one (layout_substitute n subst) ArCoroutine inner it
      | ArPoll inner \<Rightarrow> subst_one (layout_substitute n subst) ArPoll inner it
      | ArRange inner \<Rightarrow> subst_one (layout_substitute n subst) ArRange inner it
      | _ \<Rightarrow> Some (ty, it))"

text \<open>A map collected from pairs keeps the last value of a key.\<close>

definition generic_subst :: "symbol_id list \<Rightarrow> type_id list \<Rightarrow> symbol_id \<rightharpoonup> type_id" where
  "generic_subst params args = map_of (rev (zip params args))"

section \<open>The bounded walk\<close>

text \<open>
  A query threads the interner and the number of visits left. It returns a result or an error, and keeps the
  state in both cases; \<^const>\<open>None\<close> is a panic.
\<close>

type_synonym ('c, 'a) query = "'c interner \<times> nat \<Rightarrow> ((layout_error, 'a) result \<times> 'c interner \<times> nat) option"

definition q_result :: "(layout_error, 'a) result \<Rightarrow> ('c, 'a) query" where
  "q_result r st = Some (r, st)"

abbreviation q_ok :: "'a \<Rightarrow> ('c, 'a) query" where
  "q_ok x \<equiv> q_result (Ok x)"

abbreviation q_err :: "layout_error \<Rightarrow> ('c, 'a) query" where
  "q_err e \<equiv> q_result (Err e)"

definition q_bind :: "('c, 'a) query \<Rightarrow> ('a \<Rightarrow> ('c, 'b) query) \<Rightarrow> ('c, 'b) query" where
  "q_bind m f st =
     (case m st of None \<Rightarrow> None | Some (Inl e, st') \<Rightarrow> Some (Inl e, st') | Some (Inr x, st') \<Rightarrow> f x st')"

text \<open>\<open>Result::ok\<close>, a read of the interner, a change of the interner.\<close>

definition q_try :: "('c, 'a) query \<Rightarrow> ('c, 'a option) query" where
  "q_try m st =
     (case m st of None \<Rightarrow> None | Some (Inl e, st') \<Rightarrow> Some (Inr None, st') | Some (Inr x, st') \<Rightarrow> Some (Inr (Some x), st'))"

definition q_read :: "('c interner \<Rightarrow> 'a option) \<Rightarrow> ('c, 'a) query" where
  "q_read f st = map_option (\<lambda>x. (Inr x, st)) (f (fst st))"

definition q_intern :: "('c, 'a) interning \<Rightarrow> ('c, 'a) query" where
  "q_intern f st = map_option (\<lambda>(x, it'). (Inr x, it', snd st)) (f (fst st))"

definition max_nodes :: nat where
  "max_nodes = 4096"

definition max_depth :: nat where
  "max_depth = 128"

definition visit :: "('c, unit) query" where
  "visit st = (if snd st = 0 then Some (Err StructuralLimit, st) else Some (Ok (), fst st, snd st - 1))"

section \<open>Aggregates\<close>

text \<open>
  The loop over the fields of a struct in physical order; an item is its declaration index and its layout.
  The loop over a tuple computes the layouts as it goes.
\<close>

fun place_items ::
  "data_layout \<Rightarrow> (nat \<times> type_layout) list \<Rightarrow> u64 \<Rightarrow> u64 \<Rightarrow> u64 list \<Rightarrow> (layout_error, u64 \<times> u64 \<times> u64 list) result" where
  "place_items dl [] current_offset max_align offsets = Ok (current_offset, max_align, offsets)"
| "place_items dl ((orig_index, layout) # items) current_offset max_align offsets =
     (case align_up dl current_offset (tl_align layout) FieldOffset of
        Inl e \<Rightarrow> Inl e
      | Inr offset \<Rightarrow>
          (case layout_add dl offset (tl_size layout) FieldOffset of
             Inl e \<Rightarrow> Inl e
           | Inr next_offset \<Rightarrow>
               place_items dl items next_offset (max max_align (tl_align layout))
                 (if orig_index < length offsets then offsets[orig_index := offset] else offsets)))"

text \<open>Descending order of a word.\<close>

definition descending_key :: "u64 \<Rightarrow> nat" where
  "descending_key w = 2 ^ 64 - unat w"

definition sort_items :: "bool \<Rightarrow> (nat \<times> type_layout) list \<Rightarrow> (nat \<times> type_layout) list" where
  "sort_items repr_c items =
     (if repr_c then sort_key fst items
      else sort_key (\<lambda>(orig_index, layout).
             (descending_key (tl_align layout), descending_key (tl_size layout), orig_index)) items)"

definition struct_layout :: "data_layout \<Rightarrow> bool \<Rightarrow> (nat \<times> type_layout) list \<Rightarrow> (layout_error, type_layout) result" where
  "struct_layout dl repr_c items =
     (case place_items dl (sort_items repr_c items) 0 1 (replicate (length items) 0) of
        Inl e \<Rightarrow> Inl e
      | Inr (current_offset, max_align, offsets) \<Rightarrow>
          (case align_up dl current_offset max_align AggregatePadding of
             Inl e \<Rightarrow> Inl e
           | Inr total_size \<Rightarrow>
               Ok \<lparr>tl_size = total_size, tl_align = max_align, field_offsets = offsets, tl_tag = None\<rparr>))"

fun tuple_items ::
  "('c ar_type \<Rightarrow> ('c, type_layout) query) \<Rightarrow> data_layout \<Rightarrow> type_id list \<Rightarrow> u64 \<Rightarrow> u64 \<Rightarrow> u64 list \<Rightarrow>
   ('c, u64 \<times> u64 \<times> u64 list) query" where
  "tuple_items layout_ty dl [] current_offset max_align offsets = q_ok (current_offset, max_align, offsets)"
| "tuple_items layout_ty dl (i # is) current_offset max_align offsets =
     q_bind (q_read (\<lambda>it. resolve it i)) (\<lambda>ty.
     q_bind (layout_ty ty) (\<lambda>layout.
     q_bind (q_result (align_up dl current_offset (tl_align layout) FieldOffset)) (\<lambda>offset.
     q_bind (q_result (layout_add dl offset (tl_size layout) FieldOffset)) (\<lambda>next_offset.
     tuple_items layout_ty dl is next_offset (max max_align (tl_align layout)) (offsets @ [offset])))))"

text \<open>
  A tag of the width of a pointer followed by the payload, as enums, results and options without a
  niche have it.
\<close>

definition tagged_layout ::
  "data_layout \<Rightarrow> layout_operation \<Rightarrow> u64 \<Rightarrow> u64 \<Rightarrow> (layout_error, type_layout) result" where
  "tagged_layout dl operation payload_size payload_align =
     (case align_up dl (pointer_width dl) payload_align operation of
        Inl e \<Rightarrow> Inl e
      | Inr payload_offset \<Rightarrow>
          (case layout_add dl payload_offset payload_size operation of
             Inl e \<Rightarrow> Inl e
           | Inr payload_end \<Rightarrow>
               (case align_up dl payload_end (max payload_align (pointer_width dl)) AggregatePadding of
                  Inl e \<Rightarrow> Inl e
                | Inr total_size \<Rightarrow>
                    Ok \<lparr>tl_size = total_size, tl_align = max payload_align (pointer_width dl),
                        field_offsets = [0, payload_offset],
                        tl_tag = Some (Direct (pointer_width dl) payload_offset)\<rparr>)))"

definition range_layout :: "data_layout \<Rightarrow> type_layout \<Rightarrow> (layout_error, type_layout) result" where
  "range_layout dl inner =
     (case align_up dl (tl_size inner) (tl_align inner) RangePair of
        Inl e \<Rightarrow> Inl e
      | Inr end_offset \<Rightarrow>
          (case layout_add dl end_offset (tl_size inner) RangePair of
             Inl e \<Rightarrow> Inl e
           | Inr fin \<Rightarrow>
               (case align_up dl fin (tl_align inner) AggregatePadding of
                  Inl e \<Rightarrow> Inl e
                | Inr total_size \<Rightarrow>
                    Ok \<lparr>tl_size = total_size, tl_align = tl_align inner, field_offsets = [0, end_offset],
                        tl_tag = None\<rparr>)))"

section \<open>The layout of a type\<close>

text \<open>
  The three recursive queries refer to each other one level deeper; their bodies take the deeper
  queries as arguments.
\<close>

fun primitive_layout :: "data_layout \<Rightarrow> primitive \<Rightarrow> type_layout" where
  "primitive_layout dl p =
     (if p \<in> {PI8, PU8, PByte, PBool} then tl_simple 1 1
      else if p \<in> {PI16, PU16} then tl_simple 2 2
      else if p \<in> {PI32, PU32, PF32} then tl_simple 4 4
      else if p = PChar then tl_simple 4 4
      else if p = PFloat then tl_simple (sa_size (dl_float dl)) (abi_align (dl_float dl))
      else if p \<in> {PI64, PU64} then tl_simple (sa_size (dl_i64 dl)) (abi_align (dl_i64 dl))
      else if p = PF64 then tl_simple (sa_size (dl_f64 dl)) (abi_align (dl_f64 dl))
      else if p \<in> {PInt, PUint} then tl_simple 4 4
      else if p \<in> {PISize, PUSize} then tl_simple (sa_size (dl_pointer dl)) (abi_align (dl_pointer dl))
      else if p = PStr then fat_pointer_layout dl
      else tl_simple (sa_size (dl_pointer dl)) (abi_align (dl_pointer dl)))"

definition pointer_layout :: "data_layout \<Rightarrow> type_layout" where
  "pointer_layout dl = tl_simple (sa_size (dl_pointer dl)) (abi_align (dl_pointer dl))"

definition is_slice :: "'c ar_type \<Rightarrow> bool" where
  "is_slice ty \<longleftrightarrow> (case ty of ArSlice _ \<Rightarrow> True | ArMutSlice _ \<Rightarrow> True | _ \<Rightarrow> False)"

text \<open>The declared type of a field with the arguments of the nominal type put in.\<close>

definition nominal_subst ::
  "'c layout_provider \<Rightarrow> symbol_id \<Rightarrow> index_range \<Rightarrow> ('c, symbol_id \<rightharpoonup> type_id) query" where
  "nominal_subst pv symb rng =
     q_bind (q_read (\<lambda>it. type_args it rng)) (\<lambda>arg_ids.
     q_ok (generic_subst (case get_generic_params pv symb of Some ps \<Rightarrow> ps | None \<Rightarrow> []) arg_ids))"

definition field_type :: "(symbol_id \<rightharpoonup> type_id) \<Rightarrow> type_id \<Rightarrow> ('c, 'c ar_type) query" where
  "field_type subst i =
     q_bind (q_read (\<lambda>it. resolve it i)) (\<lambda>ty.
     q_intern (\<lambda>it. layout_substitute (Suc (length (it_types it))) subst ty it))"

fun field_items ::
  "('c ar_type \<Rightarrow> ('c, type_layout) query) \<Rightarrow> (symbol_id \<rightharpoonup> type_id) \<Rightarrow>
   struct_field_info list \<Rightarrow> ('c, (nat \<times> type_layout) list) query" where
  "field_items layout_ty subst [] = q_ok []"
| "field_items layout_ty subst (f # fs) =
     q_bind (field_type subst (sf_ty f)) (\<lambda>ty.
     q_bind (layout_ty ty) (\<lambda>layout.
     q_bind (field_items layout_ty subst fs) (\<lambda>items.
     q_ok ((sf_index f, layout) # items))))"

text \<open>The payload types of an enum with its arguments put in; the results are interned.\<close>

fun substitute_variants ::
  "(symbol_id \<rightharpoonup> type_id) \<Rightarrow> variant_shapes \<Rightarrow> ('c, variant_shapes) query" where
  "substitute_variants subst [] = q_ok []"
| "substitute_variants subst (None # vs) =
     q_bind (substitute_variants subst vs) (\<lambda>vs'. q_ok (None # vs'))"
| "substitute_variants subst (Some payload # vs) =
     q_bind (field_type subst payload) (\<lambda>ty.
     q_bind (q_intern (\<lambda>it. Some (intern ty it))) (\<lambda>i.
     q_bind (substitute_variants subst vs) (\<lambda>vs'. q_ok (Some i # vs'))))"

definition concrete_variants ::
  "'c layout_provider \<Rightarrow> symbol_id \<Rightarrow> index_range \<Rightarrow> variant_shapes \<Rightarrow> ('c, variant_shapes) query" where
  "concrete_variants pv symb rng variants =
     (let params = (case get_generic_params pv symb of Some ps \<Rightarrow> ps | None \<Rightarrow> []) in
      q_bind (q_read (\<lambda>it. type_args it rng)) (\<lambda>arg_ids.
      if params \<noteq> [] \<and> arg_ids \<noteq> [] then substitute_variants (generic_subst params arg_ids) variants
      else q_ok variants))"

text \<open>
  The scan for the smallest alignment of the payloads' pointees; it stops at a payload that is not a
  pointer. The result is whether all are pointers, the alignment, and the number of payloads.
\<close>

fun pointee_scan ::
  "('c ar_type \<Rightarrow> ('c, u64 option) query) \<Rightarrow> variant_shapes \<Rightarrow> u64 \<Rightarrow> nat \<Rightarrow> ('c, bool \<times> u64 \<times> nat) query" where
  "pointee_scan align_ty [] min_align count = q_ok (True, min_align, count)"
| "pointee_scan align_ty (None # vs) min_align count = pointee_scan align_ty vs min_align count"
| "pointee_scan align_ty (Some payload # vs) min_align count =
     q_bind (q_read (\<lambda>it. resolve it payload)) (\<lambda>ty.
     q_bind (q_try (align_ty ty)) (\<lambda>r.
     case r of
       Some (Some al) \<Rightarrow> pointee_scan align_ty vs (if al < min_align then al else min_align) (Suc count)
     | _ \<Rightarrow> q_ok (False, min_align, Suc count)))"

fun payload_bounds ::
  "('c ar_type \<Rightarrow> ('c, type_layout) query) \<Rightarrow> variant_shapes \<Rightarrow> u64 \<Rightarrow> u64 \<Rightarrow> ('c, u64 \<times> u64) query" where
  "payload_bounds layout_ty [] max_size max_align = q_ok (max_size, max_align)"
| "payload_bounds layout_ty (None # vs) max_size max_align = payload_bounds layout_ty vs max_size max_align"
| "payload_bounds layout_ty (Some payload # vs) max_size max_align =
     q_bind (q_read (\<lambda>it. resolve it payload)) (\<lambda>ty.
     q_bind (layout_ty ty) (\<lambda>layout.
     payload_bounds layout_ty vs (max max_size (tl_size layout)) (max max_align (tl_align layout))))"

text \<open>The number of low pointer bits free for a tag.\<close>

definition tag_bits_of :: "data_layout \<Rightarrow> bool \<times> u64 \<times> nat \<Rightarrow> nat" where
  "tag_bits_of dl = (\<lambda>(all_eligible, min_align, count).
     if all_eligible \<and> 0 < count \<and> 2 \<le> min_align
     then min (trailing_zeros min_align) (if 8 \<le> pointer_width dl then 3 else 2)
     else 0)"

definition pointer_tag_layout :: "data_layout \<Rightarrow> nat \<Rightarrow> type_layout" where
  "pointer_tag_layout dl k = \<lparr>tl_size = pointer_width dl, tl_align = pointer_width dl, field_offsets = [0],
     tl_tag = Some (PointerTag k (push_bit k 1 - 1) 0)\<rparr>"

definition enum_layout ::
  "data_layout \<Rightarrow> ('c ar_type \<Rightarrow> ('c, type_layout) query) \<Rightarrow> ('c ar_type \<Rightarrow> ('c, u64 option) query) \<Rightarrow>
   variant_shapes \<Rightarrow> ('c, type_layout) query" where
  "enum_layout dl layout_ty align_ty variants =
     q_bind (pointee_scan align_ty variants (- 1) 0) (\<lambda>scan.
       let k = tag_bits_of dl scan in
       if 1 \<le> k \<and> length variants \<le> 2 ^ k then q_ok (pointer_tag_layout dl k)
       else
         q_bind (payload_bounds layout_ty variants 0 1) (\<lambda>(max_size, max_align).
         q_result (tagged_layout dl EnumPayload max_size max_align)))"

definition niche_layout :: "data_layout \<Rightarrow> type_layout \<Rightarrow> type_layout" where
  "niche_layout dl inner = \<lparr>tl_size = tl_size inner, tl_align = tl_align inner, field_offsets = [0, 0],
     tl_tag = Some (Niche 0 (pointer_width dl) 0 1 0)\<rparr>"

definition layout_body ::
  "data_layout \<Rightarrow> 'c layout_provider \<Rightarrow> ('c ar_type \<Rightarrow> ('c, type_layout) query) \<Rightarrow>
   ('c ar_type \<Rightarrow> ('c, bool) query) \<Rightarrow> ('c ar_type \<Rightarrow> ('c, u64 option) query) \<Rightarrow>
   'c ar_type \<Rightarrow> ('c, type_layout) query" where
  "layout_body dl pv layout_ty niche_ty align_ty ty =
     (case ty of
        ArPrimitive p \<Rightarrow> q_ok (primitive_layout dl p)
      | ArVector _ \<Rightarrow> q_ok (tl_simple 16 16)
      | ArIntLiteral \<Rightarrow> q_ok (tl_simple 4 4)
      | ArFloatLiteral \<Rightarrow> q_ok (tl_simple (sa_size (dl_float dl)) (abi_align (dl_float dl)))
      | ArErr \<Rightarrow> q_ok (pointer_layout dl)
      | ArVoid \<Rightarrow> q_ok (tl_simple 0 1)
      | ArError \<Rightarrow> q_ok (tl_simple 0 1)
      | ArRef inner \<Rightarrow>
          q_bind (q_read (\<lambda>it. resolve it inner)) (\<lambda>ty'.
          q_ok (if is_slice ty' then fat_pointer_layout dl else pointer_layout dl))
      | ArRefMut inner \<Rightarrow>
          q_bind (q_read (\<lambda>it. resolve it inner)) (\<lambda>ty'.
          q_ok (if is_slice ty' then fat_pointer_layout dl else pointer_layout dl))
      | ArPtr _ \<Rightarrow> q_ok (pointer_layout dl)
      | ArGenRef \<Rightarrow> q_ok \<lparr>tl_size = 8, tl_align = 4, field_offsets = [0, 4], tl_tag = None\<rparr>
      | ArNullable _ \<Rightarrow> q_ok (pointer_layout dl)
      | ArSlice _ \<Rightarrow> q_ok (fat_pointer_layout dl)
      | ArMutSlice _ \<Rightarrow> q_ok (fat_pointer_layout dl)
      | ArArray len inner \<Rightarrow>
          q_bind (q_read (\<lambda>it. resolve it inner)) (\<lambda>ty'.
          q_bind (layout_ty ty') (\<lambda>layout.
          q_bind (q_result (layout_mul dl (tl_size layout) len ArrayRepeat)) (\<lambda>total_size.
          q_ok \<lparr>tl_size = total_size, tl_align = tl_align layout, field_offsets = [], tl_tag = None\<rparr>)))
      | ArConstArray _ _ \<Rightarrow> q_err UnresolvedConst
      | ArFrozenConst _ \<Rightarrow> q_err UnresolvedConst
      | ArConst _ \<Rightarrow> q_err UnresolvedConst
      | ArConstParam _ \<Rightarrow> q_err UnresolvedConst
      | ArTuple tys \<Rightarrow>
          q_bind (q_read (\<lambda>it. type_args it tys)) (\<lambda>ty_ids.
          q_bind (tuple_items layout_ty dl ty_ids 0 1 []) (\<lambda>(current_offset, max_align, offsets).
          q_bind (q_result (align_up dl current_offset max_align AggregatePadding)) (\<lambda>total_size.
          q_ok \<lparr>tl_size = total_size, tl_align = max_align, field_offsets = offsets, tl_tag = None\<rparr>)))
      | ArNamed symb rng \<Rightarrow>
          q_bind (q_read (\<lambda>it. Some (get_struct_fields_for_type pv ty it))) (\<lambda>found.
          case found of
            Some fields_def \<Rightarrow>
              q_bind (nominal_subst pv symb rng) (\<lambda>subst.
              q_bind (field_items layout_ty subst (sfs_fields fields_def)) (\<lambda>items.
              q_result (struct_layout dl (is_repr_c pv symb) items)))
          | None \<Rightarrow>
              q_bind (q_read (\<lambda>it. Some (get_enum_variants_for_type pv ty it))) (\<lambda>variants.
              case variants of
                Some vs \<Rightarrow> q_bind (concrete_variants pv symb rng vs) (enum_layout dl layout_ty align_ty)
              | None \<Rightarrow> q_err UnknownType))
      | ArFunc _ _ \<Rightarrow> q_ok (tl_simple (pointer_width dl) (pointer_width dl))
      | ArResult ok err \<Rightarrow>
          q_bind (q_read (\<lambda>it. resolve it ok)) (\<lambda>ok_ty.
          q_bind (layout_ty ok_ty) (\<lambda>ok_layout.
          q_bind (q_read (\<lambda>it. resolve it err)) (\<lambda>err_ty.
          q_bind (layout_ty err_ty) (\<lambda>err_layout.
          q_result (tagged_layout dl ResultPayload (max (tl_size ok_layout) (tl_size err_layout))
            (max (tl_align ok_layout) (tl_align err_layout)))))))
      | ArOption inner \<Rightarrow>
          q_bind (q_read (\<lambda>it. resolve it inner)) (\<lambda>inner_ty.
          q_bind (layout_ty inner_ty) (\<lambda>layout.
          q_bind (niche_ty inner_ty) (\<lambda>niche.
          if niche then q_ok (niche_layout dl layout)
          else q_result (tagged_layout dl OptionPayload (tl_size layout) (tl_align layout)))))
      | ArPoll inner \<Rightarrow>
          q_bind (q_read (\<lambda>it. resolve it inner)) (\<lambda>inner_ty.
          q_bind (layout_ty inner_ty) (\<lambda>layout.
          q_result (tagged_layout dl OptionPayload (tl_size layout) (tl_align layout))))
      | ArCoroutine _ \<Rightarrow> q_ok (tl_simple (pointer_width dl) (pointer_width dl))
      | ArRange inner \<Rightarrow>
          q_bind (q_read (\<lambda>it. resolve it inner)) (\<lambda>inner_ty.
          q_bind (layout_ty inner_ty) (\<lambda>layout. q_result (range_layout dl layout))))"

text \<open>The field at offset zero.\<close>

definition first_field_at :: "u64 list \<Rightarrow> struct_field_info list \<Rightarrow> struct_field_info option" where
  "first_field_at offsets fs = find (\<lambda>f. sf_index f < length offsets \<and> offsets ! sf_index f = 0) fs"

definition niche_body ::
  "'c layout_provider \<Rightarrow> ('c ar_type \<Rightarrow> ('c, type_layout) query) \<Rightarrow> ('c ar_type \<Rightarrow> ('c, bool) query) \<Rightarrow>
   'c ar_type \<Rightarrow> ('c, bool) query" where
  "niche_body pv layout_ty niche_ty ty =
     (case ty of
        ArRef _ \<Rightarrow> q_ok True
      | ArRefMut _ \<Rightarrow> q_ok True
      | ArFunc _ _ \<Rightarrow> q_ok True
      | ArErr \<Rightarrow> q_ok True
      | ArNamed symb rng \<Rightarrow>
          q_bind (q_read (\<lambda>it. Some (get_struct_fields_for_type pv ty it))) (\<lambda>found.
          case found of
            None \<Rightarrow> q_ok False
          | Some fields_def \<Rightarrow>
              q_bind (q_try (layout_ty ty)) (\<lambda>r.
              case r of
                None \<Rightarrow> q_ok False
              | Some layout \<Rightarrow>
                  (case first_field_at (field_offsets layout) (sfs_fields fields_def) of
                     None \<Rightarrow> q_ok False
                   | Some f \<Rightarrow> q_bind (nominal_subst pv symb rng) (\<lambda>subst. q_bind (field_type subst (sf_ty f)) niche_ty))))
      | _ \<Rightarrow> q_ok False)"

definition pointee_body ::
  "'c layout_provider \<Rightarrow> ('c ar_type \<Rightarrow> ('c, type_layout) query) \<Rightarrow> ('c ar_type \<Rightarrow> ('c, u64 option) query) \<Rightarrow>
   'c ar_type \<Rightarrow> ('c, u64 option) query" where
  "pointee_body pv layout_ty align_ty ty =
     (let pointee = (\<lambda>inner.
        q_bind (q_read (\<lambda>it. resolve it inner)) (\<lambda>inner_ty.
        q_bind (layout_ty inner_ty) (\<lambda>layout. q_ok (Some (tl_align layout)))))
      in case ty of
        ArRef inner \<Rightarrow> pointee inner
      | ArRefMut inner \<Rightarrow> pointee inner
      | ArPtr inner \<Rightarrow> pointee inner
      | ArNamed symb rng \<Rightarrow>
          q_bind (q_read (\<lambda>it. Some (get_struct_fields_for_type pv ty it))) (\<lambda>found.
          case found of
            Some fields_def \<Rightarrow>
              (case sfs_fields fields_def of
                 [f] \<Rightarrow> q_bind (nominal_subst pv symb rng) (\<lambda>subst. q_bind (field_type subst (sf_ty f)) align_ty)
               | _ \<Rightarrow> q_ok None)
          | None \<Rightarrow> q_ok None)
      | _ \<Rightarrow> q_ok None)"

text \<open>
  The queries with the number of levels left, \<open>max_depth\<close> less the depth of the source; at none left the walk
  refuses.
\<close>

fun layout_of_type_inner ::
    "data_layout \<Rightarrow> 'c layout_provider \<Rightarrow> nat \<Rightarrow> 'c ar_type \<Rightarrow> ('c, type_layout) query"
  and has_null_niche_inner ::
    "data_layout \<Rightarrow> 'c layout_provider \<Rightarrow> nat \<Rightarrow> 'c ar_type \<Rightarrow> ('c, bool) query"
  and ref_pointee_align_inner ::
    "data_layout \<Rightarrow> 'c layout_provider \<Rightarrow> nat \<Rightarrow> 'c ar_type \<Rightarrow> ('c, u64 option) query" where
  "layout_of_type_inner dl pv 0 ty = q_err StructuralLimit"
| "layout_of_type_inner dl pv (Suc levels) ty =
     q_bind visit (\<lambda>_. layout_body dl pv (layout_of_type_inner dl pv levels)
       (has_null_niche_inner dl pv levels) (ref_pointee_align_inner dl pv levels) ty)"
| "has_null_niche_inner dl pv 0 ty = q_err StructuralLimit"
| "has_null_niche_inner dl pv (Suc levels) ty =
     q_bind visit (\<lambda>_. niche_body pv (layout_of_type_inner dl pv levels) (has_null_niche_inner dl pv levels) ty)"
| "ref_pointee_align_inner dl pv 0 ty = q_err StructuralLimit"
| "ref_pointee_align_inner dl pv (Suc levels) ty =
     q_bind visit (\<lambda>_. pointee_body pv (layout_of_type_inner dl pv levels) (ref_pointee_align_inner dl pv levels) ty)"

section \<open>The interface of the engine\<close>

text \<open>Every query starts a walk of its own; the interner stays.\<close>

definition run_query :: "('c, 'a) query \<Rightarrow> 'c interner \<Rightarrow> ((layout_error, 'a) result \<times> 'c interner) option" where
  "run_query m it = map_option (\<lambda>(r, it', _). (r, it')) (m (it, max_nodes))"

definition layout_of_type ::
  "data_layout \<Rightarrow> 'c layout_provider \<Rightarrow> 'c ar_type \<Rightarrow> 'c interner \<Rightarrow>
   ((layout_error, type_layout) result \<times> 'c interner) option" where
  "layout_of_type dl pv ty it = run_query (layout_of_type_inner dl pv max_depth ty) it"

definition layout_of ::
  "data_layout \<Rightarrow> 'c layout_provider \<Rightarrow> type_id \<Rightarrow> 'c interner \<Rightarrow>
   ((layout_error, type_layout) result \<times> 'c interner) option" where
  "layout_of dl pv i it = (case resolve it i of None \<Rightarrow> None | Some ty \<Rightarrow> layout_of_type dl pv ty it)"

definition has_null_niche ::
  "data_layout \<Rightarrow> 'c layout_provider \<Rightarrow> 'c ar_type \<Rightarrow> 'c interner \<Rightarrow> (bool \<times> 'c interner) option" where
  "has_null_niche dl pv ty it =
     map_option (\<lambda>(r, it'). (case r of Inl _ \<Rightarrow> False | Inr b \<Rightarrow> b, it'))
       (run_query (has_null_niche_inner dl pv max_depth ty) it)"

definition ref_pointee_align ::
  "data_layout \<Rightarrow> 'c layout_provider \<Rightarrow> 'c ar_type \<Rightarrow> 'c interner \<Rightarrow> (u64 option \<times> 'c interner) option" where
  "ref_pointee_align dl pv ty it =
     map_option (\<lambda>(r, it'). (case r of Inl _ \<Rightarrow> None | Inr a \<Rightarrow> a, it'))
       (run_query (ref_pointee_align_inner dl pv max_depth ty) it)"

definition soo_max_inline_bytes :: u64 where
  "soo_max_inline_bytes = 24"

definition soo_layout_for_type ::
  "data_layout \<Rightarrow> 'c layout_provider \<Rightarrow> 'c ar_type \<Rightarrow> 'c interner \<Rightarrow>
   ((layout_error, soo_layout) result \<times> 'c interner) option" where
  "soo_layout_for_type dl pv ty it =
     map_option (\<lambda>(r, it'). (case r of
          Inl e \<Rightarrow> Inl e
        | Inr layout \<Rightarrow>
            Ok \<lparr>max_inline_bytes = soo_max_inline_bytes,
                inline_capacity = (if tl_size layout = 0 then usize_max
                  else unat (soo_max_inline_bytes div tl_size layout)),
                is_inline_eligible = (tl_size layout \<le> soo_max_inline_bytes)\<rparr>, it'))
       (layout_of_type dl pv ty it)"

definition is_soo_eligible ::
  "data_layout \<Rightarrow> 'c layout_provider \<Rightarrow> 'c ar_type \<Rightarrow> 'c interner \<Rightarrow> (bool \<times> 'c interner) option" where
  "is_soo_eligible dl pv ty it =
     map_option (\<lambda>(r, it'). (case r of Inl _ \<Rightarrow> False | Inr layout \<Rightarrow> tl_size layout \<le> soo_max_inline_bytes, it'))
       (layout_of_type dl pv ty it)"

definition fat_ptr_len_offset :: "data_layout \<Rightarrow> u64" where
  "fat_ptr_len_offset dl = pointer_width dl"

definition fat_ptr_len_size :: "data_layout \<Rightarrow> u64" where
  "fat_ptr_len_size dl = pointer_width dl"

definition gen_payload_layout ::
  "data_layout \<Rightarrow> 'c layout_provider \<Rightarrow> type_id \<Rightarrow> 'c interner \<Rightarrow>
   ((layout_error, gen_payload) result \<times> 'c interner) option" where
  "gen_payload_layout dl pv i it =
     map_option (\<lambda>(r, it'). (case r of
          Inl e \<Rightarrow> Inl e
        | Inr layout \<Rightarrow>
            let limit = object_size_bound dl in
            if limit \<le> tl_size layout then Err (SizeOverflow GenPayload limit)
            else if tl_align layout = 0 \<or> \<not> is_power_of_two (tl_align layout) then Err (InvalidAlignment (tl_align layout))
            else Ok \<lparr>gp_size = tl_size layout, gp_align = tl_align layout\<rparr>, it'))
       (layout_of dl pv i it)"

end
