(* ===== verification/LayoutCorrect.thy ===== *)
theory LayoutCorrect
  imports Layout "HOL-Library.Multiset"
begin

unbundle bit_operations_syntax

text \<open>
  Correctness of the layout computation: alignments are powers of two that divide sizes, sizes stay below the
  bound of the target, the fields of an aggregate are aligned, inside it and apart, queries always
  return, and types that contain themselves by value are refused.
\<close>

named_theorems layout_intros \<open>what a query yields\<close>

section \<open>Powers of two and rounding\<close>

lemma unat_mask1: "k < 64 \<Longrightarrow> unat (mask1 k) = 2 ^ k"
proof -
  assume "k < 64"
  then have "(2 :: nat) ^ k < 2 ^ 64" by (rule power_strict_increasing) simp
  then have "unat (of_nat (2 ^ k) :: u64) = 2 ^ k" by (simp add: unat_of_nat del: of_nat_power)
  then show ?thesis by (simp add: mask1_def push_bit_eq_mult)
qed

lemma power_of_two_iff: "is_power_of_two w \<longleftrightarrow> (\<exists>k < 64. w = mask1 k)"
proof
  assume "is_power_of_two w"
  then have "card {n. n < 64 \<and> bit w n} = 1" by (simp add: is_power_of_two_def count_ones_card)
  then obtain k where k: "{n. n < 64 \<and> bit w n} = {k}" using card_1_singletonE by blast
  then have "bit w n \<longleftrightarrow> n = k" if "n < 64" for n using that by blast
  moreover have "k < 64" using k by blast
  ultimately have "w = mask1 k" by (simp add: word64_eq_iff bit_mask1)
  then show "\<exists>k < 64. w = mask1 k" using \<open>k < 64\<close> by blast
next
  assume "\<exists>k < 64. w = mask1 k"
  then obtain k where "k < 64" "w = mask1 k" by blast
  then have "{n. n < 64 \<and> bit w n} = {k}" by (auto simp: bit_mask1)
  then show "is_power_of_two w" by (simp add: is_power_of_two_def count_ones_card)
qed

lemma power_of_two_unat: "is_power_of_two w \<Longrightarrow> \<exists>k < 64. unat w = 2 ^ k"
  by (auto simp: power_of_two_iff unat_mask1)

lemma power_of_two_dvd:
  assumes "is_power_of_two a" "is_power_of_two b" "a \<le> b"
  shows "unat a dvd unat b"
proof -
  obtain j k where "unat a = 2 ^ j" "unat b = 2 ^ k" using assms(1,2) power_of_two_unat by metis
  moreover have "unat a \<le> unat b" using assms(3) by (simp add: word_le_nat_alt)
  ultimately show ?thesis by (simp add: le_imp_power_dvd)
qed

lemma power_of_two_max: "is_power_of_two a \<Longrightarrow> is_power_of_two b \<Longrightarrow> is_power_of_two (max a b)"
  by (simp add: max_def)

lemma and_not_mask_unat:
  fixes x :: u64
  assumes "k < 64"
  shows "unat (x AND NOT (mask k)) = unat x - unat x mod 2 ^ k"
proof -
  have "(x AND mask k) + (x AND NOT (mask k)) = (x AND mask k) OR (x AND NOT (mask k))"
    by (rule disjunctive_add) (auto simp: bit_simps)
  also have "\<dots> = x" by (rule bit_word_eqI) (auto simp: bit_simps)
  finally have x: "x AND NOT (mask k) = x - take_bit k x" by (simp add: take_bit_eq_mask algebra_simps)
  have t: "unat (take_bit k x) = unat x mod 2 ^ k" 
    using unat_mask1 [OF assms] by (simp add: take_bit_eq_mod unat_mod mask1_def push_bit_eq_mult)
  then have "take_bit k x \<le> x" by (simp add: word_le_nat_alt)
  then show ?thesis by (simp add: x t unat_sub)
qed

text \<open>What a successful operation of the checked arithmetic returns.\<close>

lemma check_object_size_Ok: "check_object_size dl v op = Inr r \<Longrightarrow> r = v \<and> r < object_size_bound dl"
  by (auto simp: check_object_size_def Let_def split: if_splits)

lemma layout_add_Ok:
  "layout_add dl a b op = Inr r \<Longrightarrow> unat r = unat a + unat b \<and> r < object_size_bound dl"
  by (auto simp: layout_add_def unat_word_ariths dest!: check_object_size_Ok split: if_splits)

lemma layout_mul_Ok:
  "layout_mul dl a b op = Inr r \<Longrightarrow> unat r = unat a * unat b \<and> r < object_size_bound dl"
  by (auto simp: layout_mul_def unat_word_ariths dest!: check_object_size_Ok split: if_splits)

lemma align_up_Ok:
  assumes "align_up dl v al op = Inr r"
  shows "is_power_of_two al" "unat al dvd unat r" "unat v \<le> unat r" "unat r < unat v + unat al" "r < object_size_bound dl"
proof -
  show pow: "is_power_of_two al" using assms by (auto simp: align_up_def split: if_splits)
  then obtain k where k: "k < 64" "al = mask1 k" by (auto simp: power_of_two_iff)
  have msk: "al - 1 = mask k" by (simp add: k(2) mask1_def mask_eq_exp_minus_1 push_bit_eq_mult)
  have le: "unat v + unat (al - 1) < 2 ^ 64" "check_object_size dl ((v + (al - 1)) AND NOT (al - 1)) op = Inr r"
    using assms by (auto simp: align_up_def Let_def split: if_splits)
  then have r: "unat r = unat (v + (al - 1)) - unat (v + (al - 1)) mod 2 ^ k" "r < object_size_bound dl"
    using check_object_size_Ok [OF le(2)] and_not_mask_unat [OF k(1)] unfolding msk by auto
  have al: "unat al = 2 ^ k" using k by (simp add: unat_mask1)
  then have "al \<noteq> 0" by auto
  then have "unat (al - 1) = 2 ^ k - 1" using unat_minus_one [of al] al by simp
  moreover have "unat (v + (al - 1)) = unat v + unat (al - 1)" using le(1) by (simp add: unat_word_ariths)
  ultimately have x: "unat (v + (al - 1)) = unat v + (2 ^ k - 1)" by simp
  let ?x = "unat v + (2 ^ k - 1)"
  have eq: "unat r = ?x div 2 ^ k * 2 ^ k" using r(1) by (simp add: x minus_mod_eq_div_mult)
  show "unat al dvd unat r" by (simp add: eq al)
  have m: "?x mod 2 ^ k < 2 ^ k" "unat r = ?x - ?x mod 2 ^ k" using r(1) by (simp_all add: x)
  show "unat v \<le> unat r" using m by linarith
  show "unat r < unat v + unat al" using m al by linarith
  show "r < object_size_bound dl" by (rule r(2))
qed

section \<open>What a query yields\<close>

definition yields :: "('c, 'a) query \<Rightarrow> ('a \<Rightarrow> bool) \<Rightarrow> bool" where
  "yields m P \<longleftrightarrow> (\<forall>st x st'. m st = Some (Inr x, st') \<longrightarrow> P x)"

lemma yields_result [layout_intros]: "(\<And>x. r = Inr x \<Longrightarrow> P x) \<Longrightarrow> yields (q_result r) P"
  by (auto simp: yields_def q_result_def)

lemma yields_bind: "yields m P \<Longrightarrow> (\<And>x. P x \<Longrightarrow> yields (f x) Q) \<Longrightarrow> yields (q_bind m f) Q"
  by (fastforce simp: yields_def q_bind_def split: option.splits sum.splits)

lemma yields_any: "yields m (\<lambda>_. True)"
  by (simp add: yields_def)

lemma yields_then: "(\<And>x. yields (f x) Q) \<Longrightarrow> yields (q_bind m f) Q"
  by (rule yields_bind [OF yields_any])

lemma yields_result_bind [layout_intros]: "(\<And>x. r = Inr x \<Longrightarrow> yields (f x) Q) \<Longrightarrow> yields (q_bind (q_result r) f) Q"
  by (auto simp: yields_def q_bind_def q_result_def split: sum.splits)

lemmas yields_skip [layout_intros] =
  yields_then [where m = "q_read g" for g] yields_then [where m = visit]
  yields_then [where m = "nominal_subst pv symb rng" for pv symb rng]
  yields_then [where m = "field_items layout_ty subst fs" for layout_ty subst fs]
  yields_then [where m = "concrete_variants pv symb rng vs" for pv symb rng vs]
  yields_then [where m = "pointee_scan align_ty vs a n" for align_ty vs a n]
  yields_then [where m = "payload_bounds layout_ty vs a b" for layout_ty vs a b]
  yields_then [where m = "tuple_items layout_ty dl is a b c" for layout_ty dl "is" a b c]

section \<open>Well-formed layouts\<close>

text \<open>
  A tag lies before the payload and the payload inside the value; the bits of a tagged pointer are the low one,
  two or three.
\<close>

definition tag_ok :: "data_layout \<Rightarrow> type_layout \<Rightarrow> bool" where
  "tag_ok dl l \<longleftrightarrow>
     (case tl_tag l of
        Some (Direct width payload_offset) \<Rightarrow>
          width = pointer_width dl \<and> unat width \<le> unat payload_offset \<and> unat payload_offset \<le> unat (tl_size l)
      | Some (PointerTag bits msk shift) \<Rightarrow> 1 \<le> bits \<and> bits \<le> 3 \<and> unat msk = 2 ^ bits - 1 \<and> tl_size l = pointer_width dl
      | _ \<Rightarrow> True)"

lemma tag_ok_None [simp]: "tl_tag l = None \<Longrightarrow> tag_ok dl l"
  by (simp add: tag_ok_def)

definition layout_ok :: "data_layout \<Rightarrow> type_layout \<Rightarrow> bool" where
  "layout_ok dl l \<longleftrightarrow> is_power_of_two (tl_align l) \<and> unat (tl_align l) dvd unat (tl_size l) \<and>
     tl_size l < object_size_bound dl \<and> tag_ok dl l"

lemma layout_okD:
  assumes "layout_ok dl l"
  shows "is_power_of_two (tl_align l)" "unat (tl_align l) dvd unat (tl_size l)" "tl_size l < object_size_bound dl" "tag_ok dl l"
  using assms by (simp_all add: layout_ok_def)

lemma small_powers: "is_power_of_two 1" "is_power_of_two 2" "is_power_of_two 4" "is_power_of_two 8" "is_power_of_two 16"
  unfolding power_of_two_iff
  by (rule exI [of _ 0], simp add: mask1_def, rule exI [of _ 1], simp add: mask1_def,
      rule exI [of _ 2], simp add: mask1_def, rule exI [of _ 3], simp add: mask1_def,
      rule exI [of _ 4], simp add: mask1_def)

text \<open>The facts about a target that \<open>validate\<close> accepts.\<close>

lemma validated:
  assumes "dl_validate dl = Ok ()"
  shows "pointer_width dl = 4 \<or> pointer_width dl = 8" "sa_size (dl_float dl) = 8" "sa_size (dl_i64 dl) = 8" "sa_size (dl_f64 dl) = 8"
    and "\<And>cls. cls \<in> set [dl_pointer dl, dl_float dl, dl_i64 dl, dl_f64 dl] \<Longrightarrow>
      is_power_of_two (abi_align cls) \<and> abi_align cls \<le> sa_size cls"
  using assms unfolding dl_validate_def pointer_width_def by (auto split: if_splits simp: not_less)

lemma bound_value:
  assumes "dl_validate dl = Ok ()"
  shows "unat (object_size_bound dl) = (if pointer_width dl = 4 then 2 ^ 31 else 2 ^ 63)"
proof -
  have "object_size_bound dl = mask1 (unat (pointer_width dl * 8 - 1))"
    by (simp add: object_size_bound_def mask1_def pointer_width_def)
  then show ?thesis using validated(1) [OF assms] unat_mask1 [of 31] unat_mask1 [of 63] by auto
qed

lemma small_size: "dl_validate dl = Ok () \<Longrightarrow> unat v < 2 ^ 31 \<Longrightarrow> v < object_size_bound dl"
  using bound_value [of dl] by (auto simp: word_less_nat_alt split: if_splits)

lemma sized_class_ok:
  assumes "dl_validate dl = Ok ()" "cls \<in> set [dl_pointer dl, dl_float dl, dl_i64 dl, dl_f64 dl]"
  shows "layout_ok dl (tl_simple (sa_size cls) (abi_align cls))"
proof -
  have "sa_size cls = 4 \<or> sa_size cls = 8" using validated(1-4) [OF assms(1)] assms(2) by (auto simp: pointer_width_def)
  moreover from this have "is_power_of_two (sa_size cls)" using small_powers by auto
  ultimately show ?thesis
    using validated(5) [OF assms] power_of_two_dvd small_size [OF assms(1), of "sa_size cls"]
    by (auto simp: layout_ok_def tl_simple_def)
qed

lemma pointer_layouts_ok:
  assumes "dl_validate dl = Ok ()"
  shows "layout_ok dl (pointer_layout dl)" "layout_ok dl (fat_pointer_layout dl)"
    "layout_ok dl (tl_simple (pointer_width dl) (pointer_width dl))" "is_power_of_two (pointer_width dl)"
proof -
  show p: "layout_ok dl (pointer_layout dl)" using sized_class_ok [OF assms] by (simp add: pointer_layout_def)
  show w: "is_power_of_two (pointer_width dl)" using validated(1) [OF assms] small_powers by auto
  show "layout_ok dl (tl_simple (pointer_width dl) (pointer_width dl))"
    using w validated(1) [OF assms] small_size [OF assms, of "pointer_width dl"] by (auto simp: layout_ok_def tl_simple_def)
  have twice: "unat (pointer_width dl * 2) = 2 * unat (pointer_width dl)" using validated(1) [OF assms] by auto
  then have "unat (pointer_align dl) dvd unat (pointer_width dl * 2)"
    using p by (simp add: layout_ok_def pointer_layout_def tl_simple_def pointer_align_def pointer_width_def)
  moreover have "pointer_width dl * 2 < object_size_bound dl"
    using small_size [OF assms] twice validated(1) [OF assms] by auto
  ultimately show "layout_ok dl (fat_pointer_layout dl)"
    using p by (simp add: layout_ok_def fat_pointer_layout_def pointer_layout_def tl_simple_def pointer_align_def)
qed

lemma simple_ok:
  assumes "dl_validate dl = Ok ()"
  shows "layout_ok dl (tl_simple 0 1)" "layout_ok dl (tl_simple 1 1)" "layout_ok dl (tl_simple 2 2)"
    "layout_ok dl (tl_simple 4 4)" "layout_ok dl (tl_simple 16 16)"
    "layout_ok dl \<lparr>tl_size = 8, tl_align = 4, field_offsets = offs, tl_tag = None\<rparr>"
  using small_powers small_size [OF assms] by (simp_all add: layout_ok_def tl_simple_def)

lemma primitive_layout_ok:
  assumes "dl_validate dl = Ok ()"
  shows "layout_ok dl (primitive_layout dl p)"
  using simple_ok [OF assms] sized_class_ok [OF assms] pointer_layouts_ok [OF assms] by (cases p) simp_all

text \<open>Rounding a size up to an alignment makes a layout well-formed.\<close>

lemma padded_ok:
  "align_up dl v al op = Inr sz \<Longrightarrow> layout_ok dl \<lparr>tl_size = sz, tl_align = al, field_offsets = offs, tl_tag = None\<rparr>"
  by (simp add: layout_ok_def align_up_Ok)

lemma tagged_layout_ok:
  assumes "tagged_layout dl op sz al = Inr l"
  shows "layout_ok dl l"
proof -
  let ?w = "pointer_width dl"
  obtain off fin total where off: "align_up dl ?w al op = Inr off" and fin: "layout_add dl off sz op = Inr fin"
    and total: "align_up dl fin (max al ?w) AggregatePadding = Inr total"
    and l: "l = \<lparr>tl_size = total, tl_align = max al ?w, field_offsets = [0, off], tl_tag = Some (Direct ?w off)\<rparr>"
    using assms by (auto simp: tagged_layout_def split: sum.splits)
  show ?thesis
    using align_up_Ok [OF off] layout_add_Ok [OF fin] align_up_Ok [OF total] by (simp add: l layout_ok_def tag_ok_def)
qed

lemma range_layout_ok: "range_layout dl inner = Inr l \<Longrightarrow> layout_ok dl l"
  by (auto simp: range_layout_def intro: padded_ok split: sum.splits)

lemma struct_layout_ok: "struct_layout dl repr_c items = Inr l \<Longrightarrow> layout_ok dl l"
  by (auto simp: struct_layout_def intro: padded_ok split: sum.splits)

lemma array_layout_ok:
  "layout_ok dl inner \<Longrightarrow> layout_mul dl (tl_size inner) len op = Inr sz \<Longrightarrow>
   layout_ok dl \<lparr>tl_size = sz, tl_align = tl_align inner, field_offsets = offs, tl_tag = None\<rparr>"
  by (auto simp: layout_ok_def dest!: layout_mul_Ok)

lemma enum_layout_ok:
  assumes "dl_validate dl = Ok ()"
  shows "yields (enum_layout dl layout_ty align_ty variants) (layout_ok dl)"
proof -
  have tag: "layout_ok dl (pointer_tag_layout dl (tag_bits_of dl scan))" if "Suc 0 \<le> tag_bits_of dl scan" for scan
  proof -
    have "tag_bits_of dl scan \<le> 3" by (auto simp: tag_bits_of_def split: prod.split)
    then have "tag_bits_of dl scan = 1 \<or> tag_bits_of dl scan = 2 \<or> tag_bits_of dl scan = 3" using that by linarith
    then have "tag_ok dl (pointer_tag_layout dl (tag_bits_of dl scan))"
      by (auto simp: tag_ok_def pointer_tag_layout_def)
    then show ?thesis
      using pointer_layouts_ok(3) [OF assms] by (simp add: layout_ok_def pointer_tag_layout_def tl_simple_def)
  qed
  show ?thesis
    unfolding enum_layout_def Let_def
    by (auto intro!: layout_intros tag split: if_splits prod.splits intro: tagged_layout_ok)
qed

lemma layout_body_ok:
  assumes dl: "dl_validate dl = Ok ()" and ih: "\<And>ty. yields (layout_ty ty) (layout_ok dl)"
  shows "yields (layout_body dl pv layout_ty niche_ty align_ty ty) (layout_ok dl)"
proof -
  note simple = simple_ok [OF dl] sized_class_ok [OF dl] pointer_layouts_ok [OF dl] primitive_layout_ok [OF dl]
  note call = yields_bind [OF ih] and skip = yields_then [where m = "niche_ty t" for t]
  have niche: "layout_ok dl (niche_layout dl l)" if "layout_ok dl l" for l
    using that by (simp add: layout_ok_def niche_layout_def tag_ok_def)
  show ?thesis
    by (cases ty)
      (auto simp: layout_body_def simple niche intro!: layout_intros call skip enum_layout_ok [OF dl] split: prod.split option.split
        intro: array_layout_ok padded_ok struct_layout_ok tagged_layout_ok range_layout_ok)
qed

lemma layout_inner_ok:
  "dl_validate dl = Ok () \<Longrightarrow> yields (layout_of_type_inner dl pv levels ty) (layout_ok dl)"
  by (induction levels arbitrary: ty) (auto intro!: layout_intros layout_body_ok)

section \<open>Fields of a struct\<close>

text \<open>One field ends before another starts.\<close>

definition before :: "u64 list \<Rightarrow> nat \<times> type_layout \<Rightarrow> nat \<times> type_layout \<Rightarrow> bool" where
  "before offs = (\<lambda>(i, f) (j, g). unat (offs ! i) + unat (tl_size f) \<le> unat (offs ! j))"

text \<open>A field is aligned, lies between two offsets, and its alignment divides that of the struct.\<close>

definition placed :: "u64 list \<Rightarrow> u64 \<Rightarrow> nat \<Rightarrow> nat \<Rightarrow> nat \<times> type_layout \<Rightarrow> bool" where
  "placed offs al lo hi = (\<lambda>(i, f). unat (tl_align f) dvd unat (offs ! i) \<and> unat (tl_align f) dvd unat al \<and>
     lo \<le> unat (offs ! i) \<and> unat (offs ! i) + unat (tl_size f) \<le> hi)"

lemma place_items_spec:
  assumes "place_items dl items cur al offs = Inr (cur', al', offs')" "distinct (map fst items)"
    "\<forall>i \<in> set (map fst items). i < length offs" "is_power_of_two al"
  shows "is_power_of_two al' \<and> al \<le> al' \<and> unat cur \<le> unat cur' \<and> length offs' = length offs \<and>
    (\<forall>j. j \<notin> set (map fst items) \<longrightarrow> offs' ! j = offs ! j) \<and>
    (\<forall>x \<in> set items. placed offs' al' (unat cur) (unat cur') x) \<and> sorted_wrt (before offs') items"
  using assms
proof (induction items arbitrary: cur al offs)
  case (Cons x items)
  obtain i f where x: "x = (i, f)" by fastforce
  obtain off nxt where off: "align_up dl cur (tl_align f) FieldOffset = Inr off"
    and nxt: "layout_add dl off (tl_size f) FieldOffset = Inr nxt"
    and rest: "place_items dl items nxt (max al (tl_align f)) (offs[i := off]) = Inr (cur', al', offs')"
    using Cons.prems(1,3) by (auto simp: x split: sum.splits)
  note a = align_up_Ok [OF off] and b = layout_add_Ok [OF nxt]
  have pow: "is_power_of_two (max al (tl_align f))" using Cons.prems(4) a(1) by (rule power_of_two_max)
  have ih: "is_power_of_two al'" "max al (tl_align f) \<le> al'" "unat nxt \<le> unat cur'" "length offs' = length offs"
    "\<forall>j. j \<notin> set (map fst items) \<longrightarrow> offs' ! j = offs[i := off] ! j"
    "\<forall>x \<in> set items. placed offs' al' (unat nxt) (unat cur') x" "sorted_wrt (before offs') items"
    using Cons.IH [OF rest _ _ pow] Cons.prems(2,3) by (auto simp: x)
  have i: "offs' ! i = off" using ih(5) Cons.prems(2,3) by (simp add: x)
  have "placed offs' al' (unat cur) (unat cur') x"
    using a b ih(2,3) power_of_two_dvd [OF a(1) ih(1)] by (simp add: x placed_def i)
  moreover have "placed offs' al' (unat cur) (unat cur') y" if "y \<in> set items" for y
    using bspec [OF ih(6) that] a(3) b by (auto simp: placed_def)
  moreover have "before offs' x y" if "y \<in> set items" for y
    using bspec [OF ih(6) that] b by (auto simp: placed_def before_def x i)
  ultimately show ?case using ih a(3) b Cons.prems(2) by (auto simp: x)
qed auto

lemma sort_items_mset: "mset (sort_items repr_c items) = mset items"
  by (simp add: sort_items_def)

lemma sort_items_facts:
  "set (sort_items repr_c items) = set items" "distinct (map fst (sort_items repr_c items)) \<longleftrightarrow> distinct (map fst items)"
proof -
  show "set (sort_items repr_c items) = set items" by (metis set_mset_mset sort_items_mset)
  have "mset (map fst (sort_items repr_c items)) = mset (map fst items)" by (simp add: sort_items_mset)
  then show "distinct (map fst (sort_items repr_c items)) \<longleftrightarrow> distinct (map fst items)" by (rule mset_eq_imp_distinct_iff)
qed

lemma sorted_wrt_pair:
  assumes "sorted_wrt R xs" "x \<in> set xs" "y \<in> set xs" "x \<noteq> y"
  shows "R x y \<or> R y x"
  using assms by (metis in_set_conv_nth linorder_neqE_nat sorted_wrt_nth_less)

lemma repr_c_order:
  assumes "sorted_wrt R (sort_items True items)" "x \<in> set items" "y \<in> set items" "fst x < fst y"
  shows "R x y"
proof -
  let ?xs = "sort_items True items"
  have sorted: "sorted (map fst ?xs)" by (simp add: sort_items_def)
  obtain m n where mn: "m < length ?xs" "?xs ! m = x" "n < length ?xs" "?xs ! n = y"
    using assms(2,3) sort_items_facts(1) [of True items] by (metis in_set_conv_nth)
  have "m < n"
  proof (rule ccontr)
    assume "\<not> m < n"
    then have "map fst ?xs ! n \<le> map fst ?xs ! m" using sorted mn by (intro sorted_nth_mono) auto
    then show False using mn assms(4) by simp
  qed
  then show ?thesis using assms(1) mn by (metis sorted_wrt_nth_less)
qed

text \<open>
  C10: in the layout of a struct every field is aligned and inside the struct, the struct's alignment is a
  multiple of the field's, no two fields overlap, and with the C representation the fields lie in the
  order of declaration.
\<close>

theorem struct_fields_apart:
  assumes "struct_layout dl repr_c items = Ok l" "distinct (map fst items)" "\<forall>i \<in> set (map fst items). i < length items"
  shows "(\<forall>x \<in> set items. placed (field_offsets l) (tl_align l) 0 (unat (tl_size l)) x) \<and>
    (\<forall>x \<in> set items. \<forall>y \<in> set items. x \<noteq> y \<longrightarrow> before (field_offsets l) x y \<or> before (field_offsets l) y x) \<and>
    (repr_c \<longrightarrow> (\<forall>x \<in> set items. \<forall>y \<in> set items. fst x < fst y \<longrightarrow> before (field_offsets l) x y))"
proof -
  let ?xs = "sort_items repr_c items"
  obtain cur al offs sz where place: "place_items dl ?xs 0 1 (replicate (length items) 0) = Inr (cur, al, offs)"
    and pad: "align_up dl cur al AggregatePadding = Inr sz" and l: "tl_size l = sz" "tl_align l = al" "field_offsets l = offs"
    using assms(1) by (auto simp: struct_layout_def split: sum.splits)
  have spec: "\<forall>x \<in> set ?xs. placed offs al 0 (unat cur) x" "sorted_wrt (before offs) ?xs"
    using place_items_spec [OF place] sort_items_facts [of repr_c items] assms(2,3) small_powers(1) by auto
  have "placed offs al 0 (unat sz) x" if "x \<in> set items" for x
    using spec(1) that align_up_Ok(3) [OF pad] sort_items_facts(1) [of repr_c items] by (auto simp: placed_def)
  moreover have "before offs x y \<or> before offs y x" if "x \<in> set items" "y \<in> set items" "x \<noteq> y" for x y
    using sorted_wrt_pair [OF spec(2)] that sort_items_facts(1) [of repr_c items] by simp
  moreover have "before offs x y" if "repr_c" "x \<in> set items" "y \<in> set items" "fst x < fst y" for x y
    using repr_c_order [OF _ that(2-4)] spec(2) that(1) by simp
  ultimately show ?thesis unfolding l by blast
qed

lemma i686_valid: "dl_validate i686_sysv = Ok ()"
  by (simp add: dl_validate_def i686_sysv_def sa_natural_def small_powers)

lemmas i686_eval =
  align_up_def layout_add_def check_object_size_def object_size_bound_def pointer_width_def small_powers Let_def i686_sysv_def
  sa_natural_def

theorem struct_fields_apart_witness:
  "\<exists>l. struct_layout i686_sysv False [(0, tl_simple 1 1), (1, tl_simple 8 4), (2, tl_simple 1 1)] = Ok l \<and>
     placed (field_offsets l) (tl_align l) 0 (unat (tl_size l)) (1, tl_simple 8 4) \<and> unat (tl_size l) = 12"
proof -
  let ?items = "[(0, tl_simple 1 1), (1, tl_simple 8 4), (2, tl_simple 1 1)] :: (nat \<times> type_layout) list"
  have l: "struct_layout i686_sysv False ?items = Ok \<lparr>tl_size = 12, tl_align = 4, field_offsets = [8, 0, 9], tl_tag = None\<rparr>"
    by (simp add: struct_layout_def sort_items_def descending_key_def tl_simple_def i686_eval max_def word_le_nat_alt)
  show ?thesis unfolding l using struct_fields_apart [OF l] by simp
qed

text \<open>
  C9: layouts are well-formed. On a target that \<open>validate\<close> accepts, whatever the type, the provider and the
  interner, a layout that a query returns has a power of two as its alignment, a size that is a multiple
  of the alignment and below the bound on objects of the target, and a tag apart from the payload.
\<close>

theorem layout_well_formed:
  assumes "dl_validate dl = Ok ()" "layout_of_type dl pv ty it = Some (Ok l, it')"
  shows "layout_ok dl l"
proof -
  obtain n where "layout_of_type_inner dl pv max_depth ty (it, max_nodes) = Some (Inr l, it', n)"
    using assms(2) by (auto simp: layout_of_type_def run_query_def)
  then show ?thesis using layout_inner_ok [OF assms(1), of pv max_depth ty] unfolding yields_def by blast
qed

text \<open>A provider that knows no nominal type.\<close>

definition no_nominals :: "'c layout_provider" where
  "no_nominals = \<lparr>get_struct_fields_for_type = (\<lambda>_ _. None), get_generic_params = (\<lambda>_. None),
     get_enum_variants_for_type = (\<lambda>_ _. None), is_repr_c = (\<lambda>_. False)\<rparr>"

theorem layout_well_formed_witness:
  "\<exists>l it'. layout_of_type i686_sysv no_nominals (ArResult 0 6) (interner_new :: nat interner) = Some (Ok l, it') \<and>
     tl_size l = 12 \<and> layout_ok i686_sysv l"
proof -
  let ?l = "\<lparr>tl_size = 12, tl_align = 4, field_offsets = [0, 4], tl_tag = Some (Direct 4 4)\<rparr>"
  have tagged: "tagged_layout i686_sysv ResultPayload 8 4 = Ok ?l"
    by (simp add: tagged_layout_def i686_eval max_def)
  have types: "resolve (interner_new :: nat interner) 0 = Some (ArPrimitive PInt)"
    "resolve (interner_new :: nat interner) 6 = Some (ArPrimitive PI64)"
    by (simp_all add: resolve_def interner_new_types preinterned_def)
  have "layout_of_type_inner i686_sysv no_nominals (Suc (Suc n)) (ArResult 0 6) (interner_new :: nat interner, Suc (Suc (Suc k))) =
      Some (Ok ?l, interner_new, k)" for n k
    using tagged by (simp add: layout_body_def q_bind_def q_read_def q_result_def visit_def types tl_simple_def i686_sysv_def sa_natural_def)
  from this [of 126 4093]
  have l: "layout_of_type i686_sysv no_nominals (ArResult 0 6) (interner_new :: nat interner) = Some (Ok ?l, interner_new)"
    by (simp add: layout_of_type_def run_query_def max_depth_def max_nodes_def)
  show ?thesis unfolding l using layout_well_formed [OF i686_valid l] by simp
qed

section \<open>Small objects and fat pointers\<close>

text \<open>The length of a fat pointer is its last word, and a stored small object and its neighbours fit in the buffer.\<close>

lemma fat_pointer_length_last:
  assumes "dl_validate dl = Ok ()"
  shows "field_offsets (fat_pointer_layout dl) ! 1 = fat_ptr_len_offset dl"
    "unat (fat_ptr_len_offset dl) + unat (fat_ptr_len_size dl) = unat (tl_size (fat_pointer_layout dl))"
  using validated(1) [OF assms] by (auto simp: fat_pointer_layout_def fat_ptr_len_offset_def fat_ptr_len_size_def)

lemma soo_objects_fit:
  assumes "soo_layout_for_type dl pv ty it = Some (Ok soo, it')" "layout_of_type dl pv ty it = Some (Ok l, it')" "tl_size l \<noteq> 0"
  shows "inline_capacity soo * unat (tl_size l) \<le> unat soo_max_inline_bytes" "is_inline_eligible soo \<longleftrightarrow> 0 < inline_capacity soo"
    "is_soo_eligible dl pv ty it = Some (is_inline_eligible soo, it')"
proof -
  have soo: "inline_capacity soo = unat soo_max_inline_bytes div unat (tl_size l)"
    "is_inline_eligible soo = (tl_size l \<le> soo_max_inline_bytes)"
    using assms by (auto simp: soo_layout_for_type_def unat_div)
  have "0 < unat (tl_size l)" using assms(3) by (simp add: unat_gt_0)
  then show "inline_capacity soo * unat (tl_size l) \<le> unat soo_max_inline_bytes"
    "is_inline_eligible soo \<longleftrightarrow> 0 < inline_capacity soo"
    by (simp_all add: soo div_greater_zero_iff word_le_nat_alt)
  show "is_soo_eligible dl pv ty it = Some (is_inline_eligible soo, it')" by (simp add: is_soo_eligible_def assms(2) soo(2))
qed

lemma unat_minus_one_max: "unat (- 1 :: u64) = 2 ^ 64 - 1"
  by (simp add: unsigned_minus_1_eq_mask mask_eq_exp_minus_1)

lemma trailing_zeros_8: "trailing_zeros 8 = 3"
proof -
  have "[0..<64] = [0, 1, 2, 3] @ [4..<64]" by (simp add: upt_conv_Cons)
  then show ?thesis by (simp add: trailing_zeros_def bit_numeral_rec)
qed

text \<open>
  A reference to a slice is a fat pointer. The scan for tagged pointers takes it for a plain reference, so
  an enum with it as a payload gets a layout of a single word, in which the payload does not fit.
\<close>

lemma fat_reference_payload:
  assumes dl: "dl_ptr_width 8 = Some dl" and args: "type_args it rng = Some []"
    and types: "resolve it p = Some (ArRef s)" "resolve it s = Some (ArSlice e)"
    and pv: "get_struct_fields_for_type pv (ArNamed symb rng) it = None"
      "get_enum_variants_for_type pv (ArNamed symb rng) it = Some [Some p, None]"
  shows "\<exists>l. layout_of dl pv p it = Some (Ok l, it) \<and> tl_size l = 16"
    "\<exists>l. layout_of_type dl pv (ArNamed symb rng) it = Some (Ok l, it) \<and> tl_size l = 8"
proof -
  note eval = layout_body_def pointee_body_def q_bind_def q_read_def q_result_def q_try_def visit_def types is_slice_def Let_def
  have dl': "pointer_width dl = 8" "abi_align (dl_pointer dl) = 8" using dl by (auto simp: dl_ptr_width_def sa_natural_def pointer_width_def)
  have "layout_of_type_inner dl pv (Suc n) (ArRef s) (it, Suc k) = Some (Ok (fat_pointer_layout dl), it, k)" for n k
    by (simp add: eval)
  from this [of 127 4095] show "\<exists>l. layout_of dl pv p it = Some (Ok l, it) \<and> tl_size l = 16"
    by (simp add: layout_of_def layout_of_type_def run_query_def max_depth_def max_nodes_def types fat_pointer_layout_def dl')
  have not_max: "(8 :: u64) < - 1" by (simp add: word_less_nat_alt unat_minus_one_max)
  have "layout_of_type_inner dl pv (Suc (Suc (Suc n))) (ArNamed symb rng) (it, Suc (Suc (Suc k))) =
      Some (Ok (pointer_tag_layout dl 3), it, k)" for n k
    using pv args trailing_zeros_8 not_max
    by (simp add: eval concrete_variants_def enum_layout_def tag_bits_of_def fat_pointer_layout_def pointer_align_def dl')
  from this [of 125 4093] show "\<exists>l. layout_of_type dl pv (ArNamed symb rng) it = Some (Ok l, it) \<and> tl_size l = 8"
    by (simp add: layout_of_type_def run_query_def max_depth_def max_nodes_def pointer_tag_layout_def dl')
qed

end
