(* ===== verification/LayoutTotal.thy ===== *)
theory LayoutTotal
  imports LayoutCorrect
begin

text \<open>
  Layout queries return on every interner that was built by its own operations: no id or argument range is
  out of bounds, and substitution ends because types are built from types with smaller ids.
\<close>

section \<open>Substitution\<close>

text \<open>A computation that returns, keeps the invariant, only adds types, and whose result has a property.\<close>

definition returns :: "'c interner \<Rightarrow> ('a \<times> 'c interner) option \<Rightarrow> ('c interner \<Rightarrow> 'a \<Rightarrow> bool) \<Rightarrow> bool" where
  "returns it r Q \<longleftrightarrow> (\<exists>x it'. r = Some (x, it') \<and> interner_inv it' \<and> interner_extends it' it \<and> Q it' x)"

abbreviation known_id :: "'c interner \<Rightarrow> type_id \<Rightarrow> bool" where
  "known_id it i \<equiv> i < length (it_types it)"

lemma known_id_extends: "known_id it i \<Longrightarrow> interner_extends it' it \<Longrightarrow> known_id it' i"
  using extends_length [of it' it] by simp

lemma known_type_extends: "known_type it ty \<Longrightarrow> interner_extends it' it \<Longrightarrow> known_type it' ty"
  using built_below_extends [of it' it] built_below_mono extends_length by blast

lemma resolve_known:
  assumes "interner_inv it" "known_id it i"
  obtains ty where "resolve it i = Some ty" "built_below it i ty" "known_type it ty"
proof
  show "resolve it i = Some (it_types it ! i)" using assms(2) by (simp add: resolve_def)
  show b: "built_below it i (it_types it ! i)" using assms by (simp add: interner_inv_def)
  show "known_type it (it_types it ! i)" using built_below_mono [OF b] assms(2) by simp
qed

lemma lookup_known: "interner_inv it \<Longrightarrow> lookup it ty = Some i \<Longrightarrow> known_id it i"
  by (simp add: interner_inv_def lookup_def)

lemma intern_known: "interner_inv it \<Longrightarrow> known_id (snd (intern ty it)) (fst (intern ty it))"
  by (auto simp: intern_def intern_ref_def interner_inv_def Let_def split: option.split)

definition parts_return ::
  "('c ar_type \<Rightarrow> ('c, 'c ar_type) interning) \<Rightarrow> nat \<Rightarrow> 'c interner \<Rightarrow> bool" where
  "parts_return f n it0 \<longleftrightarrow> (\<forall>it i. interner_inv it \<longrightarrow> interner_extends it it0 \<longrightarrow> i < n \<longrightarrow> known_id it i \<longrightarrow>
     returns it (subst_part f i it) known_id)"

lemma parts_returnD:
  assumes "parts_return f n it0" "interner_inv it" "interner_extends it it0" "i < n" "known_id it i"
  obtains j it' where "subst_part f i it = Some (j, it')" "interner_inv it'" "interner_extends it' it" "known_id it' j"
  using assms unfolding parts_return_def returns_def by blast

lemma subst_parts_return:
  assumes f: "parts_return f n it0"
  shows "interner_inv it \<Longrightarrow> interner_extends it it0 \<Longrightarrow> \<forall>i \<in> set is. i < n \<and> known_id it i \<Longrightarrow>
    returns it (subst_parts f is it) (\<lambda>it' js. \<forall>j \<in> set js. known_id it' j)"
proof (induction "is" arbitrary: it)
  case (Cons i "is")
  obtain j it1 where s1: "subst_part f i it = Some (j, it1)" "interner_inv it1" "interner_extends it1 it" "known_id it1 j"
    using parts_returnD [OF f Cons.prems(1,2)] Cons.prems(3) by auto
  have "\<forall>i \<in> set is. i < n \<and> known_id it1 i" using Cons.prems(3) known_id_extends [OF _ s1(3)] by auto
  then obtain js it2 where s2: "subst_parts f is it1 = Some (js, it2)" "interner_inv it2" "interner_extends it2 it1"
    "\<forall>j \<in> set js. known_id it2 j"
    using Cons.IH [OF s1(2) interner_extends_trans [OF s1(3) Cons.prems(2)]] by (auto simp: returns_def)
  then show ?case
    using s1 known_id_extends [OF s1(4) s2(3)] interner_extends_trans [OF s2(3) s1(3)] by (auto simp: returns_def)
qed (simp add: returns_def extends_refl)

lemma subst_one_return:
  assumes "parts_return f n it0" "interner_inv it" "interner_extends it it0" "i < n" "known_id it i"
    and con: "\<And>it' j. interner_extends it' it \<Longrightarrow> known_id it' j \<Longrightarrow> known_type it' (con j)"
  shows "returns it (subst_one f con i it) known_type"
proof -
  obtain j it' where "subst_part f i it = Some (j, it')" "interner_inv it'" "interner_extends it' it" "known_id it' j"
    using parts_returnD [OF assms(1-5)] .
  then show ?thesis using con by (simp add: subst_one_def returns_def)
qed

lemma args_children:
  assumes "interner_inv it"
  shows "\<forall>j \<in> set js. known_id it j \<Longrightarrow> known_type (snd (push_type_args js it)) (ArTuple (fst (push_type_args js it)))"
    "\<forall>j \<in> set js. known_id it j \<Longrightarrow> known_type (snd (push_type_args js it)) (ArNamed symb (fst (push_type_args js it)))"
    "\<forall>j \<in> set js. known_id it j \<Longrightarrow> known_id it r \<Longrightarrow> known_type (snd (push_type_args js it)) (ArFunc (fst (push_type_args js it)) r)"
proof -
  have "it_types (snd (push_type_args js it)) = it_types it" by (simp add: push_type_args_def split: prod.split)
  then show "\<forall>j \<in> set js. known_id it j \<Longrightarrow> known_type (snd (push_type_args js it)) (ArTuple (fst (push_type_args js it)))"
    "\<forall>j \<in> set js. known_id it j \<Longrightarrow> known_type (snd (push_type_args js it)) (ArNamed symb (fst (push_type_args js it)))"
    "\<forall>j \<in> set js. known_id it j \<Longrightarrow> known_id it r \<Longrightarrow> known_type (snd (push_type_args js it)) (ArFunc (fst (push_type_args js it)) r)"
    using push_type_args_inv(2) [OF assms, of js] by (auto simp: built_below_def)
qed

text \<open>The argument list of a type, substituted and pushed.\<close>

lemma subst_range_return:
  assumes f: "parts_return f n it0" and it: "interner_inv it" "interner_extends it it0"
    and args: "type_args it rng = Some is" "\<forall>i \<in> set is. i < n \<and> known_id it i"
  obtains js it1 where "subst_range f rng it = Some (js, it1)" "interner_inv it1" "interner_extends it1 it"
    "\<forall>j \<in> set js. known_id it1 j"
  using subst_parts_return [OF f it args(2)] args(1) by (auto simp: subst_range_def returns_def)

lemma push_returns:
  assumes "interner_inv it1" "interner_extends it1 it" "Q (snd (push_type_args js it1)) (g (fst (push_type_args js it1)))"
  shows "returns it (case push_type_args js it1 of (rng', it2) \<Rightarrow> Some (g rng', it2)) Q"
  using assms push_type_args_inv(1) [OF assms(1), of js] interner_extends_trans [OF push_type_args_extends [of js it1] assms(2)]
  by (auto simp: returns_def split: prod.splits)

lemma push_returns_list:
  assumes "interner_inv it1" "interner_extends it1 it" "\<forall>j \<in> set js. known_id it1 j"
  shows "returns it (case push_type_args js it1 of (rng', it2) \<Rightarrow> Some (ArTuple rng', it2)) known_type"
    "returns it (case push_type_args js it1 of (rng', it2) \<Rightarrow> Some (ArNamed symb rng', it2)) known_type"
    "known_id it1 r \<Longrightarrow> returns it (case push_type_args js it1 of (rng', it2) \<Rightarrow> Some (ArFunc rng' r, it2)) known_type"
  using assms args_children [OF assms(1)] by (simp_all add: push_returns)

lemma resolve_returns:
  assumes "interner_inv it" "known_id it i"
  shows "returns it (map_option (\<lambda>ty. (ty, it)) (resolve it i)) known_type"
proof -
  obtain ty where "resolve it i = Some ty" "known_type it ty" using resolve_known [OF assms] .
  then show ?thesis using assms(1) by (simp add: returns_def extends_refl)
qed

lemma const_array_returns:
  assumes it: "interner_inv it" and inner: "resolve it i = Some ty'" "returns it (f ty' it) known_type"
    and subst: "\<And>s i. subst s = Some i \<Longrightarrow> known_id it i"
  shows "returns it
     (case resolve it i of
        None \<Rightarrow> None
      | Some inner_ty \<Rightarrow>
          (case f inner_ty it of
             None \<Rightarrow> None
           | Some (ty', it1) \<Rightarrow>
               let (new_inner, it2) = intern ty' it1 in
               (case subst param of
                  None \<Rightarrow> Some (ArConstArray param new_inner, it2)
                | Some i \<Rightarrow>
                    (case resolve it2 i of
                       None \<Rightarrow> None
                     | Some (ArConst len) \<Rightarrow> Some (ArArray len new_inner, it2)
                     | Some _ \<Rightarrow> Some (ArConstArray param new_inner, it2))))) known_type"
proof -
  obtain ty1 it1 where f: "f ty' it = Some (ty1, it1)" "interner_inv it1" "interner_extends it1 it" "known_type it1 ty1"
    using inner(2) by (auto simp: returns_def)
  obtain j it2 where j: "intern ty1 it1 = (j, it2)" by force
  have it2: "interner_inv it2" "interner_extends it2 it" "known_id it2 j"
    using intern_inv [OF f(2,4)] interner_extends_trans [OF intern_extends [of ty1 it1] f(3)] intern_known [OF f(2), of ty1] j by simp_all
  show ?thesis
  proof (cases "subst param")
    case (Some k)
    obtain tk where "resolve it2 k = Some tk"
      using resolve_known [OF it2(1) known_id_extends [OF subst [OF Some] it2(2)]] .
    then show ?thesis using it2 inner(1) f(1) j Some
      by (cases tk) (simp_all add: returns_def built_below_def)
  qed (use it2 inner(1) f(1) j in \<open>simp add: returns_def built_below_def\<close>)
qed

lemma substitute_step:
  assumes parts: "parts_return (layout_substitute n subst) n it" and it: "interner_inv it" "n \<le> length (it_types it)"
    and inner: "\<And>i ty. i < n \<Longrightarrow> resolve it i = Some ty \<Longrightarrow> returns it (layout_substitute n subst ty it) known_type"
    and ty: "built_below it n ty" and subst: "\<And>s i. subst s = Some i \<Longrightarrow> known_id it i"
  shows "returns it (layout_substitute (Suc n) subst ty it) known_type"
proof -
  let ?f = "layout_substitute n subst"
  have one: "returns it (subst_one ?f con i it) known_type"
    if "i < n" "\<And>it' j. known_id it' j \<Longrightarrow> known_type it' (con j)" for con i
    using subst_one_return [OF parts it(1) extends_refl that(1) _ that(2)] that(1) it(2) by simp
  have args: thesis if "type_args it rng = Some is" "\<forall>i \<in> set is. i < n"
    "\<And>js it1. subst_range ?f rng it = Some (js, it1) \<Longrightarrow> interner_inv it1 \<Longrightarrow> interner_extends it1 it \<Longrightarrow>
       \<forall>j \<in> set js. known_id it1 j \<Longrightarrow> thesis" for rng "is" thesis
    using subst_range_return [OF parts it(1) extends_refl that(1) _ that(3)] that(2) it(2) by fastforce
  have same: "returns it (Some (ty, it)) known_type"
    using built_below_mono [OF ty it(2)] it(1) by (simp add: returns_def extends_refl)
  show ?thesis
  proof (cases ty)
    case (ArNamed symb rng)
    obtain "is" where args_is: "type_args it rng = Some is" "\<forall>i \<in> set is. i < n" using ty ArNamed by (auto simp: built_below_def)
    show ?thesis
    proof (cases "subst symb")
      case None
      show ?thesis by (rule args [OF args_is]) (simp add: ArNamed None push_returns_list)
    qed (simp add: ArNamed resolve_returns [OF it(1) subst])
  next
    case (ArTuple rng)
    obtain "is" where args_is: "type_args it rng = Some is" "\<forall>i \<in> set is. i < n" using ty ArTuple by (auto simp: built_below_def)
    show ?thesis by (rule args [OF args_is]) (simp add: ArTuple push_returns_list)
  next
    case (ArFunc rng ret)
    obtain "is" where args_is: "type_args it rng = Some is" "\<forall>i \<in> set is. i < n" and ret: "ret < n"
      using ty ArFunc by (auto simp: built_below_def)
    show ?thesis
    proof (rule args [OF args_is])
      fix js it1
      assume r: "subst_range ?f rng it = Some (js, it1)" "interner_inv it1" "interner_extends it1 it" "\<forall>j \<in> set js. known_id it1 j"
      have "known_id it1 ret" using known_id_extends [OF _ r(3)] ret it(2) by simp
      then obtain j it2 where p: "subst_part ?f ret it1 = Some (j, it2)" "interner_inv it2" "interner_extends it2 it1" "known_id it2 j"
        using parts_returnD [OF parts r(2,3) ret] by blast
      have "\<forall>j \<in> set js. known_id it2 j" using r(4) known_id_extends [OF _ p(3)] by blast
      then show ?thesis using push_returns_list(3) [OF p(2) interner_extends_trans [OF p(3) r(3)]] p(4) by (simp add: ArFunc r(1) p(1))
    qed
  next
    case (ArConstArray param i)
    then have i: "i < n" using ty by (simp add: built_below_def)
    then obtain ty' where r: "resolve it i = Some ty'" using resolve_known [OF it(1)] it(2) by (metis less_le_trans)
    show ?thesis
      using const_array_returns [of it i ty' ?f subst param, OF it(1) r inner [OF i r] subst] ArConstArray by simp
  next
    case (ArResult ok err)
    then have i: "ok < n" "err < n" using ty by (simp_all add: built_below_def)
    have "known_id it ok" using i(1) it(2) by simp
    then obtain j it1 where p: "subst_part ?f ok it = Some (j, it1)" "interner_inv it1" "interner_extends it1 it" "known_id it1 j"
      using parts_returnD [OF parts it(1) extends_refl i(1)] by blast
    have "known_id it1 err" using known_id_extends [OF _ p(3)] i(2) it(2) by simp
    then have "returns it1 (subst_one ?f (ArResult j) err it1) known_type"
      by (rule subst_one_return [OF parts p(2,3) i(2)]) (use known_id_extends [OF p(4)] in \<open>simp add: built_below_def\<close>)
    then show ?thesis using p ArResult interner_extends_trans [OF _ p(3)] by (auto simp: returns_def)
  next
    case (ArConstParam param)
    then show ?thesis using same resolve_returns [OF it(1) subst] by (cases "subst param") simp_all
  qed (use one ty same in \<open>simp_all add: built_below_def\<close>)
qed

lemma parts_from_types:
  assumes "\<And>it ty. interner_inv it \<Longrightarrow> interner_extends it it0 \<Longrightarrow> built_below it m ty \<Longrightarrow> returns it (f ty it) known_type"
  shows "parts_return f (Suc m) it0"
proof -
  have "returns it (subst_part f i it) known_id"
    if it: "interner_inv it" "interner_extends it it0" and i: "i < Suc m" "known_id it i" for it i
  proof -
    obtain ty where ty: "resolve it i = Some ty" "built_below it i ty" using resolve_known [OF it(1) i(2)] .
    obtain ty' it' where f: "f ty it = Some (ty', it')" "interner_inv it'" "interner_extends it' it"
      using assms [OF it built_below_mono [OF ty(2)]] i(1) by (auto simp: returns_def)
    then show ?thesis using ty(1) lookup_known [OF f(2), of ty'] known_id_extends [OF i(2) f(3)]
      by (auto simp: subst_part_def returns_def split: option.split)
  qed
  then show ?thesis by (simp add: parts_return_def)
qed

lemma substitute_returns:
  "interner_inv it \<Longrightarrow> built_below it n ty \<Longrightarrow> n \<le> length (it_types it) \<Longrightarrow> (\<And>s i. subst s = Some i \<Longrightarrow> known_id it i) \<Longrightarrow>
   returns it (layout_substitute (Suc n) subst ty it) known_type"
proof (induction n arbitrary: it ty)
  case 0
  then show ?case by (intro substitute_step) (simp_all add: parts_return_def)
next
  case (Suc m)
  have known: "known_id it' i" if "interner_extends it' it" "subst s = Some i" for it' s i
    using known_id_extends [OF Suc.prems(4) [OF that(2)] that(1)] .
  have rec: "returns it' (layout_substitute (Suc m) subst ty' it') known_type"
    if "interner_inv it'" "interner_extends it' it" "built_below it' m ty'" for it' ty'
    using Suc.IH [OF that(1,3)] known [OF that(2)] extends_length [OF that(2)] Suc.prems(3) by auto
  have inner: "returns it (layout_substitute (Suc m) subst ty' it) known_type" if "i < Suc m" "resolve it i = Some ty'" for i ty'
  proof -
    have "known_id it i" using that Suc.prems(3) by simp
    then have "built_below it i ty'" using resolve_known [OF Suc.prems(1)] that(2) by (metis option.inject)
    then show ?thesis using rec [OF Suc.prems(1) extends_refl built_below_mono] that(1) by simp
  qed
  have parts: "parts_return (layout_substitute (Suc m) subst) (Suc m) it" using rec by (rule parts_from_types)
  show ?case by (rule substitute_step [OF parts Suc.prems(1,3) inner Suc.prems(2,4)])
qed

text \<open>
  The result of substituting in a part is looked up, not interned. When the instance of a nested part was
  never interned, the part keeps its parameter: an option of an array of the parameter stays as it was. Only
  arrays with a constant parameter as their length intern the part.
\<close>

lemma substitute_keeps_parameter:
  assumes "subst param = Some c" "resolve it c = Some concrete" "lookup it concrete = Some c"
    and "resolve it i = Some (ArArray len j)" "resolve it j = Some (ArNamed param rng)" "lookup it (ArArray len c) = None"
  shows "layout_substitute (Suc (Suc (Suc n))) subst (ArOption i) it = Some (ArOption i, it)"
  using assms by (simp add: subst_one_def subst_part_def)

section \<open>Queries\<close>

text \<open>
  A query that returns from every state reached from a given interner, and whose result, if it is not an
  error, has a property.
\<close>

definition runs :: "'c interner \<Rightarrow> ('c, 'a) query \<Rightarrow> ('c interner \<Rightarrow> 'a \<Rightarrow> bool) \<Rightarrow> bool" where
  "runs it0 m Q \<longleftrightarrow> (\<forall>it n. interner_inv it \<longrightarrow> interner_extends it it0 \<longrightarrow>
     (\<exists>r it' n'. m (it, n) = Some (r, it', n') \<and> interner_inv it' \<and> interner_extends it' it \<and> (\<forall>x. r = Inr x \<longrightarrow> Q it' x)))"

lemma runs_bind:
  assumes "runs it0 m P" "\<And>it x. interner_extends it it0 \<Longrightarrow> P it x \<Longrightarrow> runs it (f x) Q"
  shows "runs it0 (q_bind m f) Q"
  unfolding runs_def
proof (intro allI impI)
  fix it n
  assume it: "interner_inv it" "interner_extends it it0"
  then obtain r it1 n1 where m: "m (it, n) = Some (r, it1, n1)" "interner_inv it1" "interner_extends it1 it"
    "\<And>x. r = Inr x \<Longrightarrow> P it1 x" using assms(1) unfolding runs_def by blast
  show "\<exists>r it' n'. q_bind m f (it, n) = Some (r, it', n') \<and> interner_inv it' \<and> interner_extends it' it \<and> (\<forall>x. r = Inr x \<longrightarrow> Q it' x)"
  proof (cases r)
    case (Inr x)
    have "runs it1 (f x) Q" using assms(2) interner_extends_trans [OF m(3) it(2)] m(4) [OF Inr] by blast
    then obtain r2 it2 n2 where "f x (it1, n1) = Some (r2, it2, n2)" "interner_inv it2" "interner_extends it2 it1"
      "\<And>y. r2 = Inr y \<Longrightarrow> Q it2 y" using m(2) extends_refl unfolding runs_def by blast
    then show ?thesis using m(1) Inr interner_extends_trans [OF _ m(3)] by (auto simp: q_bind_def)
  qed (use m in \<open>simp add: q_bind_def\<close>)
qed

lemma runs_result: "(\<And>it x. interner_extends it it0 \<Longrightarrow> r = Inr x \<Longrightarrow> Q it x) \<Longrightarrow> runs it0 (q_result r) Q"
  by (auto simp: runs_def q_result_def extends_refl)

lemma runs_read:
  assumes "\<And>it. interner_inv it \<Longrightarrow> interner_extends it it0 \<Longrightarrow> \<exists>x. f it = Some x \<and> Q it x"
  shows "runs it0 (q_read f) Q"
  using assms by (fastforce simp: runs_def q_read_def extends_refl)

lemma runs_intern:
  assumes "\<And>it. interner_inv it \<Longrightarrow> interner_extends it it0 \<Longrightarrow> returns it (f it) Q"
  shows "runs it0 (q_intern f) Q"
  using assms by (fastforce simp: runs_def q_intern_def returns_def)

lemma runs_try: "runs it0 m Q \<Longrightarrow> runs it0 (q_try m) (\<lambda>it r. \<forall>x. r = Some x \<longrightarrow> Q it x)"
proof (unfold runs_def, intro allI impI)
  fix it n
  assume m: "\<forall>it n. interner_inv it \<longrightarrow> interner_extends it it0 \<longrightarrow>
     (\<exists>r it' n'. m (it, n) = Some (r, it', n') \<and> interner_inv it' \<and> interner_extends it' it \<and> (\<forall>x. r = Inr x \<longrightarrow> Q it' x))"
    and it: "interner_inv it" "interner_extends it it0"
  then obtain r it' n' where r: "m (it, n) = Some (r, it', n')" "interner_inv it'" "interner_extends it' it" "\<forall>x. r = Inr x \<longrightarrow> Q it' x"
    by blast
  then show "\<exists>r it' n'. q_try m (it, n) = Some (r, it', n') \<and> interner_inv it' \<and> interner_extends it' it \<and>
      (\<forall>y. r = Inr y \<longrightarrow> (\<forall>x. y = Some x \<longrightarrow> Q it' x))"
    by (cases r) (simp_all add: q_try_def)
qed

lemma completes_try: "runs it0 m (\<lambda>_ _. True) \<Longrightarrow> runs it0 (q_try m) (\<lambda>_ _. True)"
  using runs_try by fastforce

lemma runs_visit: "runs it0 visit (\<lambda>_ _. True)"
  by (simp add: runs_def visit_def extends_refl)

lemma runs_weaken: "runs it0 m Q \<Longrightarrow> interner_extends it it0 \<Longrightarrow> (\<And>it x. Q it x \<Longrightarrow> R it x) \<Longrightarrow> runs it m R"
  unfolding runs_def by (meson interner_extends_trans)

lemma runs_extends: "runs it0 m Q \<Longrightarrow> interner_extends it it0 \<Longrightarrow> runs it m Q"
  by (rule runs_weaken)

abbreviation completes :: "'c interner \<Rightarrow> ('c, 'a) query \<Rightarrow> bool" where
  "completes it0 m \<equiv> runs it0 m (\<lambda>_ _. True)"

lemma runs_then: "completes it0 m \<Longrightarrow> (\<And>x. runs it0 (f x) Q) \<Longrightarrow> runs it0 (q_bind m f) Q"
  by (erule runs_bind) (blast intro: runs_weaken)

lemma runs_result_then: "(\<And>x. runs it0 (f x) Q) \<Longrightarrow> runs it0 (q_bind (q_result r) f) Q"
  by (intro runs_then runs_result) auto

lemma runs_resolve: "known_id it0 i \<Longrightarrow> runs it0 (q_read (\<lambda>it. resolve it i)) known_type"
  by (rule runs_read) (meson resolve_known known_id_extends)

lemma completes_resolve: "known_id it0 i \<Longrightarrow> completes it0 (q_read (\<lambda>it. resolve it i))"
  by (rule runs_weaken [OF runs_resolve extends_refl]) simp_all

lemma runs_type_args:
  "type_args it0 rng = Some is \<Longrightarrow> \<forall>i \<in> set is. known_id it0 i \<Longrightarrow>
   runs it0 (q_read (\<lambda>it. type_args it rng)) (\<lambda>it is. \<forall>i \<in> set is. known_id it i)"
  by (rule runs_read) (meson type_args_extends known_id_extends)

abbreviation subst_known :: "'c interner \<Rightarrow> (symbol_id \<rightharpoonup> type_id) \<Rightarrow> bool" where
  "subst_known it subst \<equiv> \<forall>s i. subst s = Some i \<longrightarrow> known_id it i"

abbreviation shapes_known :: "'c interner \<Rightarrow> variant_shapes \<Rightarrow> bool" where
  "shapes_known it vs \<equiv> \<forall>i. Some i \<in> set vs \<longrightarrow> known_id it i"

lemma subst_known_extends: "subst_known it subst \<Longrightarrow> interner_extends it' it \<Longrightarrow> subst_known it' subst"
  using known_id_extends by blast

lemma generic_subst_known: "\<forall>i \<in> set args. known_id it i \<Longrightarrow> subst_known it (generic_subst params args)"
  by (auto simp: generic_subst_def dest!: map_of_SomeD set_zip_rightD)

lemma runs_field_type:
  assumes "subst_known it0 subst" "known_id it0 i"
  shows "runs it0 (field_type subst i) known_type"
  unfolding field_type_def
proof (rule runs_bind [OF runs_resolve [OF assms(2)]], rule runs_intern)
  fix it1 ty it
  assume "interner_extends it1 it0" "known_type it1 ty" "interner_inv it" "interner_extends it it1"
  then show "returns it (layout_substitute (Suc (length (it_types it))) subst ty it) known_type"
    using substitute_returns [of it "length (it_types it)"] known_type_extends assms(1) subst_known_extends interner_extends_trans by blast
qed

lemma known_ids_extends: "\<forall>i \<in> set is. known_id it i \<Longrightarrow> interner_extends it' it \<Longrightarrow> \<forall>i \<in> set is. known_id it' i"
  using known_id_extends by blast

lemma shapes_known_extends: "shapes_known it vs \<Longrightarrow> interner_extends it' it \<Longrightarrow> shapes_known it' vs"
  using known_id_extends by blast

lemma runs_nominal_subst:
  assumes "type_args it0 rng = Some is" "\<forall>i \<in> set is. known_id it0 i"
  shows "runs it0 (nominal_subst pv symb rng) subst_known"
  unfolding nominal_subst_def
  by (rule runs_bind [OF runs_type_args [OF assms]], rule runs_result) (use generic_subst_known known_ids_extends in blast)

lemma runs_intern_type:
  assumes "known_type it ty"
  shows "runs it (q_intern (\<lambda>it. Some (intern ty it))) known_id"
proof (rule runs_intern)
  fix it1
  assume it1: "interner_inv it1" "interner_extends it1 it"
  show "returns it1 (Some (intern ty it1)) known_id"
    using intern_inv [OF it1(1) known_type_extends [OF assms it1(2)]] intern_extends [of ty it1] intern_known [OF it1(1), of ty]
    by (cases "intern ty it1") (simp add: returns_def)
qed

lemma runs_substitute_variants:
  "subst_known it0 subst \<Longrightarrow> shapes_known it0 vs \<Longrightarrow> runs it0 (substitute_variants subst vs) shapes_known"
proof (induction vs arbitrary: it0)
  case (Cons v vs)
  have rest: "runs it (q_bind (substitute_variants subst vs) (\<lambda>vs'. q_ok (v' # vs'))) shapes_known"
    if it: "interner_extends it it0" and v: "shapes_known it [v']" for it v'
  proof (rule runs_bind [OF Cons.IH])
    show "subst_known it subst" using subst_known_extends [OF Cons.prems(1) it] .
    show "shapes_known it vs" using shapes_known_extends [OF _ it, of vs] Cons.prems(2) by simp
    show "runs it1 (q_ok (v' # vs')) shapes_known" if "interner_extends it1 it" "shapes_known it1 vs'" for it1 vs'
      using shapes_known_extends [OF shapes_known_extends [OF v that(1)]] shapes_known_extends [OF that(2)]
      by (intro runs_result) auto
  qed
  show ?case
  proof (cases v)
    case None
    then show ?thesis using rest [OF extends_refl] by simp
  next
    case (Some payload)
    have "known_id it0 payload" using Cons.prems(2) Some by simp
    then have "runs it0 (field_type subst payload) known_type" by (rule runs_field_type [OF Cons.prems(1)])
    then show ?thesis unfolding Some substitute_variants.simps
      by (rule runs_bind) (rule runs_bind [OF runs_intern_type], auto intro!: rest dest: interner_extends_trans)
  qed
qed (auto intro: runs_result)

lemma runs_concrete_variants:
  assumes "type_args it0 rng = Some is" "\<forall>i \<in> set is. known_id it0 i" "shapes_known it0 vs"
  shows "runs it0 (concrete_variants pv symb rng vs) shapes_known"
  unfolding concrete_variants_def Let_def
proof (rule runs_bind [OF runs_type_args [OF assms(1,2)]])
  fix it args
  assume it: "interner_extends it it0" and args: "\<forall>i \<in> set args. known_id it i"
  note vs = shapes_known_extends [OF assms(3) it]
  have "runs it (q_ok vs) shapes_known" using shapes_known_extends [OF vs] by (intro runs_result) auto
  then show "runs it (if (case get_generic_params pv symb of None \<Rightarrow> [] | Some ps \<Rightarrow> ps) \<noteq> [] \<and> args \<noteq> []
      then substitute_variants (generic_subst (case get_generic_params pv symb of None \<Rightarrow> [] | Some ps \<Rightarrow> ps) args) vs
      else q_ok vs) shapes_known"
    using runs_substitute_variants [OF generic_subst_known [OF args] vs] by simp
qed

text \<open>Queries about a type one level deeper.\<close>

abbreviation query_total :: "('c ar_type \<Rightarrow> ('c, 'a) query) \<Rightarrow> bool" where
  "query_total q \<equiv> \<forall>it ty. known_type it ty \<longrightarrow> completes it (q ty)"

lemma runs_resolve_then:
  assumes "query_total q" "known_id it0 i" "\<And>x. runs it0 (f x) Q"
  shows "runs it0 (q_bind (q_read (\<lambda>it. resolve it i)) (\<lambda>ty. q_bind (q ty) f)) Q"
  by (rule runs_bind [OF runs_resolve [OF assms(2)]], rule runs_then) (use assms(1,3) runs_extends in blast)+

lemma runs_field_then:
  assumes "query_total q" "subst_known it0 subst" "known_id it0 i" "\<And>x. runs it0 (f x) Q"
  shows "runs it0 (q_bind (field_type subst i) (\<lambda>ty. q_bind (q ty) f)) Q"
  by (rule runs_bind [OF runs_field_type [OF assms(2,3)]], rule runs_then) (use assms(1,4) runs_extends in blast)+

lemma completes_result: "completes it0 (q_result r)"
  by (rule runs_result) simp

lemma runs_field_items:
  "query_total q \<Longrightarrow> subst_known it0 subst \<Longrightarrow> \<forall>f \<in> set fs. known_id it0 (sf_ty f) \<Longrightarrow> completes it0 (field_items q subst fs)"
  by (induction fs) (simp_all add: runs_field_then runs_then completes_result)

lemma runs_tuple_items:
  "query_total q \<Longrightarrow> \<forall>i \<in> set is. known_id it0 i \<Longrightarrow> completes it0 (tuple_items q dl is off al offs)"
  by (induction "is" arbitrary: off al offs) (simp_all add: runs_resolve_then runs_result_then completes_result)

lemma runs_payload_bounds:
  "query_total q \<Longrightarrow> shapes_known it0 vs \<Longrightarrow> completes it0 (payload_bounds q vs sz al)"
proof (induction vs arbitrary: sz al)
  case (Cons v vs)
  then show ?case by (cases v) (simp_all add: runs_resolve_then)
qed (simp add: completes_result)

lemma runs_pointee_scan:
  "query_total q \<Longrightarrow> shapes_known it0 vs \<Longrightarrow> completes it0 (pointee_scan q vs al n)"
proof (induction vs arbitrary: al n)
  case (Cons v vs)
  have "query_total (\<lambda>ty. q_try (q ty))"
    using Cons.prems(1) completes_try by blast
  then show ?case using Cons by (cases v) (auto intro!: runs_resolve_then completes_result split: option.split)
qed (simp add: completes_result)

text \<open>A provider that describes nominal types by interned types.\<close>

definition provider_known :: "'c layout_provider \<Rightarrow> bool" where
  "provider_known pv \<longleftrightarrow> (\<forall>it ty. interner_inv it \<longrightarrow> known_type it ty \<longrightarrow>
     (\<forall>fs. get_struct_fields_for_type pv ty it = Some fs \<longrightarrow> (\<forall>f \<in> set (sfs_fields fs). known_id it (sf_ty f))) \<and>
     (\<forall>vs. get_enum_variants_for_type pv ty it = Some vs \<longrightarrow> shapes_known it vs))"

lemma providerD:
  assumes "provider_known pv" "interner_inv it" "known_type it ty"
  shows "\<forall>fs. get_struct_fields_for_type pv ty it = Some fs \<longrightarrow> (\<forall>f \<in> set (sfs_fields fs). known_id it (sf_ty f))"
    "\<forall>vs. get_enum_variants_for_type pv ty it = Some vs \<longrightarrow> shapes_known it vs"
  using assms unfolding provider_known_def by blast+

lemma runs_struct_fields:
  assumes "provider_known pv" "known_type it0 ty"
  shows "runs it0 (q_read (\<lambda>it. Some (get_struct_fields_for_type pv ty it)))
    (\<lambda>it found. \<forall>fs. found = Some fs \<longrightarrow> (\<forall>f \<in> set (sfs_fields fs). known_id it (sf_ty f)))"
  by (rule runs_read) (use providerD [OF assms(1) _ known_type_extends [OF assms(2)]] in blast)

lemma runs_variants:
  assumes "provider_known pv" "known_type it0 ty"
  shows "runs it0 (q_read (\<lambda>it. Some (get_enum_variants_for_type pv ty it)))
    (\<lambda>it found. \<forall>vs. found = Some vs \<longrightarrow> shapes_known it vs)"
  by (rule runs_read) (use providerD [OF assms(1) _ known_type_extends [OF assms(2)]] in blast)

lemma named_args:
  assumes "known_type it (ArNamed symb rng)"
  obtains "is" where "type_args it rng = Some is" "\<forall>i \<in> set is. known_id it i"
  using assms by (auto simp: built_below_def)

lemma runs_enum_layout:
  assumes "query_total lt" "query_total at" "shapes_known it0 vs"
  shows "completes it0 (enum_layout dl lt at vs)"
  unfolding enum_layout_def Let_def
  by (rule runs_then [OF runs_pointee_scan [OF assms(2,3)]])
    (auto intro!: completes_result runs_then [OF runs_payload_bounds [OF assms(1,3)]] split: prod.split)

lemma runs_named:
  assumes pv: "provider_known pv" and q: "query_total lt" "query_total at" and ty: "known_type it0 (ArNamed symb rng)"
  shows "completes it0 (layout_body dl pv lt nt at (ArNamed symb rng))"
  unfolding layout_body_def ar_type.case
proof (rule runs_bind [OF runs_struct_fields [OF pv ty]])
  fix it found
  assume it: "interner_extends it it0" and found: "\<forall>fs. found = Some fs \<longrightarrow> (\<forall>f \<in> set (sfs_fields fs). known_id it (sf_ty f))"
  note ty1 = known_type_extends [OF ty it]
  obtain "is" where args: "type_args it rng = Some is" "\<forall>i \<in> set is. known_id it i" using named_args [OF ty1] .
  have "completes it (q_bind (nominal_subst pv symb rng) (\<lambda>subst.
      q_bind (field_items lt subst (sfs_fields fs)) (\<lambda>items. q_result (struct_layout dl (is_repr_c pv symb) items))))"
    if "found = Some fs" for fs
  proof (rule runs_bind [OF runs_nominal_subst [OF args]], rule runs_then)
    fix it1 and subst :: "symbol_id \<rightharpoonup> type_id"
    assume "interner_extends it1 it" "subst_known it1 subst"
    then show "completes it1 (field_items lt subst (sfs_fields fs))"
      using found that known_id_extends [of _ it it1] by (intro runs_field_items q) auto
  qed (rule completes_result)
  moreover have "completes it (q_bind (q_read (\<lambda>it. Some (get_enum_variants_for_type pv (ArNamed symb rng) it)))
      (\<lambda>variants. case variants of None \<Rightarrow> q_err UnknownType
         | Some vs \<Rightarrow> q_bind (concrete_variants pv symb rng vs) (enum_layout dl lt at)))"
  proof (rule runs_bind [OF runs_variants [OF pv ty1]])
    fix it1 vs
    assume it1: "interner_extends it1 it" and vs: "\<forall>ws. vs = Some ws \<longrightarrow> shapes_known it1 ws"
    have "type_args it1 rng = Some is" "\<forall>i \<in> set is. known_id it1 i"
      using type_args_extends [OF it1 args(1)] known_ids_extends [OF args(2) it1] .
    then show "completes it1 (case vs of None \<Rightarrow> q_err UnknownType
         | Some vs \<Rightarrow> q_bind (concrete_variants pv symb rng vs) (enum_layout dl lt at))"
      using vs by (cases vs) (auto intro!: completes_result runs_bind [OF runs_concrete_variants] runs_enum_layout q)
  qed
  ultimately show "completes it (case found of
      None \<Rightarrow> q_bind (q_read (\<lambda>it. Some (get_enum_variants_for_type pv (ArNamed symb rng) it)))
        (\<lambda>variants. case variants of None \<Rightarrow> q_err UnknownType
           | Some vs \<Rightarrow> q_bind (concrete_variants pv symb rng vs) (enum_layout dl lt at))
    | Some fields_def \<Rightarrow> q_bind (nominal_subst pv symb rng) (\<lambda>subst.
        q_bind (field_items lt subst (sfs_fields fields_def)) (\<lambda>items. q_result (struct_layout dl (is_repr_c pv symb) items))))"
    by (cases found) simp_all
qed

lemma runs_nominal_field:
  assumes "query_total q" "known_type it (ArNamed symb rng)" "known_id it i"
  shows "completes it (q_bind (nominal_subst pv symb rng) (\<lambda>subst. q_bind (field_type subst i) q))"
proof -
  obtain "is" where args: "type_args it rng = Some is" "\<forall>i \<in> set is. known_id it i" using named_args [OF assms(2)] .
  show ?thesis
  proof (rule runs_bind [OF runs_nominal_subst [OF args]])
    fix it1 and subst :: "symbol_id \<rightharpoonup> type_id"
    assume "interner_extends it1 it" "subst_known it1 subst"
    then have "runs it1 (field_type subst i) known_type" using runs_field_type known_id_extends [OF assms(3)] by blast
    then show "completes it1 (q_bind (field_type subst i) q)" by (rule runs_bind) (use assms(1) in simp)
  qed
qed

lemma first_field_mem: "first_field_at offs fs = Some f \<Longrightarrow> f \<in> set fs"
  by (auto simp: first_field_at_def find_Some_iff)

lemma resolve_total: "query_total q \<Longrightarrow> known_id it0 i \<Longrightarrow> completes it0 (q_bind (q_read (\<lambda>it. resolve it i)) q)"
  by (rule runs_bind [OF runs_resolve]) simp_all

lemma runs_layout_body:
  assumes pv: "provider_known pv" and q: "query_total lt" "query_total nt" "query_total at" and ty: "known_type it0 ty"
  shows "completes it0 (layout_body dl pv lt nt at ty)"
proof (cases ty)
  case (ArNamed symb rng)
  then show ?thesis using runs_named [OF pv q(1,3)] ty by simp
next
  case (ArTuple rng)
  obtain "is" where args: "type_args it0 rng = Some is" "\<forall>i \<in> set is. known_id it0 i" using ty ArTuple by (auto simp: built_below_def)
  show ?thesis unfolding ArTuple layout_body_def ar_type.case
    by (rule runs_bind [OF runs_type_args [OF args]])
      (auto intro!: runs_then [OF runs_tuple_items [OF q(1)]] runs_result_then completes_result)
next
  case (ArOption inner)
  have "completes it0 (q_bind (q_read (\<lambda>it. resolve it inner)) (\<lambda>inner_ty.
      q_bind (lt inner_ty) (\<lambda>layout. q_bind (nt inner_ty) (\<lambda>niche.
      if niche then q_ok (niche_layout dl layout)
      else q_result (tagged_layout dl OptionPayload (tl_size layout) (tl_align layout))))))"
    using ty q ArOption by (intro resolve_total) (auto simp: built_below_def intro!: runs_then completes_result)
  then show ?thesis unfolding ArOption layout_body_def ar_type.case .
next
  case (ArRef inner)
  then show ?thesis using ty by (auto simp: layout_body_def built_below_def intro!: completes_result runs_then [OF completes_resolve])
next
  case (ArRefMut inner)
  then show ?thesis using ty by (auto simp: layout_body_def built_below_def intro!: completes_result runs_then [OF completes_resolve])
qed (use ty in \<open>auto simp: layout_body_def built_below_def intro!: completes_result runs_resolve_then [OF q(1)] runs_result_then\<close>)

lemma runs_niche_body:
  assumes pv: "provider_known pv" and q: "query_total lt" "query_total nt" and ty: "known_type it0 ty"
  shows "completes it0 (niche_body pv lt nt ty)"
proof (cases ty)
  case (ArNamed symb rng)
  have "completes it0 (q_bind (q_read (\<lambda>it. Some (get_struct_fields_for_type pv ty it))) (\<lambda>found.
          case found of
            None \<Rightarrow> q_ok False
          | Some fields_def \<Rightarrow>
              q_bind (q_try (lt ty)) (\<lambda>r.
              case r of
                None \<Rightarrow> q_ok False
              | Some layout \<Rightarrow>
                  (case first_field_at (field_offsets layout) (sfs_fields fields_def) of
                     None \<Rightarrow> q_ok False
                   | Some f \<Rightarrow> q_bind (nominal_subst pv symb rng) (\<lambda>subst. q_bind (field_type subst (sf_ty f)) nt)))))"
  proof (rule runs_bind [OF runs_struct_fields [OF pv ty]], goal_cases)
    case (1 it found)
    have field: "completes it (q_bind (nominal_subst pv symb rng) (\<lambda>subst. q_bind (field_type subst (sf_ty f)) nt))"
      if "found = Some fs" "f \<in> set (sfs_fields fs)" for fs f
      using runs_nominal_field [OF q(2) known_type_extends [OF ty 1(1), unfolded ArNamed]] 1(2) that by simp
    have "completes it (q_try (lt ty))" using q(1) known_type_extends [OF ty 1(1)] completes_try by blast
    then show ?case using field first_field_mem
      by (cases found) (auto intro!: completes_result runs_then [of it "q_try (lt ty)"] split: option.split)
  qed
  then show ?thesis by (simp only: niche_body_def ArNamed ar_type.case)
qed (simp_all add: niche_body_def completes_result)

lemma runs_pointee_body:
  assumes pv: "provider_known pv" and q: "query_total lt" "query_total at" and ty: "known_type it0 ty"
  shows "completes it0 (pointee_body pv lt at ty)"
proof (cases ty)
  case (ArNamed symb rng)
  have "completes it0 (q_bind (q_read (\<lambda>it. Some (get_struct_fields_for_type pv ty it))) (\<lambda>found.
          case found of
            Some fields_def \<Rightarrow>
              (case sfs_fields fields_def of
                 [f] \<Rightarrow> q_bind (nominal_subst pv symb rng) (\<lambda>subst. q_bind (field_type subst (sf_ty f)) at)
               | _ \<Rightarrow> q_ok None)
          | None \<Rightarrow> q_ok None))"
  proof (rule runs_bind [OF runs_struct_fields [OF pv ty]], goal_cases)
    case (1 it found)
    have "completes it (q_bind (nominal_subst pv symb rng) (\<lambda>subst. q_bind (field_type subst (sf_ty f)) at))"
      if "found = Some fs" "sfs_fields fs = [f]" for fs f
      using runs_nominal_field [OF q(2) known_type_extends [OF ty 1(1), unfolded ArNamed]] 1(2) that by simp
    then show ?case by (cases found) (auto simp: completes_result split: list.split)
  qed
  then show ?thesis by (simp add: pointee_body_def ArNamed)
qed (use ty in \<open>auto simp: pointee_body_def built_below_def Let_def intro!: completes_result runs_resolve_then [OF q(1)]\<close>)

lemma runs_inner:
  assumes "provider_known pv"
  shows "query_total (layout_of_type_inner dl pv levels)" "query_total (has_null_niche_inner dl pv levels)"
    "query_total (ref_pointee_align_inner dl pv levels)"
proof (induction levels)
  case (Suc levels)
  { case 1 show ?case using Suc runs_layout_body [OF assms] by (auto intro!: runs_then [OF runs_visit]) }
  { case 2 show ?case using Suc runs_niche_body [OF assms] by (auto intro!: runs_then [OF runs_visit]) }
  { case 3 show ?case using Suc runs_pointee_body [OF assms] by (auto intro!: runs_then [OF runs_visit]) }
qed (simp_all add: completes_result)

lemma run_query_returns:
  assumes "runs it m Q" "interner_inv it"
  obtains r it' where "run_query m it = Some (r, it')" "interner_inv it'" "interner_extends it' it" "\<And>x. r = Inr x \<Longrightarrow> Q it' x"
proof -
  obtain r it' n' where "m (it, max_nodes) = Some (r, it', n')" "interner_inv it'" "interner_extends it' it" "\<forall>x. r = Inr x \<longrightarrow> Q it' x"
    using assms extends_refl unfolding runs_def by blast
  then show thesis using that by (simp add: run_query_def)
qed

section \<open>Properties\<close>



text \<open>A field whose type has no layout.\<close>

lemma runs_never: "runs it0 m (\<lambda>_ _. False) \<Longrightarrow> runs it0 (q_bind m f) Q"
  by (erule runs_bind) simp

lemma q_bind_assoc: "q_bind (q_bind m f) g = q_bind m (\<lambda>x. q_bind (f x) g)"
  by (rule ext) (simp add: q_bind_def split: option.split sum.split prod.split)

lemma field_items_never:
  assumes q: "query_total q" and subst: "subst_known it0 subst"
    and never: "runs it0 (q_bind (field_type subst (sf_ty f)) q) (\<lambda>_ _. False)"
  shows "\<forall>g \<in> set fs. known_id it0 (sf_ty g) \<Longrightarrow> f \<in> set fs \<Longrightarrow> runs it0 (field_items q subst fs) (\<lambda>_ _. False)"
proof (induction fs)
  case (Cons g fs)
  show ?case
  proof (cases "f = g")
    case True
    then show ?thesis using runs_never [OF never] by (simp add: q_bind_assoc)
  next
    case False
    then have "runs it0 (field_items q subst fs) (\<lambda>_ _. False)" using Cons by simp
    then show ?thesis unfolding field_items.simps
      by (intro runs_field_then [OF q subst] runs_never) (use Cons.prems(1) in simp_all)
  qed
qed simp

lemma field_type_closed:
  assumes "resolve it0 i = Some (ArNamed symb ir_empty)"
  shows "runs it0 (field_type (\<lambda>_. None) i) (\<lambda>_ ty. ty = ArNamed symb ir_empty)"
proof -
  have "runs it0 (q_read (\<lambda>it. resolve it i)) (\<lambda>_ ty. ty = ArNamed symb ir_empty)"
    by (rule runs_read) (use resolve_extends [OF _ assms] in auto)
  then show ?thesis unfolding field_type_def
    by (rule runs_bind) (auto intro!: runs_intern simp: returns_def subst_range_def type_args_def pool_get_def
        push_type_args_def push_args_dedup_def ir_empty_def extends_refl)
qed

lemma recursive_never:
  assumes it: "interner_inv it" and pv: "provider_known pv" and i: "resolve it (sf_ty f) = Some (ArNamed symb ir_empty)"
    and fs: "\<forall>it'. interner_extends it' it \<longrightarrow> get_struct_fields_for_type pv (ArNamed symb ir_empty) it' = Some fs"
    and f: "f \<in> set (sfs_fields fs)"
  shows "runs it (layout_of_type_inner dl pv levels (ArNamed symb ir_empty)) (\<lambda>_ _. False)"
proof (induction levels)
  case 0
  show ?case unfolding layout_of_type_inner.simps by (rule runs_result) simp
next
  case (Suc levels)
  let ?self = "ArNamed symb ir_empty" and ?q = "layout_of_type_inner dl pv levels"
  have self: "known_type it ?self" using resolve_known [OF it] i by (metis option.inject resolve_def option.distinct(1))
  have known: "\<forall>g \<in> set (sfs_fields fs). known_id it (sf_ty g)" using providerD(1) [OF pv it self] fs extends_refl by blast
  have found: "runs it (q_read (\<lambda>it. Some (get_struct_fields_for_type pv ?self it))) (\<lambda>_ found. found = Some fs)"
    by (rule runs_read) (use fs in simp)
  have subst: "runs it (nominal_subst pv symb ir_empty) (\<lambda>_ subst. subst = (\<lambda>_. None))"
    unfolding nominal_subst_def by (rule runs_bind [of _ _ "\<lambda>_ args. args = []"])
      (auto intro!: runs_read runs_result simp: type_args_def pool_get_def ir_empty_def generic_subst_def)
  have "runs it (q_bind (field_type (\<lambda>_. None) (sf_ty f)) ?q) (\<lambda>_ _. False)"
    by (rule runs_bind [OF field_type_closed [OF i]]) (use Suc.IH runs_extends in blast)
  then have "runs it (field_items ?q (\<lambda>_. None) (sfs_fields fs)) (\<lambda>_ _. False)"
    using field_items_never [OF runs_inner(1) [OF pv]] known f by simp
  then have "runs it (q_bind (nominal_subst pv symb ir_empty) (\<lambda>subst.
      q_bind (field_items ?q subst (sfs_fields fs)) (\<lambda>items. q_result (struct_layout dl (is_repr_c pv symb) items)))) (\<lambda>_ _. False)"
    by (intro runs_bind [OF subst]) (use runs_never runs_extends in blast)
  then have "runs it (layout_body dl pv ?q (has_null_niche_inner dl pv levels) (ref_pointee_align_inner dl pv levels) ?self) (\<lambda>_ _. False)"
    unfolding layout_body_def ar_type.case by (intro runs_bind [OF found]) (use runs_extends in auto)
  then show ?case by (simp add: runs_then [OF runs_visit])
qed


definition node_symbol :: symbol_id where
  "node_symbol = \<lparr>sym_file_id = 0, sym_local_id = 7\<rparr>"

definition node_fields :: struct_fields where
  "node_fields = sfs_from_entries [\<lparr>sf_name = ''key'', sf_symbol = None, sf_ty = 0, sf_index = 0\<rparr>,
     \<lparr>sf_name = ''next'', sf_symbol = None, sf_ty = length (preinterned :: nat ar_type list), sf_index = 1\<rparr>]"

definition node_provider :: "nat layout_provider" where
  "node_provider = \<lparr>get_struct_fields_for_type = (\<lambda>ty it.
        if ty = ArNamed node_symbol ir_empty \<and> length (preinterned :: nat ar_type list) < length (it_types it) then Some node_fields else None),
     get_generic_params = (\<lambda>_. None), get_enum_variants_for_type = (\<lambda>_ _. None), is_repr_c = (\<lambda>_. False)\<rparr>"


end
