(* ===== verification/Utf8.thy ===== *)
theory Utf8
  imports Prelude "HOL-Library.Sublist"
begin

text \<open>
  Rust's \<open>str\<close>: a byte string that is the UTF-8 encoding of a sequence of Unicode scalar values. A
  byte is a \<^typ>\<open>char\<close>, a \<open>char\<close> of Rust is its code point, a natural number. The theory models the
  operations of the standard library that the lexer and the line index use (\<open>chars().next()\<close>,
  \<open>char::len_utf8\<close>, \<open>char::len_utf16\<close>, \<open>str::is_char_boundary\<close>, \<open>str::get\<close>, the ASCII predicates and
  \<open>from_str_radix\<close>) and proves how boundaries, decoding and encoding fit together.
\<close>

named_theorems utf8_simps \<open>evaluation of the string operations\<close>

section \<open>Bytes and code points\<close>

type_synonym code_point = nat

abbreviation cp :: "char \<Rightarrow> code_point" where
  "cp b \<equiv> of_char b"

abbreviation NL :: char where "NL \<equiv> CHR 0x0A"
abbreviation CR :: char where "CR \<equiv> CHR 0x0D"
abbreviation TAB :: char where "TAB \<equiv> CHR 0x09"
abbreviation QUOTE :: char where "QUOTE \<equiv> CHR 0x22"
abbreviation APOSTROPHE :: char where "APOSTROPHE \<equiv> CHR 0x27"
abbreviation BACKSLASH :: char where "BACKSLASH \<equiv> CHR 0x5C"

definition is_ascii :: "char \<Rightarrow> bool" where
  "is_ascii b \<longleftrightarrow> cp b < 128"

definition cont_byte :: "char \<Rightarrow> bool" where
  "cont_byte b \<longleftrightarrow> 128 \<le> cp b \<and> cp b < 192"

definition in_range :: "char \<Rightarrow> char \<Rightarrow> code_point \<Rightarrow> bool" where
  "in_range lo hi c \<longleftrightarrow> cp lo \<le> c \<and> c \<le> cp hi"

definition is_ascii_digit :: "code_point \<Rightarrow> bool" where
  "is_ascii_digit c \<longleftrightarrow> in_range CHR ''0'' CHR ''9'' c"

definition is_ascii_uppercase :: "code_point \<Rightarrow> bool" where
  "is_ascii_uppercase c \<longleftrightarrow> in_range CHR ''A'' CHR ''Z'' c"

definition is_ascii_alphanumeric :: "code_point \<Rightarrow> bool" where
  "is_ascii_alphanumeric c \<longleftrightarrow>
     is_ascii_digit c \<or> is_ascii_uppercase c \<or> in_range CHR ''a'' CHR ''z'' c"

definition is_ascii_hexdigit :: "code_point \<Rightarrow> bool" where
  "is_ascii_hexdigit c \<longleftrightarrow>
     is_ascii_digit c \<or> in_range CHR ''A'' CHR ''F'' c \<or> in_range CHR ''a'' CHR ''f'' c"

definition is_ascii_graphic :: "char \<Rightarrow> bool" where
  "is_ascii_graphic b \<longleftrightarrow> in_range CHR ''!'' CHR ''~'' (cp b)"

text \<open>\<open>char::from_u32\<close>: surrogates and values above \<open>0x10FFFF\<close> are not scalar values.\<close>

definition is_scalar :: "nat \<Rightarrow> bool" where
  "is_scalar c \<longleftrightarrow> c < 0xD800 \<or> 0xE000 \<le> c \<and> c < 0x110000"

definition char_from_u32 :: "nat \<Rightarrow> code_point option" where
  "char_from_u32 n = (if is_scalar n then Some n else None)"

definition len_utf8 :: "code_point \<Rightarrow> nat" where
  "len_utf8 c = (if c < 0x80 then 1 else if c < 0x800 then 2 else if c < 0x10000 then 3 else 4)"

definition len_utf16 :: "code_point \<Rightarrow> nat" where
  "len_utf16 c = (if c < 0x10000 then 1 else 2)"

section \<open>Encoding\<close>

definition tail_byte :: "nat \<Rightarrow> char" where
  "tail_byte n = char_of (0x80 + n mod 64)"

definition utf8_char :: "code_point \<Rightarrow> string" where
  "utf8_char c =
    (if c < 0x80 then [char_of c]
     else if c < 0x800 then [char_of (0xC0 + c div 64), tail_byte c]
     else if c < 0x10000 then [char_of (0xE0 + c div 4096), tail_byte (c div 64), tail_byte c]
     else [char_of (0xF0 + c div 262144), tail_byte (c div 4096), tail_byte (c div 64),
           tail_byte c])"

definition utf8 :: "code_point list \<Rightarrow> string" where
  "utf8 cs = concat (map utf8_char cs)"

abbreviation scalars :: "code_point list \<Rightarrow> bool" where
  "scalars cs \<equiv> list_all is_scalar cs"

section \<open>Decoding and boundaries\<close>

text \<open>
  The first \<open>char\<close> of a \<open>str\<close>: the lead byte gives the number of continuation bytes, whose low six bits
  follow. On a valid \<open>str\<close> the continuation bytes are there; a missing one counts as zero.
\<close>

definition low6 :: "string \<Rightarrow> nat \<Rightarrow> nat" where
  "low6 bs i = (if i < length bs then cp (bs ! i) mod 64 else 0)"

definition next_char :: "string \<Rightarrow> code_point option" where
  "next_char bs =
    (if bs = [] then None
     else let x = cp (hd bs) in
       if x < 128 then Some x
       else if x < 0xE0 then Some (x mod 32 * 64 + low6 bs 1)
       else if x < 0xF0 then Some (x mod 16 * 4096 + low6 bs 1 * 64 + low6 bs 2)
       else Some (x mod 8 * 262144 + low6 bs 1 * 4096 + low6 bs 2 * 64 + low6 bs 3))"

definition is_char_boundary :: "string \<Rightarrow> nat \<Rightarrow> bool" where
  "is_char_boundary src i \<longleftrightarrow>
     i = 0 \<or> i = length src \<or> i < length src \<and> \<not> cont_byte (src ! i)"

definition slice :: "string \<Rightarrow> nat \<Rightarrow> nat \<Rightarrow> string" where
  "slice src i j = take (j - i) (drop i src)"

text \<open>\<open>str::get(i..j)\<close>.\<close>

definition str_get :: "string \<Rightarrow> nat \<Rightarrow> nat \<Rightarrow> string option" where
  "str_get src i j =
    (if i \<le> j \<and> is_char_boundary src i \<and> is_char_boundary src j then Some (slice src i j) else None)"

text \<open>\<open>strip_prefix\<close> and \<open>strip_suffix\<close>.\<close>

definition strip_prefix :: "string \<Rightarrow> string \<Rightarrow> string option" where
  "strip_prefix p s = (if prefix p s then Some (drop (length p) s) else None)"

definition strip_suffix :: "string \<Rightarrow> string \<Rightarrow> string option" where
  "strip_suffix p s = (if suffix p s then Some (take (length s - length p) s) else None)"

section \<open>Numbers\<close>

definition hex_value :: "char \<Rightarrow> nat option" where
  "hex_value b =
    (if is_ascii_digit (cp b) then Some (cp b - cp CHR ''0'')
     else if in_range CHR ''a'' CHR ''f'' (cp b) then Some (cp b - cp CHR ''a'' + 10)
     else if in_range CHR ''A'' CHR ''F'' (cp b) then Some (cp b - cp CHR ''A'' + 10)
     else None)"

fun hex_digits :: "nat \<Rightarrow> nat \<Rightarrow> string \<Rightarrow> nat option" where
  "hex_digits bound acc [] = Some acc"
| "hex_digits bound acc (b # bs) =
    (case hex_value b of
       None \<Rightarrow> None
     | Some d \<Rightarrow> if acc * 16 + d < bound then hex_digits bound (acc * 16 + d) bs else None)"

text \<open>
  \<open>from_str_radix(s, 16)\<close> of an unsigned type with \<open>bound\<close> values: an optional plus sign, at least one
  digit, no overflow.
\<close>

definition from_hex :: "nat \<Rightarrow> string \<Rightarrow> nat option" where
  "from_hex bound s =
    (let ds = (if prefix ''+'' s then tl s else s) in
     if ds = [] then None else hex_digits bound 0 ds)"

section \<open>Encoding and decoding are inverse\<close>

lemma cp_less_256 [simp]: "cp b < 256"
  using nat_of_char_less_256 [of b] by simp

lemma cp_char_of [utf8_simps]: "cp (char_of n) = n mod 256"
  by simp

lemma cp_char_of_small [simp]: "n < 256 \<Longrightarrow> cp (char_of n) = n"
  by simp

lemma cp_tail_byte [simp]: "cp (tail_byte n) = 0x80 + n mod 64"
proof -
  have "n mod 64 < 64" by simp
  then have "0x80 + n mod 64 < 256" by linarith
  then show ?thesis unfolding tail_byte_def by (rule cp_char_of_small)
qed

lemma cont_tail_byte [simp]: "cont_byte (tail_byte n)"
proof -
  have "n mod 64 < 64" by simp
  then show ?thesis by (simp add: cont_byte_def)
qed

lemma length_utf8_char: "length (utf8_char c) = len_utf8 c"
  by (simp add: utf8_char_def len_utf8_def)

lemma len_utf8_pos [simp]: "0 < len_utf8 c"
  by (simp add: len_utf8_def)

lemma utf8_Nil [simp]: "utf8 [] = []"
  and utf8_Cons [simp]: "utf8 (c # cs) = utf8_char c @ utf8 cs"
  and utf8_append [simp]: "utf8 (cs @ ds) = utf8 cs @ utf8 ds"
  by (simp_all add: utf8_def)

lemma split6: "(c::nat) div 64 * 64 + c mod 64 = c"
  by simp

lemma split12: "(c::nat) div 4096 * 4096 + c div 64 mod 64 * 64 + c mod 64 = c"
proof -
  have "c div 4096 = c div 64 div 64" using div_mult2_eq [of c 64 64] by simp
  then show ?thesis using split6 [of c] split6 [of "c div 64"] by linarith
qed

lemma split18:
  "(c::nat) div 262144 * 262144 + c div 4096 mod 64 * 4096 + c div 64 mod 64 * 64 + c mod 64 = c"
proof -
  have "c div 262144 = c div 4096 div 64" using div_mult2_eq [of c 4096 64] by simp
  then show ?thesis using split12 [of c] split6 [of "c div 4096"] by linarith
qed

lemma lead_mod:
  "x < 32 \<Longrightarrow> (0xC0 + x) mod 32 = (x::nat)"
  "x < 16 \<Longrightarrow> (0xE0 + x) mod 16 = (x::nat)"
  "x < 8 \<Longrightarrow> (0xF0 + x) mod 8 = (x::nat)"
  using mod_mult_self4 [of 32 6 x] mod_mult_self4 [of 16 14 x] mod_mult_self4 [of 8 30 x] by simp_all

lemma next_char_utf8_char:
  assumes "is_scalar c"
  shows "next_char (utf8_char c @ rest) = Some c"
proof -
  have small: "c < 0x110000" using assms by (auto simp: is_scalar_def)
  have mods: "(0x80 + n mod 64) mod 64 = n mod 64" for n :: nat
    by (metis mod_add_self1 mod_mod_trivial mod_mult_self3 mult_2 numeral_Bit0 add.assoc)
  consider "c < 0x80" | "0x80 \<le> c" "c < 0x800" | "0x800 \<le> c" "c < 0x10000" | "0x10000 \<le> c"
    by linarith
  then show ?thesis
  proof cases
    case 1
    then show ?thesis by (simp add: utf8_char_def next_char_def)
  next
    case 2
    have d: "c div 64 < 32" using 2 by (simp add: div_less_iff_less_mult)
    have d': "2 \<le> c div 64" using 2 by (simp add: le_div_geq)
    show ?thesis using 2 d d' lead_mod(1) [OF d]
      by (simp add: utf8_char_def next_char_def low6_def mods Let_def split6)
  next
    case 3
    have d: "c div 4096 < 16" using 3 by (simp add: div_less_iff_less_mult)
    show ?thesis using 3 d lead_mod(2) [OF d] split12 [of c]
      by (simp add: utf8_char_def next_char_def low6_def mods Let_def)
  next
    case 4
    have d: "c div 262144 < 8" using small by (simp add: div_less_iff_less_mult)
    show ?thesis using 4 d lead_mod(3) [OF d] split18 [of c]
      by (simp add: utf8_char_def next_char_def low6_def mods Let_def numeral_3_eq_3 numeral_2_eq_2)
  qed
qed

text \<open>Only the lead byte of an encoded character is not a continuation byte.\<close>

lemma utf8_char_lead: "is_scalar c \<Longrightarrow> \<not> cont_byte (hd (utf8_char c))"
proof -
  assume "is_scalar c"
  then have small: "c < 0x110000" by (auto simp: is_scalar_def)
  have "c < 0x800 \<Longrightarrow> c div 64 < 32" by (simp add: div_less_iff_less_mult)
  moreover have "c < 0x10000 \<Longrightarrow> c div 4096 < 16" by (simp add: div_less_iff_less_mult)
  moreover have "c div 262144 < 8" using small by (simp add: div_less_iff_less_mult)
  ultimately show ?thesis by (simp add: utf8_char_def cont_byte_def)
qed

lemma utf8_char_tail:
  "0 < i \<Longrightarrow> i < len_utf8 c \<Longrightarrow> cont_byte (utf8_char c ! i)"
  by (auto simp: utf8_char_def len_utf8_def nth_Cons less_Suc_eq numeral_2_eq_2 numeral_3_eq_3
      split: if_splits nat.splits)

lemma utf8_char_ne [simp]: "utf8_char c \<noteq> []"
  using length_utf8_char [of c] len_utf8_pos [of c] by (metis length_greater_0_conv)

text \<open>The boundaries of a \<open>str\<close> are exactly the ends of its characters.\<close>

lemma is_char_boundary_prefix:
  assumes "scalars (cs @ ds)"
  shows "is_char_boundary (utf8 (cs @ ds)) (length (utf8 cs))"
proof (cases ds)
  case (Cons d es)
  then have "\<not> cont_byte (utf8 (cs @ ds) ! length (utf8 cs))"
    using assms utf8_char_lead [of d] by (simp add: nth_append hd_conv_nth)
  then show ?thesis using Cons by (simp add: is_char_boundary_def)
qed (simp add: is_char_boundary_def)

lemma is_char_boundary_split:
  "scalars cs \<Longrightarrow> is_char_boundary (utf8 cs) i \<Longrightarrow>
   \<exists>as bs. cs = as @ bs \<and> i = length (utf8 as)"
proof (induction cs arbitrary: i)
  case Nil
  then show ?case by (auto simp: is_char_boundary_def)
next
  case (Cons c cs)
  consider "i = 0" | "0 < i" "i < len_utf8 c" | "len_utf8 c \<le> i" by linarith
  then show ?case
  proof cases
    case 1
    then show ?thesis by (intro exI [of _ "[]"] exI [of _ "c # cs"]) auto
  next
    case 2
    then have "cont_byte (utf8 (c # cs) ! i)"
      using utf8_char_tail [of i c] by (simp add: nth_append length_utf8_char)
    moreover have "i < length (utf8 (c # cs))" using 2 by (simp add: length_utf8_char)
    ultimately show ?thesis using Cons.prems 2 by (auto simp: is_char_boundary_def)
  next
    case 3
    have "is_char_boundary (utf8 cs) (i - len_utf8 c)"
      using Cons.prems 3 by (auto simp: is_char_boundary_def nth_append length_utf8_char)
    then obtain as bs where "cs = as @ bs" "i - len_utf8 c = length (utf8 as)"
      using Cons.IH [of "i - len_utf8 c"] Cons.prems(1) by auto
    then show ?thesis using 3
      by (intro exI [of _ "c # as"] exI [of _ bs]) (auto simp: length_utf8_char)
  qed
qed

lemma boundary_char:
  assumes "scalars cs" and "is_char_boundary (utf8 cs) i" and "i < length (utf8 cs)"
  obtains as c bs where "cs = as @ c # bs" and "i = length (utf8 as)" and "is_scalar c"
    and "next_char (drop i (utf8 cs)) = Some c" and "drop i (utf8 cs) = utf8_char c @ utf8 bs"
proof -
  obtain as bs where s: "cs = as @ bs" "i = length (utf8 as)"
    using is_char_boundary_split [OF assms(1,2)] by blast
  then obtain c ds where "bs = c # ds" using assms(3) by (cases bs) auto
  then show ?thesis using s assms(1) that next_char_utf8_char by simp
qed

lemma boundary_next:
  assumes "scalars cs" and "is_char_boundary (utf8 cs) i"
    and "next_char (drop i (utf8 cs)) = Some c"
  shows "is_char_boundary (utf8 cs) (i + len_utf8 c)" and "i + len_utf8 c \<le> length (utf8 cs)"
    and "slice (utf8 cs) i (i + len_utf8 c) = utf8_char c" and "c \<in> set cs"
proof -
  have "i < length (utf8 cs)"
    using assms(3) by (cases "i < length (utf8 cs)") (auto simp: next_char_def)
  then obtain as bs where s: "cs = as @ c # bs" "i = length (utf8 as)"
    using boundary_char [OF assms(1,2)] assms(3) by (metis option.inject)
  then show "is_char_boundary (utf8 cs) (i + len_utf8 c)"
    using is_char_boundary_prefix [of "as @ [c]" bs] assms(1) by (simp add: length_utf8_char)
  show "i + len_utf8 c \<le> length (utf8 cs)" and "c \<in> set cs"
    and "slice (utf8 cs) i (i + len_utf8 c) = utf8_char c"
    using s by (simp_all add: length_utf8_char slice_def)
qed

lemma ascii_not_cont [simp]: "is_ascii b \<Longrightarrow> \<not> cont_byte b"
  by (simp add: is_ascii_def cont_byte_def)

lemma ascii_next_char:
  "i < length src \<Longrightarrow> is_ascii (src ! i) \<Longrightarrow> next_char (drop i src) = Some (cp (src ! i))"
  by (simp add: next_char_def is_ascii_def hd_drop_conv_nth)

lemma ascii_boundary:
  assumes "scalars cs" and "i < length (utf8 cs)" and "is_ascii (utf8 cs ! i)"
  shows "is_char_boundary (utf8 cs) i" and "is_char_boundary (utf8 cs) (Suc i)"
proof -
  show b: "is_char_boundary (utf8 cs) i" using assms by (simp add: is_char_boundary_def)
  have "len_utf8 (cp (utf8 cs ! i)) = 1" using assms(3) by (simp add: is_ascii_def len_utf8_def)
  then show "is_char_boundary (utf8 cs) (Suc i)"
    using boundary_next(1) [OF assms(1) b ascii_next_char [OF assms(2,3)]] by simp
qed

lemma next_char_ascii_iff:
  assumes "scalars cs" and "is_char_boundary (utf8 cs) i" and "i < length (utf8 cs)"
    and "next_char (drop i (utf8 cs)) = Some c" and "c < 128"
  shows "is_ascii (utf8 cs ! i) \<and> c = cp (utf8 cs ! i)"
proof -
  obtain bs where "drop i (utf8 cs) = utf8_char c @ utf8 bs"
    using boundary_char [OF assms(1-3)] assms(4) by (metis option.inject)
  then have "utf8 cs ! i = char_of c"
    using assms(3,5) hd_drop_conv_nth [OF assms(3)] by (simp add: utf8_char_def)
  then show ?thesis using assms(5) by (simp add: is_ascii_def)
qed

lemma NL_utf8_char: "is_scalar c \<Longrightarrow> count_list (utf8_char c) NL = (if c = cp NL then 1 else 0)"
proof -
  assume sc: "is_scalar c"
  have tail: "NL \<noteq> tail_byte n" for n
  proof
    assume "NL = tail_byte n"
    then have "cp NL = cp (tail_byte n)" by simp
    then show False by simp
  qed
  have lead: "NL \<noteq> char_of m" if "10 < m" "m < 256" for m :: nat
  proof
    assume "NL = char_of m"
    then have "cp NL = cp (char_of m :: char)" by simp
    then show False using that by simp
  qed
  have "c < 0x110000" using sc by (auto simp: is_scalar_def)
  then have "c div 262144 < 8" by (simp add: div_less_iff_less_mult)
  moreover have "c < 0x800 \<Longrightarrow> c div 64 < 32" "c < 0x10000 \<Longrightarrow> c div 4096 < 16"
    by (simp_all add: div_less_iff_less_mult)
  moreover have "c < 0x80 \<Longrightarrow> (NL = char_of c) = (c = 10)"
    using of_char_eq_iff [of NL "char_of c", where 'a = nat] by auto
  ultimately show ?thesis by (auto simp: utf8_char_def tail lead)
qed

lemma count_NL_utf8: "scalars cs \<Longrightarrow> count_list (utf8 cs) NL = count_list cs (cp NL)"
  by (induction cs) (simp_all add: NL_utf8_char)

lemma no_boundary_inside:
  assumes "scalars cs" and "is_char_boundary (utf8 cs) p" and "next_char (drop p (utf8 cs)) = Some c"
    and "p < q" and "q < p + len_utf8 c"
  shows "\<not> is_char_boundary (utf8 cs) q"
proof -
  have b: "p + len_utf8 c \<le> length (utf8 cs)" "slice (utf8 cs) p (p + len_utf8 c) = utf8_char c"
    using boundary_next [OF assms(1-3)] by auto
  have "utf8 cs ! q = slice (utf8 cs) p (p + len_utf8 c) ! (q - p)"
    using assms(4,5) b(1) by (simp add: slice_def)
  then have "cont_byte (utf8 cs ! q)"
    using utf8_char_tail [of "q - p" c] assms(4,5) b(2) by simp
  then show ?thesis using assms(4,5) b(1) by (auto simp: is_char_boundary_def)
qed

end
