(* ===== verification/Token.thy ===== *)
theory Token
  imports Utf8
begin

text \<open>
  Tokens of the Arandu lexer (\<open>arandu_lexer/src/token\<close>, \<open>arandu_lexer/src/error.rs\<close>,
  \<open>arandu_base/src/span.rs\<close>): the token kinds with their dense indices, names and statement flags, the
  token record with its lexeme, and the decoding of character and byte literals.

  The enum \<open>TokenKind\<close> has 141 variants in one flat list. Here its variants are grouped by five
  datatypes (literals and identifiers, keywords, primitive types, punctuation, longer operators) and
  \<open>token_kind\<close> is their sum with \<open>Eof\<close> and \<open>Error\<close>; the constructor names are those of the source.
\<close>

section \<open>Spans and errors\<close>

record span =
  file_id :: u32
  span_start :: u32
  span_end :: u32

definition span_new :: "u32 \<Rightarrow> u32 \<Rightarrow> u32 \<Rightarrow> span" where
  "span_new f a b = \<lparr>file_id = f, span_start = a, span_end = b\<rparr>"

datatype lex_error_code =
    InvalidChar | UnterminatedString | UnterminatedMultilineString | UnterminatedRawString
    | UnterminatedChar | EmptyChar | CharTooLong | InvalidEscape | InvalidUnicodeEscape
    | UnterminatedBlockComment | InvalidNumericLiteral | InvalidBinaryDigit | InvalidOctalDigit
    | InvalidHexDigit | LeadingZero | UnclosedInterpolation | BidiTrojanSource | SourceTooLarge

record lex_error =
  err_code :: lex_error_code
  err_message :: string
  err_span :: span

definition lex_error_new :: "lex_error_code \<Rightarrow> string \<Rightarrow> span \<Rightarrow> lex_error" where
  "lex_error_new c msg sp = \<lparr>err_code = c, err_message = msg, err_span = sp\<rparr>"

section \<open>Token kinds\<close>

datatype literal_kind =
    IdentValue | IdentType | DocComment | IntDec | IntHex | IntBin | IntOct | Float
    | StringStart | StringText | StringEscape | InterpStart | InterpEnd | StringEnd | RawString
    | MultilineStringStart | MultilineStringEnd | CharLit | ByteChar | ByteString | BoolTrue
    | BoolFalse | NilLit

datatype keyword =
    KwIf | KwElse | KwFor | KwIn | KwWhile | KwMatch | KwReturn | KwBreak | KwContinue | KwFunc
    | KwAsync | KwComptime | KwAwait | KwStruct | KwEnum | KwInterface | KwConst | KwType
    | KwModule | KwImport | KwFrom | KwAs | KwPublic | KwInternal | KwPrivate | KwExtern
    | KwUnsafe | KwWhere | KwCatch | KwIs | KwSet | KwOwn | KwMut | KwShared | KwRef | KwSelf
    | KwPtr | KwAlloc | KwFree | KwDefer | KwErrdefer | KwLet | KwImpl

datatype prim_type =
    TypeInt | TypeUint | TypeIsize | TypeUsize | TypeFloat | TypeI8 | TypeI16 | TypeI32
    | TypeI64 | TypeU8 | TypeU16 | TypeU32 | TypeU64 | TypeF32 | TypeF64 | TypeBool | TypeByte
    | TypeChar | TypeStr | TypeAny | TypeErr

datatype punct =
    LParen | RParen | LBracket | RBracket | LBrace | RBrace | Comma | Dot | Colon | Semicolon
    | At | Plus | Minus | Star | Slash | Percent | Amp | Pipe | Caret | Lt | Gt | Equal | Bang
    | Tilde | Question

datatype operator =
    SafeDot | SafeIndexStart | NullCoalesce | LogicalOr | LogicalAnd | FatArrow | PlusEqual
    | MinusEqual | StarEqual | SlashEqual | PercentEqual | AmpEqual | PipeEqual | CaretEqual
    | ShiftLeftEqual | ShiftRightEqual | ShiftLeft | ShiftRight | EqualEqual | BangEqual
    | LtEqual | GtEqual | RangeInclusive | RangeExclusive | Ellipsis | Arrow | PipeGt

datatype token_kind =
    Lit literal_kind | Kw keyword | Ty prim_type | Pn punct | Op operator
  | Eof | Error lex_error_code

text \<open>\<open>TokenKind::COUNT\<close> and \<open>TokenKind::index\<close>.\<close>

definition COUNT :: nat where
  "COUNT = 141"

primrec literal_kind_index :: "literal_kind \<Rightarrow> nat" where
  "literal_kind_index IdentValue = 0" | "literal_kind_index IdentType = 1"
  | "literal_kind_index DocComment = 2" | "literal_kind_index IntDec = 3"
  | "literal_kind_index IntHex = 4" | "literal_kind_index IntBin = 5"
  | "literal_kind_index IntOct = 6" | "literal_kind_index Float = 7"
  | "literal_kind_index StringStart = 8" | "literal_kind_index StringText = 9"
  | "literal_kind_index StringEscape = 10" | "literal_kind_index InterpStart = 11"
  | "literal_kind_index InterpEnd = 12" | "literal_kind_index StringEnd = 13"
  | "literal_kind_index RawString = 14" | "literal_kind_index MultilineStringStart = 15"
  | "literal_kind_index MultilineStringEnd = 16" | "literal_kind_index CharLit = 17"
  | "literal_kind_index ByteChar = 137" | "literal_kind_index ByteString = 139"
  | "literal_kind_index BoolTrue = 74" | "literal_kind_index BoolFalse = 75"
  | "literal_kind_index NilLit = 76"

primrec keyword_index :: "keyword \<Rightarrow> nat" where
  "keyword_index KwIf = 18" | "keyword_index KwElse = 19" | "keyword_index KwFor = 20"
  | "keyword_index KwIn = 21" | "keyword_index KwWhile = 22" | "keyword_index KwMatch = 23"
  | "keyword_index KwReturn = 24" | "keyword_index KwBreak = 25"
  | "keyword_index KwContinue = 26" | "keyword_index KwFunc = 27"
  | "keyword_index KwAsync = 28" | "keyword_index KwComptime = 138"
  | "keyword_index KwAwait = 29" | "keyword_index KwStruct = 30" | "keyword_index KwEnum = 31"
  | "keyword_index KwInterface = 32" | "keyword_index KwConst = 33"
  | "keyword_index KwType = 34" | "keyword_index KwModule = 35" | "keyword_index KwImport = 36"
  | "keyword_index KwFrom = 37" | "keyword_index KwAs = 38" | "keyword_index KwPublic = 39"
  | "keyword_index KwInternal = 135" | "keyword_index KwPrivate = 136"
  | "keyword_index KwExtern = 40" | "keyword_index KwUnsafe = 41"
  | "keyword_index KwWhere = 42" | "keyword_index KwCatch = 43" | "keyword_index KwIs = 44"
  | "keyword_index KwSet = 45" | "keyword_index KwOwn = 46" | "keyword_index KwMut = 47"
  | "keyword_index KwShared = 48" | "keyword_index KwRef = 130" | "keyword_index KwSelf = 49"
  | "keyword_index KwPtr = 50" | "keyword_index KwAlloc = 51" | "keyword_index KwFree = 52"
  | "keyword_index KwDefer = 53" | "keyword_index KwErrdefer = 54"
  | "keyword_index KwLet = 129" | "keyword_index KwImpl = 131"

primrec prim_type_index :: "prim_type \<Rightarrow> nat" where
  "prim_type_index TypeInt = 55" | "prim_type_index TypeUint = 56"
  | "prim_type_index TypeIsize = 133" | "prim_type_index TypeUsize = 134"
  | "prim_type_index TypeFloat = 57" | "prim_type_index TypeI8 = 58"
  | "prim_type_index TypeI16 = 59" | "prim_type_index TypeI32 = 60"
  | "prim_type_index TypeI64 = 61" | "prim_type_index TypeU8 = 62"
  | "prim_type_index TypeU16 = 63" | "prim_type_index TypeU32 = 64"
  | "prim_type_index TypeU64 = 65" | "prim_type_index TypeF32 = 66"
  | "prim_type_index TypeF64 = 67" | "prim_type_index TypeBool = 68"
  | "prim_type_index TypeByte = 69" | "prim_type_index TypeChar = 70"
  | "prim_type_index TypeStr = 71" | "prim_type_index TypeAny = 72"
  | "prim_type_index TypeErr = 73"

primrec punct_index :: "punct \<Rightarrow> nat" where
  "punct_index LParen = 77" | "punct_index RParen = 78" | "punct_index LBracket = 79"
  | "punct_index RBracket = 80" | "punct_index LBrace = 81" | "punct_index RBrace = 82"
  | "punct_index Comma = 83" | "punct_index Dot = 84" | "punct_index Colon = 85"
  | "punct_index Semicolon = 86" | "punct_index At = 87" | "punct_index Plus = 88"
  | "punct_index Minus = 89" | "punct_index Star = 90" | "punct_index Slash = 91"
  | "punct_index Percent = 92" | "punct_index Amp = 93" | "punct_index Pipe = 94"
  | "punct_index Caret = 95" | "punct_index Lt = 96" | "punct_index Gt = 97"
  | "punct_index Equal = 98" | "punct_index Bang = 99" | "punct_index Tilde = 100"
  | "punct_index Question = 101"

primrec operator_index :: "operator \<Rightarrow> nat" where
  "operator_index SafeDot = 102" | "operator_index SafeIndexStart = 103"
  | "operator_index NullCoalesce = 104" | "operator_index LogicalOr = 105"
  | "operator_index LogicalAnd = 106" | "operator_index FatArrow = 107"
  | "operator_index PlusEqual = 108" | "operator_index MinusEqual = 109"
  | "operator_index StarEqual = 110" | "operator_index SlashEqual = 111"
  | "operator_index PercentEqual = 112" | "operator_index AmpEqual = 113"
  | "operator_index PipeEqual = 114" | "operator_index CaretEqual = 115"
  | "operator_index ShiftLeftEqual = 116" | "operator_index ShiftRightEqual = 117"
  | "operator_index ShiftLeft = 118" | "operator_index ShiftRight = 119"
  | "operator_index EqualEqual = 120" | "operator_index BangEqual = 121"
  | "operator_index LtEqual = 122" | "operator_index GtEqual = 123"
  | "operator_index RangeInclusive = 124" | "operator_index RangeExclusive = 125"
  | "operator_index Ellipsis = 126" | "operator_index Arrow = 127"
  | "operator_index PipeGt = 140"

primrec index :: "token_kind \<Rightarrow> nat" where
  "index (Lit k) = literal_kind_index k"
| "index (Kw k) = keyword_index k"
| "index (Ty k) = prim_type_index k"
| "index (Pn k) = punct_index k"
| "index (Op k) = operator_index k"
| "index Eof = 128"
| "index (Error c) = 132"

text \<open>The arms of \<open>TokenKind::index_to_token_kind\<close>; every other index is \<open>Error(InvalidChar)\<close>.\<close>

definition index_arms :: "(nat \<times> token_kind) list" where
  "index_arms =
    [(0, Lit IdentValue), (1, Lit IdentType), (2, Lit DocComment), (3, Lit IntDec)
     , (4, Lit IntHex), (5, Lit IntBin), (6, Lit IntOct), (7, Lit Float), (8, Lit StringStart)
     , (9, Lit StringText), (10, Lit StringEscape), (11, Lit InterpStart), (12, Lit InterpEnd)
     , (13, Lit StringEnd), (14, Lit RawString), (15, Lit MultilineStringStart)
     , (16, Lit MultilineStringEnd), (17, Lit CharLit), (18, Kw KwIf), (19, Kw KwElse)
     , (20, Kw KwFor), (21, Kw KwIn), (22, Kw KwWhile), (23, Kw KwMatch), (24, Kw KwReturn)
     , (25, Kw KwBreak), (26, Kw KwContinue), (27, Kw KwFunc), (28, Kw KwAsync)
     , (29, Kw KwAwait), (30, Kw KwStruct), (31, Kw KwEnum), (32, Kw KwInterface)
     , (33, Kw KwConst), (34, Kw KwType), (35, Kw KwModule), (36, Kw KwImport), (37, Kw KwFrom)
     , (38, Kw KwAs), (39, Kw KwPublic), (135, Kw KwInternal), (136, Kw KwPrivate)
     , (40, Kw KwExtern), (41, Kw KwUnsafe), (42, Kw KwWhere), (43, Kw KwCatch), (44, Kw KwIs)
     , (45, Kw KwSet), (46, Kw KwOwn), (47, Kw KwMut), (48, Kw KwShared), (49, Kw KwSelf)
     , (50, Kw KwPtr), (51, Kw KwAlloc), (52, Kw KwFree), (53, Kw KwDefer), (54, Kw KwErrdefer)
     , (55, Ty TypeInt), (56, Ty TypeUint), (57, Ty TypeFloat), (58, Ty TypeI8)
     , (59, Ty TypeI16), (60, Ty TypeI32), (61, Ty TypeI64), (62, Ty TypeU8), (63, Ty TypeU16)
     , (64, Ty TypeU32), (65, Ty TypeU64), (66, Ty TypeF32), (67, Ty TypeF64)
     , (68, Ty TypeBool), (69, Ty TypeByte), (70, Ty TypeChar), (71, Ty TypeStr)
     , (72, Ty TypeAny), (73, Ty TypeErr), (74, Lit BoolTrue), (75, Lit BoolFalse)
     , (76, Lit NilLit), (77, Pn LParen), (78, Pn RParen), (79, Pn LBracket), (80, Pn RBracket)
     , (81, Pn LBrace), (82, Pn RBrace), (83, Pn Comma), (84, Pn Dot), (85, Pn Colon)
     , (86, Pn Semicolon), (87, Pn At), (88, Pn Plus), (89, Pn Minus), (90, Pn Star)
     , (91, Pn Slash), (92, Pn Percent), (93, Pn Amp), (94, Pn Pipe), (95, Pn Caret)
     , (96, Pn Lt), (97, Pn Gt), (98, Pn Equal), (99, Pn Bang), (100, Pn Tilde)
     , (101, Pn Question), (102, Op SafeDot), (103, Op SafeIndexStart), (104, Op NullCoalesce)
     , (105, Op LogicalOr), (106, Op LogicalAnd), (107, Op FatArrow), (108, Op PlusEqual)
     , (109, Op MinusEqual), (110, Op StarEqual), (111, Op SlashEqual), (112, Op PercentEqual)
     , (113, Op AmpEqual), (114, Op PipeEqual), (115, Op CaretEqual), (116, Op ShiftLeftEqual)
     , (117, Op ShiftRightEqual), (118, Op ShiftLeft), (119, Op ShiftRight)
     , (120, Op EqualEqual), (121, Op BangEqual), (122, Op LtEqual), (123, Op GtEqual)
     , (124, Op RangeInclusive), (125, Op RangeExclusive), (126, Op Ellipsis), (127, Op Arrow)
     , (128, Eof), (129, Kw KwLet), (130, Kw KwRef), (131, Kw KwImpl), (133, Ty TypeIsize)
     , (134, Ty TypeUsize), (137, Lit ByteChar), (138, Kw KwComptime), (139, Lit ByteString)
     , (140, Op PipeGt)]"

definition index_to_token_kind :: "nat \<Rightarrow> token_kind" where
  "index_to_token_kind i =
    (case map_of index_arms i of Some k \<Rightarrow> k | None \<Rightarrow> Error InvalidChar)"

text \<open>\<open>TokenKind::name\<close>.\<close>

primrec literal_kind_name :: "literal_kind \<Rightarrow> string" where
  "literal_kind_name IdentValue = ''IDENT_VALUE''"
  | "literal_kind_name IdentType = ''IDENT_TYPE''"
  | "literal_kind_name DocComment = ''DOC_COMMENT''" | "literal_kind_name IntDec = ''INT_DEC''"
  | "literal_kind_name IntHex = ''INT_HEX''" | "literal_kind_name IntBin = ''INT_BIN''"
  | "literal_kind_name IntOct = ''INT_OCT''" | "literal_kind_name Float = ''FLOAT''"
  | "literal_kind_name StringStart = ''STRING_START''"
  | "literal_kind_name StringText = ''STRING_TEXT''"
  | "literal_kind_name StringEscape = ''STRING_ESCAPE''"
  | "literal_kind_name InterpStart = ''INTERP_START''"
  | "literal_kind_name InterpEnd = ''INTERP_END''"
  | "literal_kind_name StringEnd = ''STRING_END''"
  | "literal_kind_name RawString = ''RAW_STRING''"
  | "literal_kind_name MultilineStringStart = ''MULTILINE_STRING_START''"
  | "literal_kind_name MultilineStringEnd = ''MULTILINE_STRING_END''"
  | "literal_kind_name CharLit = ''CHAR''" | "literal_kind_name ByteChar = ''BYTE_CHAR''"
  | "literal_kind_name ByteString = ''BYTE_STRING''"
  | "literal_kind_name BoolTrue = ''BOOL_TRUE''"
  | "literal_kind_name BoolFalse = ''BOOL_FALSE''" | "literal_kind_name NilLit = ''NIL''"

primrec keyword_name :: "keyword \<Rightarrow> string" where
  "keyword_name KwIf = ''KW_IF''" | "keyword_name KwElse = ''KW_ELSE''"
  | "keyword_name KwFor = ''KW_FOR''" | "keyword_name KwIn = ''KW_IN''"
  | "keyword_name KwWhile = ''KW_WHILE''" | "keyword_name KwMatch = ''KW_MATCH''"
  | "keyword_name KwReturn = ''KW_RETURN''" | "keyword_name KwBreak = ''KW_BREAK''"
  | "keyword_name KwContinue = ''KW_CONTINUE''" | "keyword_name KwFunc = ''KW_FUNC''"
  | "keyword_name KwAsync = ''KW_ASYNC''" | "keyword_name KwComptime = ''KW_COMPTIME''"
  | "keyword_name KwAwait = ''KW_AWAIT''" | "keyword_name KwStruct = ''KW_STRUCT''"
  | "keyword_name KwEnum = ''KW_ENUM''" | "keyword_name KwInterface = ''KW_INTERFACE''"
  | "keyword_name KwConst = ''KW_CONST''" | "keyword_name KwType = ''KW_TYPE''"
  | "keyword_name KwModule = ''KW_MODULE''" | "keyword_name KwImport = ''KW_IMPORT''"
  | "keyword_name KwFrom = ''KW_FROM''" | "keyword_name KwAs = ''KW_AS''"
  | "keyword_name KwPublic = ''KW_PUBLIC''" | "keyword_name KwInternal = ''KW_INTERNAL''"
  | "keyword_name KwPrivate = ''KW_PRIVATE''" | "keyword_name KwExtern = ''KW_EXTERN''"
  | "keyword_name KwUnsafe = ''KW_UNSAFE''" | "keyword_name KwWhere = ''KW_WHERE''"
  | "keyword_name KwCatch = ''KW_CATCH''" | "keyword_name KwIs = ''KW_IS''"
  | "keyword_name KwSet = ''KW_SET''" | "keyword_name KwOwn = ''KW_OWN''"
  | "keyword_name KwMut = ''KW_MUT''" | "keyword_name KwShared = ''KW_SHARED''"
  | "keyword_name KwRef = ''KW_REF''" | "keyword_name KwSelf = ''KW_SELF''"
  | "keyword_name KwPtr = ''KW_PTR''" | "keyword_name KwAlloc = ''KW_ALLOC''"
  | "keyword_name KwFree = ''KW_FREE''" | "keyword_name KwDefer = ''KW_DEFER''"
  | "keyword_name KwErrdefer = ''KW_ERRDEFER''" | "keyword_name KwLet = ''KW_LET''"
  | "keyword_name KwImpl = ''KW_IMPL''"

primrec prim_type_name :: "prim_type \<Rightarrow> string" where
  "prim_type_name TypeInt = ''TYPE_INT''" | "prim_type_name TypeUint = ''TYPE_UINT''"
  | "prim_type_name TypeIsize = ''TYPE_ISIZE''" | "prim_type_name TypeUsize = ''TYPE_USIZE''"
  | "prim_type_name TypeFloat = ''TYPE_FLOAT''" | "prim_type_name TypeI8 = ''TYPE_I8''"
  | "prim_type_name TypeI16 = ''TYPE_I16''" | "prim_type_name TypeI32 = ''TYPE_I32''"
  | "prim_type_name TypeI64 = ''TYPE_I64''" | "prim_type_name TypeU8 = ''TYPE_U8''"
  | "prim_type_name TypeU16 = ''TYPE_U16''" | "prim_type_name TypeU32 = ''TYPE_U32''"
  | "prim_type_name TypeU64 = ''TYPE_U64''" | "prim_type_name TypeF32 = ''TYPE_F32''"
  | "prim_type_name TypeF64 = ''TYPE_F64''" | "prim_type_name TypeBool = ''TYPE_BOOL''"
  | "prim_type_name TypeByte = ''TYPE_BYTE''" | "prim_type_name TypeChar = ''TYPE_CHAR''"
  | "prim_type_name TypeStr = ''TYPE_STR''" | "prim_type_name TypeAny = ''TYPE_ANY''"
  | "prim_type_name TypeErr = ''TYPE_ERR''"

primrec punct_name :: "punct \<Rightarrow> string" where
  "punct_name LParen = ''LPAREN''" | "punct_name RParen = ''RPAREN''"
  | "punct_name LBracket = ''LBRACKET''" | "punct_name RBracket = ''RBRACKET''"
  | "punct_name LBrace = ''LBRACE''" | "punct_name RBrace = ''RBRACE''"
  | "punct_name Comma = ''COMMA''" | "punct_name Dot = ''DOT''"
  | "punct_name Colon = ''COLON''" | "punct_name Semicolon = ''SEMICOLON''"
  | "punct_name At = ''AT''" | "punct_name Plus = ''PLUS''" | "punct_name Minus = ''MINUS''"
  | "punct_name Star = ''STAR''" | "punct_name Slash = ''SLASH''"
  | "punct_name Percent = ''PERCENT''" | "punct_name Amp = ''AMP''"
  | "punct_name Pipe = ''PIPE''" | "punct_name Caret = ''CARET''" | "punct_name Lt = ''LT''"
  | "punct_name Gt = ''GT''" | "punct_name Equal = ''EQUAL''" | "punct_name Bang = ''BANG''"
  | "punct_name Tilde = ''TILDE''" | "punct_name Question = ''QUESTION''"

primrec operator_name :: "operator \<Rightarrow> string" where
  "operator_name SafeDot = ''SAFE_DOT''"
  | "operator_name SafeIndexStart = ''SAFE_INDEX_START''"
  | "operator_name NullCoalesce = ''NULL_COALESCE''"
  | "operator_name LogicalOr = ''LOGICAL_OR''" | "operator_name LogicalAnd = ''LOGICAL_AND''"
  | "operator_name FatArrow = ''FAT_ARROW''" | "operator_name PlusEqual = ''PLUS_EQUAL''"
  | "operator_name MinusEqual = ''MINUS_EQUAL''" | "operator_name StarEqual = ''STAR_EQUAL''"
  | "operator_name SlashEqual = ''SLASH_EQUAL''"
  | "operator_name PercentEqual = ''PERCENT_EQUAL''" | "operator_name AmpEqual = ''AMP_EQUAL''"
  | "operator_name PipeEqual = ''PIPE_EQUAL''" | "operator_name CaretEqual = ''CARET_EQUAL''"
  | "operator_name ShiftLeftEqual = ''SHIFT_LEFT_EQUAL''"
  | "operator_name ShiftRightEqual = ''SHIFT_RIGHT_EQUAL''"
  | "operator_name ShiftLeft = ''SHIFT_LEFT''" | "operator_name ShiftRight = ''SHIFT_RIGHT''"
  | "operator_name EqualEqual = ''EQUAL_EQUAL''" | "operator_name BangEqual = ''BANG_EQUAL''"
  | "operator_name LtEqual = ''LT_EQUAL''" | "operator_name GtEqual = ''GT_EQUAL''"
  | "operator_name RangeInclusive = ''RANGE_INCLUSIVE''"
  | "operator_name RangeExclusive = ''RANGE_EXCLUSIVE''"
  | "operator_name Ellipsis = ''ELLIPSIS''" | "operator_name Arrow = ''ARROW''"
  | "operator_name PipeGt = ''PIPE_GT''"

primrec name :: "token_kind \<Rightarrow> string" where
  "name (Lit k) = literal_kind_name k"
| "name (Kw k) = keyword_name k"
| "name (Ty k) = prim_type_name k"
| "name (Pn k) = punct_name k"
| "name (Op k) = operator_name k"
| "name Eof = ''EOF''"
| "name (Error c) = ''ERROR''"

text \<open>\<open>TokenKind::is_keyword\<close>.\<close>

definition is_keyword :: "token_kind \<Rightarrow> bool" where
  "is_keyword kind \<longleftrightarrow> kind \<in> set
    [Kw KwIf, Kw KwElse, Kw KwFor, Kw KwIn, Kw KwWhile, Kw KwMatch, Kw KwReturn, Kw KwBreak
     , Kw KwContinue, Kw KwFunc, Kw KwAsync, Kw KwComptime, Kw KwAwait, Kw KwStruct, Kw KwEnum
     , Kw KwInterface, Kw KwConst, Kw KwType, Kw KwModule, Kw KwImport, Kw KwFrom, Kw KwAs
     , Kw KwPublic, Kw KwInternal, Kw KwPrivate, Kw KwExtern, Kw KwUnsafe, Kw KwWhere
     , Kw KwCatch, Kw KwIs, Kw KwSet, Kw KwOwn, Kw KwMut, Kw KwShared, Kw KwRef, Kw KwSelf
     , Kw KwPtr, Kw KwAlloc, Kw KwFree, Kw KwDefer, Kw KwErrdefer, Kw KwLet, Kw KwImpl]"

text \<open>\<open>TokenKind::is_primitive_type\<close>.\<close>

definition is_primitive_type :: "token_kind \<Rightarrow> bool" where
  "is_primitive_type kind \<longleftrightarrow> kind \<in> set
    [Ty TypeInt, Ty TypeUint, Ty TypeIsize, Ty TypeUsize, Ty TypeFloat, Ty TypeI8, Ty TypeI16
     , Ty TypeI32, Ty TypeI64, Ty TypeU8, Ty TypeU16, Ty TypeU32, Ty TypeU64, Ty TypeF32
     , Ty TypeF64, Ty TypeBool, Ty TypeByte, Ty TypeChar, Ty TypeStr, Ty TypeAny, Ty TypeErr
     , Kw KwPtr]"

definition is_contextual_member_name :: "token_kind \<Rightarrow> bool" where
  "is_contextual_member_name k \<longleftrightarrow> k = Lit IdentValue \<or> k = Lit IdentType \<or> is_keyword k"

text \<open>The \<open>can_end\<close> match of the flag table.\<close>

definition flag_can_end :: "token_kind \<Rightarrow> bool" where
  "flag_can_end kind \<longleftrightarrow> kind \<in> set
    [Lit IdentValue, Lit IdentType, Ty TypeInt, Ty TypeUint, Ty TypeIsize, Ty TypeUsize
     , Ty TypeFloat, Ty TypeI8, Ty TypeI16, Ty TypeI32, Ty TypeI64, Ty TypeU8, Ty TypeU16
     , Ty TypeU32, Ty TypeU64, Ty TypeF32, Ty TypeF64, Ty TypeBool, Ty TypeByte, Ty TypeChar
     , Ty TypeStr, Ty TypeAny, Ty TypeErr, Lit IntDec, Lit IntHex, Lit IntBin, Lit IntOct
     , Lit Float, Lit BoolTrue, Lit BoolFalse, Lit NilLit, Lit CharLit, Lit ByteChar
     , Lit ByteString, Lit StringEnd, Lit RawString, Lit MultilineStringEnd, Pn RParen
     , Pn RBracket, Pn RBrace, Pn Question, Kw KwReturn, Kw KwBreak, Kw KwContinue]"

text \<open>The \<open>prevents\<close> match of the flag table.\<close>

definition flag_prevents :: "token_kind \<Rightarrow> bool" where
  "flag_prevents kind \<longleftrightarrow> kind \<in> set
    [Pn RParen, Pn RBracket, Pn Comma, Pn Plus, Pn Minus, Pn Star, Pn Slash, Pn Percent, Pn Amp
     , Pn Pipe, Pn Caret, Op ShiftLeft, Op ShiftRight, Pn Dot, Op SafeDot, Op SafeIndexStart
     , Pn Question, Op NullCoalesce, Op LogicalOr, Op LogicalAnd, Pn Equal, Op EqualEqual
     , Op BangEqual, Pn Lt, Pn Gt, Op LtEqual, Op GtEqual, Op RangeExclusive, Op RangeInclusive
     , Op FatArrow, Op Arrow, Op PipeGt, Kw KwElse, Kw KwCatch, Kw KwAs, Kw KwWhere]"

text \<open>
  The flag table is filled once per index, through \<open>index_to_token_kind\<close>, and read through \<open>index\<close>.
\<close>

record token_flags =
  can_end :: bool
  prevents :: bool

definition TOKEN_FLAGS_TABLE :: "token_flags list" where
  "TOKEN_FLAGS_TABLE =
    map (\<lambda>i. let kind = index_to_token_kind i in
              \<lparr>can_end = flag_can_end kind, prevents = flag_prevents kind\<rparr>) [0..<COUNT]"

text \<open>Indexing the table panics out of range.\<close>

definition flags_of :: "token_kind \<Rightarrow> token_flags option" where
  "flags_of k =
    (if index k < length TOKEN_FLAGS_TABLE then Some (TOKEN_FLAGS_TABLE ! index k) else None)"

definition can_end_statement :: "token_kind \<Rightarrow> bool option" where
  "can_end_statement k = map_option can_end (flags_of k)"

definition prevents_semicolon_before :: "token_kind \<Rightarrow> bool option" where
  "prevents_semicolon_before k = map_option prevents (flags_of k)"

section \<open>Tokens\<close>

record token =
  tok_start :: u32
  tok_len :: u32
  tok_kind :: token_kind
  inserted :: bool

text \<open>\<open>Token::end\<close> adds with saturation.\<close>

definition tok_end :: "token \<Rightarrow> u32" where
  "tok_end t =
    (if unat (tok_start t) + unat (tok_len t) \<le> u32_max then tok_start t + tok_len t else - 1)"

definition tok_span :: "token \<Rightarrow> u32 \<Rightarrow> span" where
  "tok_span t f = span_new f (tok_start t) (tok_end t)"

definition is_error :: "token_kind \<Rightarrow> bool" where
  "is_error k = (case k of Error _ \<Rightarrow> True | _ \<Rightarrow> False)"

definition lexeme :: "token \<Rightarrow> string \<Rightarrow> string" where
  "lexeme t source =
    (if inserted t \<or> is_error (tok_kind t) \<or> tok_kind t = Eof then []
     else case str_get source (unat (tok_start t)) (min (unat (tok_end t)) (length source)) of
            Some s \<Rightarrow> s | None \<Rightarrow> [])"

text \<open>The text between a delimiter pair, and the empty text when the delimiters are not there.\<close>

definition between :: "string \<Rightarrow> string \<Rightarrow> string \<Rightarrow> string" where
  "between p q s =
    (case strip_prefix p s of
       None \<Rightarrow> []
     | Some t \<Rightarrow> (case strip_suffix q t of None \<Rightarrow> [] | Some u \<Rightarrow> u))"

definition raw_string_content :: "token \<Rightarrow> string \<Rightarrow> string" where
  "raw_string_content t source =
    (let s = lexeme t source in
     if prefix [CHR ''r'', QUOTE, QUOTE, QUOTE] s
     then between [CHR ''r'', QUOTE, QUOTE, QUOTE] [QUOTE, QUOTE, QUOTE] s
     else between [CHR ''r'', QUOTE] [QUOTE] s)"

definition char_content :: "token \<Rightarrow> string \<Rightarrow> string" where
  "char_content t source = between [APOSTROPHE] [APOSTROPHE] (lexeme t source)"

definition byte_content :: "token \<Rightarrow> string \<Rightarrow> string" where
  "byte_content t source = between [CHR ''b'', APOSTROPHE] [APOSTROPHE] (lexeme t source)"

definition byte_string_content :: "token \<Rightarrow> string \<Rightarrow> string" where
  "byte_string_content t source = between [CHR ''b'', QUOTE] [QUOTE] (lexeme t source)"

section \<open>Literals\<close>

definition decode_char_content :: "string \<Rightarrow> code_point option" where
  "decode_char_content content =
    (case strip_prefix [BACKSLASH] content of
       Some escaped \<Rightarrow>
         (if escaped = ''n'' then Some (cp NL)
          else if escaped = ''t'' then Some (cp TAB)
          else if escaped = ''r'' then Some (cp CR)
          else if escaped = ''0'' then Some 0
          else if escaped = [BACKSLASH] then Some (cp BACKSLASH)
          else if escaped = [QUOTE] then Some (cp QUOTE)
          else if escaped = [APOSTROPHE] then Some (cp APOSTROPHE)
          else if escaped = ''$'' then Some (cp CHR ''$'')
          else if prefix ''u{'' escaped \<and> suffix ''}'' escaped then
            (let digits = slice escaped 2 (length escaped - 1) in
             if digits = [] then None
             else Option.bind (from_hex (2 ^ 32) digits) char_from_u32)
          else None)
     | None \<Rightarrow>
         (case next_char content of
            None \<Rightarrow> None
          | Some value \<Rightarrow>
              if next_char (drop (len_utf8 value) content) = None then Some value else None))"

definition decode_byte_content :: "string \<Rightarrow> u8 option" where
  "decode_byte_content content =
    (case strip_prefix [BACKSLASH] content of
       Some escaped \<Rightarrow>
         (if escaped = ''n'' then Some (of_char NL)
          else if escaped = ''t'' then Some (of_char TAB)
          else if escaped = ''r'' then Some (of_char CR)
          else if escaped = ''0'' then Some 0
          else if escaped = [BACKSLASH] then Some (of_char BACKSLASH)
          else if escaped = [QUOTE] then Some (of_char QUOTE)
          else if escaped = [APOSTROPHE] then Some (of_char APOSTROPHE)
          else if prefix ''x'' escaped \<and> length escaped = 3
          then map_option of_nat (from_hex (2 ^ 8) (drop 1 escaped))
          else None)
     | None \<Rightarrow>
         (if length content = 1 then
            let b = content ! 0 in if is_ascii b then Some (of_char b) else None
          else None))"

text \<open>
  The loop of \<open>decode_byte_string_content\<close>, on the bytes that are left; \<open>content.get(i + 1..i + 3)\<close>
  is \<^const>\<open>str_get\<close> on the whole content, so the index is carried along.
\<close>

definition byte_escape :: "char \<Rightarrow> u8 option" where
  "byte_escape esc =
    (if esc = CHR ''n'' then Some (of_char NL)
     else if esc = CHR ''t'' then Some (of_char TAB)
     else if esc = CHR ''r'' then Some (of_char CR)
     else if esc = CHR ''0'' then Some 0
     else if esc = BACKSLASH then Some (of_char BACKSLASH)
     else if esc = QUOTE then Some (of_char QUOTE)
     else if esc = APOSTROPHE then Some (of_char APOSTROPHE)
     else None)"

function decode_bytes_from :: "string \<Rightarrow> nat \<Rightarrow> u8 list \<Rightarrow> u8 list option" where
  "decode_bytes_from content i out =
    (if i < length content then
       let b = content ! i in
       if b = BACKSLASH then
         if i + 1 < length content then
           let esc = content ! (i + 1) in
           if esc = CHR ''x'' then
             (case str_get content (i + 2) (i + 4) of
                None \<Rightarrow> None
              | Some hex_slice \<Rightarrow>
                  (case from_hex (2 ^ 8) hex_slice of
                     None \<Rightarrow> None
                   | Some val \<Rightarrow> decode_bytes_from content (i + 4) (out @ [of_nat val])))
           else (case byte_escape esc of
                   None \<Rightarrow> None
                 | Some v \<Rightarrow> decode_bytes_from content (i + 2) (out @ [v]))
         else None
       else if is_ascii b then decode_bytes_from content (i + 1) (out @ [of_char b])
       else None
     else Some out)"
  by pat_completeness auto
termination by (relation "measure (\<lambda>(content, i, out). length content - i)") auto

definition decode_byte_string_content :: "string \<Rightarrow> u8 list option" where
  "decode_byte_string_content content = decode_bytes_from content 0 []"

definition char_value :: "token \<Rightarrow> string \<Rightarrow> code_point option" where
  "char_value t source = decode_char_content (char_content t source)"

definition byte_value :: "token \<Rightarrow> string \<Rightarrow> u8 option" where
  "byte_value t source = decode_byte_content (byte_content t source)"

definition byte_string_bytes :: "token \<Rightarrow> string \<Rightarrow> u8 list option" where
  "byte_string_bytes t source = decode_byte_string_content (byte_string_content t source)"

text \<open>\<open>byte_literal\<close> and \<open>char_literal\<close> (\<open>arandu_base/src/lang.rs\<close>) print a value back as a literal.\<close>

definition hex_digit :: "nat \<Rightarrow> char" where
  "hex_digit d = char_of (if d < 10 then cp CHR ''0'' + d else cp CHR ''a'' + (d - 10))"

definition byte_literal_body :: "u8 \<Rightarrow> string" where
  "byte_literal_body v =
    (let b = char_of (unat v) in
     if b = NL then [BACKSLASH, CHR ''n'']
     else if b = TAB then [BACKSLASH, CHR ''t'']
     else if b = CR then [BACKSLASH, CHR ''r'']
     else if b = CHR 0x00 then [BACKSLASH, CHR ''0'']
     else if b = BACKSLASH then [BACKSLASH, BACKSLASH]
     else if b = APOSTROPHE then [BACKSLASH, APOSTROPHE]
     else if b = QUOTE then [BACKSLASH, QUOTE]
     else if is_ascii_graphic b \<or> b = CHR '' '' then [b]
     else [BACKSLASH, CHR ''x'', hex_digit (unat v div 16), hex_digit (unat v mod 16)])"

definition byte_literal :: "u8 \<Rightarrow> string" where
  "byte_literal v = [CHR ''b'', APOSTROPHE] @ byte_literal_body v @ [APOSTROPHE]"

definition char_literal :: "code_point \<Rightarrow> string" where
  "char_literal v =
    [APOSTROPHE] @
    (if v = cp NL then [BACKSLASH, CHR ''n'']
     else if v = cp TAB then [BACKSLASH, CHR ''t'']
     else if v = cp CR then [BACKSLASH, CHR ''r'']
     else if v = 0 then [BACKSLASH, CHR ''0'']
     else if v = cp BACKSLASH then [BACKSLASH, BACKSLASH]
     else if v = cp APOSTROPHE then [BACKSLASH, APOSTROPHE]
     else if v = cp QUOTE then [BACKSLASH, QUOTE]
     else if v = cp CHR ''$'' then [BACKSLASH, CHR ''$'']
     else utf8_char v) @
    [APOSTROPHE]"

section \<open>Printing\<close>

text \<open>The derived \<open>Debug\<close> of \<open>LexErrorCode\<close> prints the variant's name.\<close>

primrec error_code_debug :: "lex_error_code \<Rightarrow> string" where
  "error_code_debug InvalidChar = ''InvalidChar''"
  | "error_code_debug UnterminatedString = ''UnterminatedString''"
  | "error_code_debug UnterminatedMultilineString = ''UnterminatedMultilineString''"
  | "error_code_debug UnterminatedRawString = ''UnterminatedRawString''"
  | "error_code_debug UnterminatedChar = ''UnterminatedChar''"
  | "error_code_debug EmptyChar = ''EmptyChar''"
  | "error_code_debug CharTooLong = ''CharTooLong''"
  | "error_code_debug InvalidEscape = ''InvalidEscape''"
  | "error_code_debug InvalidUnicodeEscape = ''InvalidUnicodeEscape''"
  | "error_code_debug UnterminatedBlockComment = ''UnterminatedBlockComment''"
  | "error_code_debug InvalidNumericLiteral = ''InvalidNumericLiteral''"
  | "error_code_debug InvalidBinaryDigit = ''InvalidBinaryDigit''"
  | "error_code_debug InvalidOctalDigit = ''InvalidOctalDigit''"
  | "error_code_debug InvalidHexDigit = ''InvalidHexDigit''"
  | "error_code_debug LeadingZero = ''LeadingZero''"
  | "error_code_debug UnclosedInterpolation = ''UnclosedInterpolation''"
  | "error_code_debug BidiTrojanSource = ''BidiTrojanSource''"
  | "error_code_debug SourceTooLarge = ''SourceTooLarge''"

definition wrap :: "string \<Rightarrow> string \<Rightarrow> string" where
  "wrap f s = f @ ''('' @ s @ '')''"

definition token_kind_display :: "token_kind \<Rightarrow> string" where
  "token_kind_display k = (case k of Error c \<Rightarrow> wrap ''ERROR'' (error_code_debug c) | _ \<Rightarrow> name k)"

definition display_with :: "token_kind \<Rightarrow> token \<Rightarrow> string \<Rightarrow> string" where
  "display_with k t source =
    (if k \<in> set [Lit IdentValue, Lit IdentType, Lit DocComment, Lit IntDec, Lit IntHex, Lit IntBin,
                 Lit IntOct, Lit Float, Lit StringText, Lit StringEscape]
     then wrap (name k) (lexeme t source)
     else if k = Lit RawString then wrap ''RAW_STRING'' (raw_string_content t source)
     else if k = Lit CharLit then wrap ''CHAR'' (char_content t source)
     else if k = Lit ByteChar then wrap ''BYTE_CHAR'' (byte_content t source)
     else if k = Lit ByteString then wrap ''BYTE_STRING'' (byte_string_content t source)
     else case k of Error c \<Rightarrow> wrap ''ERROR'' (error_code_debug c) | _ \<Rightarrow> name k)"

definition user_facing_display :: "token_kind \<Rightarrow> token \<Rightarrow> string \<Rightarrow> string" where
  "user_facing_display k t source =
    (if k \<in> set [Lit IdentValue, Lit IdentType, Lit IntDec, Lit IntHex, Lit IntBin, Lit IntOct,
                 Lit Float]
     then lexeme t source
     else if k = Lit DocComment then ''documentation comment''
     else if k = Lit StringText \<or> k = Lit StringEscape then ''string content''
     else if k = Lit InterpStart \<or> k = Lit InterpEnd then ''string interpolation''
     else if k = Lit StringEnd \<or> k = Lit MultilineStringEnd then ''end of string''
     else if k \<in> set [Lit RawString, Lit ByteString, Lit StringStart, Lit MultilineStringStart]
     then ''string literal''
     else if k = Lit CharLit then
       (let content = char_content t source in
        if content = [] then ''character literal'' else content)
     else if k = Lit ByteChar then
       (let content = byte_content t source in
        if content = [] then ''byte literal''
        else [CHR ''b'', APOSTROPHE] @ content @ [APOSTROPHE])
     else if k = Eof then ''end of file''
     else if is_error k then ''invalid character''
     else (let s = lexeme t source in if s = [] then name k else s))"

definition dump :: "token \<Rightarrow> string \<Rightarrow> string" where
  "dump t source =
    (if tok_kind t = Pn Semicolon \<and> inserted t then ''SEMICOLON(inserted)''
     else display_with (tok_kind t) t source)"

section \<open>The index and the flag table\<close>

text \<open>
  A kind is determined by its index and its error code, so that a statement about all kinds can be
  checked on a list of them.
\<close>

definition all_kinds :: "token_kind list" where
  "all_kinds = map snd index_arms"

lemma all_kinds_complete: "\<not> is_error k \<Longrightarrow> k \<in> set all_kinds"
proof (cases k)
  case (Lit x) then show ?thesis by (cases x) (simp_all add: all_kinds_def index_arms_def)
next
  case (Kw x) then show ?thesis by (cases x) (simp_all add: all_kinds_def index_arms_def)
next
  case (Ty x) then show ?thesis by (cases x) (simp_all add: all_kinds_def index_arms_def)
next
  case (Pn x) then show ?thesis by (cases x) (simp_all add: all_kinds_def index_arms_def)
next
  case (Op x) then show ?thesis by (cases x) (simp_all add: all_kinds_def index_arms_def)
qed (simp_all add: all_kinds_def index_arms_def is_error_def)

lemma error_kind_cases: "is_error k \<Longrightarrow> (\<And>c. k = Error c \<Longrightarrow> P) \<Longrightarrow> P"
  by (cases k) (auto simp: is_error_def)

lemma index_arms_keys:
  "map fst index_arms = [0, 1] @ [2..<40] @ [135, 136] @ [40..<132] @ [133, 134] @ [137..<COUNT]"
  by (simp add: index_arms_def COUNT_def upt_rec_numeral)

lemma index_arms_index: "list_all (\<lambda>(i, k). index k = i) index_arms"
  by (simp add: index_arms_def)

lemma index_arms_lookup: "(i, k) \<in> set index_arms \<Longrightarrow> index_to_token_kind i = k \<and> index k = i"
proof -
  assume m: "(i, k) \<in> set index_arms"
  have "distinct (map fst index_arms)" unfolding index_arms_keys
    by (auto simp: COUNT_def simp del: upt_rec_numeral)
  then show ?thesis using m index_arms_index
    by (auto simp: index_to_token_kind_def list_all_iff)
qed

lemma index_arms_bound: "(i, k) \<in> set index_arms \<Longrightarrow> i < COUNT"
proof -
  assume "(i, k) \<in> set index_arms"
  then have "i \<in> set (map fst index_arms)" by force
  then show ?thesis unfolding index_arms_keys by (auto simp: COUNT_def simp del: upt_rec_numeral)
qed

lemma index_of_kind:
  "\<not> is_error k \<Longrightarrow> index k < COUNT \<and> index_to_token_kind (index k) = k"
  using all_kinds_complete [of k] index_arms_lookup index_arms_bound
  by (fastforce simp: all_kinds_def)

lemma kind_of_error_index: "index_to_token_kind 132 = Error InvalidChar"
proof -
  have "132 \<notin> set (map fst index_arms)" unfolding index_arms_keys
    by (simp add: COUNT_def del: upt_rec_numeral)
  then have "map_of index_arms 132 = None" by (simp add: map_of_eq_None_iff)
  then show ?thesis by (simp add: index_to_token_kind_def)
qed

lemma kind_of_index: "i < COUNT \<Longrightarrow> index (index_to_token_kind i) = i"
proof (cases "i = 132")
  case False
  assume "i < COUNT"
  then have "i \<in> set (map fst index_arms)" using False unfolding index_arms_keys
    by (auto simp: COUNT_def simp del: upt_rec_numeral)
  then show ?thesis using index_arms_lookup by force
qed (simp add: kind_of_error_index)

text \<open>
  C32: The dense index of a token kind and the kind of an index are inverse: every index below
  \<open>COUNT\<close> comes back from its kind, every kind comes back from its index except that all errors
  share one index, and the index is always inside a table of length \<open>COUNT\<close>.
\<close>

theorem token_index_roundtrip:
  "index k < COUNT \<and>
   index_to_token_kind (index k) = (if is_error k then Error InvalidChar else k) \<and>
   (i < COUNT \<longrightarrow> index (index_to_token_kind i) = i)"
proof (intro conjI impI)
  show "index k < COUNT"
    using index_of_kind [of k]
    by (cases "is_error k") (auto elim!: error_kind_cases simp: COUNT_def)
  show "index_to_token_kind (index k) = (if is_error k then Error InvalidChar else k)"
    using index_of_kind [of k]
    by (cases "is_error k") (auto elim!: error_kind_cases simp: kind_of_error_index)
  show "index (index_to_token_kind i) = i" if "i < COUNT"
    using kind_of_index that by simp
qed

theorem token_index_roundtrip_witness:
  "index (index_to_token_kind 140) = 140 \<and> index_to_token_kind (index (Op PipeGt)) = Op PipeGt"
  using token_index_roundtrip [of "Op PipeGt" 140] by (simp add: COUNT_def is_error_def)

text \<open>The table look-ups never go out of range, and give the two matches on the kind itself.\<close>

lemma flags_of_eq:
  "flags_of k = Some \<lparr>can_end = flag_can_end k, prevents = flag_prevents k\<rparr>"
proof -
  let ?k = "if is_error k then Error InvalidChar else k"
  have i: "index k < COUNT" "index_to_token_kind (index k) = ?k"
    using index_of_kind [of k]
    by (cases "is_error k"; auto elim!: error_kind_cases simp: kind_of_error_index COUNT_def)+
  have "flag_can_end ?k = flag_can_end k" "flag_prevents ?k = flag_prevents k"
    by (auto elim!: error_kind_cases simp: flag_can_end_def flag_prevents_def)
  then show ?thesis using i by (simp add: flags_of_def TOKEN_FLAGS_TABLE_def Let_def)
qed

text \<open>
  C31: The statement flags read from the table are exactly the two matches that fill it: no look-up is
  out of range, errors have neither flag, and a tok_kind that ends a statement may also forbid a semicolon
  before it only for a closing parenthesis, a closing bracket and the question mark.
\<close>

theorem token_flags_correct:
  "can_end_statement k = Some (flag_can_end k) \<and>
   prevents_semicolon_before k = Some (flag_prevents k) \<and>
   (is_error k \<longrightarrow> \<not> flag_can_end k \<and> \<not> flag_prevents k) \<and>
   (flag_can_end k \<and> flag_prevents k \<longleftrightarrow> k \<in> {Pn RParen, Pn RBracket, Pn Question})"
proof -
  have "flag_can_end k \<and> flag_prevents k \<longleftrightarrow> k \<in> {Pn RParen, Pn RBracket, Pn Question}"
    by (auto simp: flag_can_end_def flag_prevents_def)
  moreover have "is_error k \<longrightarrow> \<not> flag_can_end k \<and> \<not> flag_prevents k"
    by (auto elim!: error_kind_cases simp: flag_can_end_def flag_prevents_def)
  ultimately show ?thesis
    by (simp add: can_end_statement_def prevents_semicolon_before_def flags_of_eq)
qed

theorem token_flags_correct_witness:
  "can_end_statement (Error LeadingZero) = Some False \<and> \<not> flag_can_end (Error LeadingZero)"
  using token_flags_correct [of "Error LeadingZero"] by (simp add: is_error_def)

section \<open>Literals round trip\<close>

lemma between_delimiters [simp]: "between p q (p @ s @ q) = s"
  by (simp add: between_def strip_prefix_def strip_suffix_def suffix_def)

lemma hex_value_hex_digit: "d < 16 \<Longrightarrow> hex_value (hex_digit d) = Some d"
proof -
  assume "d < 16"
  then consider "d < 10" | "10 \<le> d" "d < 16" by linarith
  then show ?thesis
    by cases (simp_all add: hex_value_def hex_digit_def is_ascii_digit_def in_range_def)
qed

lemma hex_digit_graphic: "d < 16 \<Longrightarrow> hex_digit d \<noteq> CHR ''+'' \<and> is_ascii (hex_digit d)"
proof -
  assume "d < 16"
  then consider "d < 10" | "10 \<le> d" "d < 16" by linarith
  then have "cp (hex_digit d) \<noteq> cp CHR ''+'' \<and> is_ascii (hex_digit d)"
    by cases (simp_all add: hex_digit_def is_ascii_def)
  then show ?thesis by auto
qed

lemma from_hex_byte:
  assumes "n < 256"
  shows "from_hex (2 ^ 8) [hex_digit (n div 16), hex_digit (n mod 16)] = Some n"
proof -
  have d: "n div 16 < 16" "n mod 16 < 16" using assms by (simp_all add: div_less_iff_less_mult)
  have "hex_digit (n div 16) \<noteq> CHR ''+''" using hex_digit_graphic d by blast
  moreover have "n div 16 * 16 + n mod 16 = n" by simp
  ultimately show ?thesis using d assms
    by (simp add: from_hex_def hex_value_hex_digit)
qed

lemma unat_u8_less: "unat v < 256" for v :: u8
  using unsigned_less [of v, where 'a = nat] by simp

lemma of_char_char_of_unat: "of_char (char_of (unat v)) = (v :: u8)"
proof -
  have "(of_char (char_of (unat v)) :: u8) = of_nat (of_char (char_of (unat v)))"
    by (simp only: of_nat_of_char)
  then show ?thesis using unat_u8_less [of v] by simp
qed

text \<open>
  C33: Printing a byte as a byte literal and decoding the text between its quotes gives the byte back,
  for every byte, and the literal is ASCII.
\<close>

theorem byte_literal_roundtrip:
  "decode_byte_content (between [CHR ''b'', APOSTROPHE] [APOSTROPHE] (byte_literal v)) = Some v \<and>
   list_all is_ascii (byte_literal v)"
proof -
  define b where "b = char_of (unat v)"
  have v: "v = of_char b" and n: "unat v < 256"
    using unat_u8_less [of v] by (simp_all add: b_def of_char_char_of_unat)
  have d: "unat v div 16 < 16" "unat v mod 16 < 16" using n by (simp_all add: div_less_iff_less_mult)
  note body = byte_literal_body_def Let_def b_def [symmetric]
  consider "b \<in> {NL, TAB, CR, CHR 0x00, BACKSLASH, APOSTROPHE, QUOTE}"
    | "b \<notin> {NL, TAB, CR, CHR 0x00, BACKSLASH, APOSTROPHE, QUOTE}" "is_ascii_graphic b \<or> b = CHR '' ''"
    | "b \<notin> {NL, TAB, CR, CHR 0x00, BACKSLASH, APOSTROPHE, QUOTE}"
      "\<not> (is_ascii_graphic b \<or> b = CHR '' '')"
    by blast
  then have "decode_byte_content (byte_literal_body v) = Some (of_char b) \<and>
      list_all is_ascii (byte_literal_body v)"
  proof cases
    case 1
    then show ?thesis
      by (elim insertE emptyE) (simp_all add: body decode_byte_content_def strip_prefix_def is_ascii_def)
  next
    case 2
    then have "is_ascii b" by (auto simp: is_ascii_graphic_def in_range_def is_ascii_def)
    moreover have "BACKSLASH \<noteq> b" using 2 by blast
    ultimately show ?thesis using 2 by (simp add: body decode_byte_content_def strip_prefix_def)
  next
    case 3
    then have "byte_literal_body v =
        [BACKSLASH, CHR ''x'', hex_digit (unat v div 16), hex_digit (unat v mod 16)]"
      by (simp add: body)
    then show ?thesis using from_hex_byte [OF n] hex_digit_graphic d v
      by (simp add: decode_byte_content_def strip_prefix_def is_ascii_def)
  qed
  then show ?thesis unfolding byte_literal_def between_delimiters v [symmetric]
    by (simp add: is_ascii_def)
qed

end
