(* ===== verification/Scan.thy ===== *)
theory Scan
  imports Token
begin

text \<open>
  The character classes and the scanners of the lexer: \<open>lexer/ident.rs\<close> (the property table of ASCII
  characters, keywords, bidirectional controls), \<open>lexer/punctuation.rs\<close> (operators by longest match),
  and \<open>simd/\<close> (skipping white space and identifier bytes, with one scalar implementation and vector
  implementations for SSE2, AVX2 and Neon). The vector implementations are proved equal to the scalar
  ones by way of one locale, \<open>vector_scan\<close>, interpreted for each instruction set.

  The Unicode tables of the crate \<open>unicode_ident\<close> are a parameter.
\<close>

section \<open>Character properties\<close>

record unicode_ident =
  is_xid_start :: "code_point \<Rightarrow> bool"
  is_xid_continue :: "code_point \<Rightarrow> bool"

definition FLAG_IDENT_START :: u8 where "FLAG_IDENT_START = push_bit 0 1"

definition FLAG_IDENT_CONTINUE :: u8 where "FLAG_IDENT_CONTINUE = push_bit 1 1"

definition FLAG_WHITESPACE :: u8 where "FLAG_WHITESPACE = push_bit 2 1"

definition FLAG_DIGIT :: u8 where "FLAG_DIGIT = push_bit 3 1"

text \<open>\<open>table[i] |= flags\<close> for each index of a list.\<close>

definition mark_all :: "u8 \<Rightarrow> nat list \<Rightarrow> u8 list \<Rightarrow> u8 list" where
  "mark_all flags is table = fold (\<lambda>i t. t[i := t ! i OR flags]) is table"

definition byte_range :: "char \<Rightarrow> char \<Rightarrow> nat list" where
  "byte_range lo hi = [cp lo..<Suc (cp hi)]"

definition CHAR_PROPERTIES :: "u8 list" where
  "CHAR_PROPERTIES =
    (let table = replicate 128 0;
         table = mark_all FLAG_WHITESPACE [cp CHR '' '', cp TAB, cp CR, cp NL] table;
         table = mark_all (FLAG_IDENT_START OR FLAG_IDENT_CONTINUE) (byte_range CHR ''a'' CHR ''z'') table;
         table = mark_all (FLAG_IDENT_START OR FLAG_IDENT_CONTINUE) (byte_range CHR ''A'' CHR ''Z'') table;
         table = mark_all (FLAG_IDENT_START OR FLAG_IDENT_CONTINUE) [cp CHR ''_''] table
     in mark_all (FLAG_IDENT_CONTINUE OR FLAG_DIGIT) (byte_range CHR ''0'' CHR ''9'') table)"

definition is_ident_start :: "unicode_ident \<Rightarrow> code_point \<Rightarrow> bool" where
  "is_ident_start u c =
    (if c < 128 then CHAR_PROPERTIES ! c AND FLAG_IDENT_START \<noteq> 0 else is_xid_start u c)"

definition is_ident_continue :: "unicode_ident \<Rightarrow> code_point \<Rightarrow> bool" where
  "is_ident_continue u c =
    (if c < 128 then CHAR_PROPERTIES ! c AND FLAG_IDENT_CONTINUE \<noteq> 0 else is_xid_continue u c)"

definition is_digit :: "code_point \<Rightarrow> bool" where
  "is_digit c \<longleftrightarrow> c < 128 \<and> CHAR_PROPERTIES ! c AND FLAG_DIGIT \<noteq> 0"

definition is_bidi_control :: "code_point \<Rightarrow> bool" where
  "is_bidi_control c \<longleftrightarrow>
     c \<in> set [0x202A, 0x202B, 0x202C, 0x202D, 0x202E, 0x2066, 0x2067, 0x2068, 0x2069,
               0x200E, 0x200F, 0x061C]"

section \<open>Keywords and operators\<close>

text \<open>The arms of \<open>keyword_kind\<close>.\<close>

definition keyword_arms :: "(string \<times> token_kind) list" where
  "keyword_arms =
    [(''if'', Kw KwIf), (''else'', Kw KwElse), (''for'', Kw KwFor), (''in'', Kw KwIn)
     , (''while'', Kw KwWhile), (''match'', Kw KwMatch), (''return'', Kw KwReturn)
     , (''break'', Kw KwBreak), (''continue'', Kw KwContinue), (''func'', Kw KwFunc)
     , (''async'', Kw KwAsync), (''comptime'', Kw KwComptime), (''await'', Kw KwAwait)
     , (''struct'', Kw KwStruct), (''enum'', Kw KwEnum), (''interface'', Kw KwInterface)
     , (''const'', Kw KwConst), (''type'', Kw KwType), (''module'', Kw KwModule)
     , (''import'', Kw KwImport), (''as'', Kw KwAs), (''public'', Kw KwPublic)
     , (''internal'', Kw KwInternal), (''private'', Kw KwPrivate), (''extern'', Kw KwExtern)
     , (''unsafe'', Kw KwUnsafe), (''where'', Kw KwWhere), (''catch'', Kw KwCatch)
     , (''is'', Kw KwIs), (''let'', Kw KwLet), (''impl'', Kw KwImpl), (''set'', Kw KwSet)
     , (''own'', Kw KwOwn), (''mut'', Kw KwMut), (''shared'', Kw KwShared), (''ref'', Kw KwRef)
     , (''self'', Kw KwSelf), (''ptr'', Kw KwPtr), (''defer'', Kw KwDefer)
     , (''errdefer'', Kw KwErrdefer), (''int'', Ty TypeInt), (''uint'', Ty TypeUint)
     , (''isize'', Ty TypeIsize), (''usize'', Ty TypeUsize), (''float'', Ty TypeFloat)
     , (''i8'', Ty TypeI8), (''i16'', Ty TypeI16), (''i32'', Ty TypeI32), (''i64'', Ty TypeI64)
     , (''u8'', Ty TypeU8), (''u16'', Ty TypeU16), (''u32'', Ty TypeU32), (''u64'', Ty TypeU64)
     , (''f32'', Ty TypeF32), (''f64'', Ty TypeF64), (''bool'', Ty TypeBool)
     , (''byte'', Ty TypeByte), (''char'', Ty TypeChar), (''str'', Ty TypeStr)
     , (''any'', Ty TypeAny), (''true'', Lit BoolTrue), (''false'', Lit BoolFalse)
     , (''nil'', Lit NilLit)]"

definition keyword_kind :: "string \<Rightarrow> token_kind option" where
  "keyword_kind text = map_of keyword_arms text"

text \<open>The arms of \<open>token_kind_from_prefix\<close>, in their order: the first one that is a prefix wins.\<close>

definition prefix_arms :: "(string \<times> token_kind \<times> nat) list" where
  "prefix_arms =
    [(''<<='', Op ShiftLeftEqual, 3), (''>>='', Op ShiftRightEqual, 3)
     , (''...'', Op Ellipsis, 3), (''..='', Op RangeInclusive, 3), (''?.'', Op SafeDot, 2)
     , (''?['', Op SafeIndexStart, 2), (''??'', Op NullCoalesce, 2), (''||'', Op LogicalOr, 2)
     , (''|>'', Op PipeGt, 2), (''&&'', Op LogicalAnd, 2), (''=>'', Op FatArrow, 2)
     , (''->'', Op Arrow, 2), (''+='', Op PlusEqual, 2), (''-='', Op MinusEqual, 2)
     , (''*='', Op StarEqual, 2), (''/='', Op SlashEqual, 2), (''%='', Op PercentEqual, 2)
     , (''&='', Op AmpEqual, 2), (''|='', Op PipeEqual, 2), (''^='', Op CaretEqual, 2)
     , (''<<'', Op ShiftLeft, 2), (''>>'', Op ShiftRight, 2), (''=='', Op EqualEqual, 2)
     , (''!='', Op BangEqual, 2), (''<='', Op LtEqual, 2), (''>='', Op GtEqual, 2)
     , (''..'', Op RangeExclusive, 2), (''('', Pn LParen, 1), ('')'', Pn RParen, 1)
     , (''['', Pn LBracket, 1), ('']'', Pn RBracket, 1), (''{'', Pn LBrace, 1)
     , (''}'', Pn RBrace, 1), ('','', Pn Comma, 1), (''.'', Pn Dot, 1), ('':'', Pn Colon, 1)
     , ('';'', Pn Semicolon, 1), (''@'', Pn At, 1), (''+'', Pn Plus, 1), (''-'', Pn Minus, 1)
     , (''*'', Pn Star, 1), (''/'', Pn Slash, 1), (''%'', Pn Percent, 1), (''&'', Pn Amp, 1)
     , (''|'', Pn Pipe, 1), (''^'', Pn Caret, 1), (''<'', Pn Lt, 1), (''>'', Pn Gt, 1)
     , (''='', Pn Equal, 1), (''!'', Pn Bang, 1), (''~'', Pn Tilde, 1), (''?'', Pn Question, 1)]"

definition token_kind_from_prefix :: "string \<Rightarrow> (token_kind \<times> nat) option" where
  "token_kind_from_prefix bytes = map_option snd (find (\<lambda>(p, _). prefix p bytes) prefix_arms)"

text \<open>
  The byte index of the first character that does not continue an identifier
  (\<open>char_indices().find_map(..).unwrap_or(len)\<close>).
\<close>

function ident_end :: "unicode_ident \<Rightarrow> string \<Rightarrow> nat \<Rightarrow> nat" where
  "ident_end u rest i =
    (case next_char (drop i rest) of
       None \<Rightarrow> length rest
     | Some c \<Rightarrow> if is_ident_continue u c then ident_end u rest (i + len_utf8 c) else i)"
  by pat_completeness auto
termination
  by (relation "measure (\<lambda>(u, rest, i). length rest - i)")
    (auto simp: next_char_def split: if_splits intro: diff_less_mono2)

definition peek_kind_from :: "unicode_ident \<Rightarrow> string \<Rightarrow> token_kind" where
  "peek_kind_from u rest =
    (let word = (case next_char rest of
                   Some c \<Rightarrow> if is_ident_start u c
                             then keyword_kind (take (ident_end u rest 0) rest) else None
                 | None \<Rightarrow> None) in
     case word of
       Some kind \<Rightarrow> kind
     | None \<Rightarrow> (case token_kind_from_prefix rest of None \<Rightarrow> Eof | Some (kind, _) \<Rightarrow> kind))"

text \<open>\<open>identifier_kind\<close> (\<open>lib.rs\<close>); \<open>chars.all(is_ident_continue)\<close> is that the identifier ends with the text.\<close>

definition identifier_kind :: "unicode_ident \<Rightarrow> string \<Rightarrow> token_kind option" where
  "identifier_kind u text =
    (case next_char text of
       None \<Rightarrow> None
     | Some first \<Rightarrow>
         if \<not> is_ident_start u first \<or> ident_end u text (len_utf8 first) \<noteq> length text then None
         else if keyword_kind text \<noteq> None then None
         else Some (if is_ascii_uppercase first then Lit IdentType else Lit IdentValue))"

section \<open>Scalar scanners\<close>

function skip_ws_loop :: "string \<Rightarrow> nat \<Rightarrow> nat \<Rightarrow> nat option \<Rightarrow> nat \<times> nat \<times> nat option" where
  "skip_ws_loop bytes i newlines last_nl =
    (if i < length bytes then
       let b = bytes ! i in
       if b = NL then skip_ws_loop bytes (i + 1) (newlines + 1) (Some i)
       else if b = CR \<and> i + 1 < length bytes \<and> bytes ! (i + 1) = NL
       then skip_ws_loop bytes (i + 2) (newlines + 1) (Some (i + 1))
       else if b = CHR '' '' \<or> b = TAB \<or> b = CR then skip_ws_loop bytes (i + 1) newlines last_nl
       else (newlines, i, last_nl)
     else (newlines, i, last_nl))"
  by pat_completeness auto
termination by (relation "measure (\<lambda>(bytes, i, n, l). length bytes - i)") auto

definition scalar_skip_whitespace :: "string \<Rightarrow> nat \<times> nat \<times> nat option" where
  "scalar_skip_whitespace bytes = skip_ws_loop bytes 0 0 None"

function scan_ident_loop :: "unicode_ident \<Rightarrow> string \<Rightarrow> nat \<Rightarrow> nat" where
  "scan_ident_loop u bytes i =
    (if i < length bytes then
       let b = bytes ! i in
       if cp b < 128 then
         if is_ident_continue u (cp b) then scan_ident_loop u bytes (i + 1) else i
       else i
     else i)"
  by pat_completeness auto
termination by (relation "measure (\<lambda>(u, bytes, i). length bytes - i)") auto

definition scalar_scan_identifier :: "unicode_ident \<Rightarrow> string \<Rightarrow> nat" where
  "scalar_scan_identifier u bytes = scan_ident_loop u bytes 0"

section \<open>Vector registers\<close>

text \<open>A vector register is the list of its byte lanes; a comparison gives all ones or all zeros.\<close>

type_synonym u16 = "16 word"
type_synonym vec = "u8 list"

definition load :: "nat \<Rightarrow> string \<Rightarrow> nat \<Rightarrow> vec" where
  "load lanes bytes i = map of_char (take lanes (drop i bytes))"

definition set1 :: "vec \<Rightarrow> u8 \<Rightarrow> vec" where
  "set1 v b = map (\<lambda>_. b) v"

definition lane_mask :: "bool \<Rightarrow> u8" where
  "lane_mask b = (if b then - 1 else 0)"

definition cmpeq :: "vec \<Rightarrow> vec \<Rightarrow> vec" where
  "cmpeq = map2 (\<lambda>a b. lane_mask (a = b))"

definition cmpgt :: "vec \<Rightarrow> vec \<Rightarrow> vec" where
  "cmpgt = map2 (\<lambda>a b. lane_mask (sint b < sint a))"

definition cmpge :: "vec \<Rightarrow> vec \<Rightarrow> vec" where
  "cmpge = map2 (\<lambda>a b. lane_mask (b \<le> a))"

definition cmple :: "vec \<Rightarrow> vec \<Rightarrow> vec" where
  "cmple = map2 (\<lambda>a b. lane_mask (a \<le> b))"

definition vec_or :: "vec \<Rightarrow> vec \<Rightarrow> vec" where
  "vec_or = map2 (\<lambda>a b. a OR b)"

definition vec_and :: "vec \<Rightarrow> vec \<Rightarrow> vec" where
  "vec_and = map2 (\<lambda>a b. a AND b)"

text \<open>\<open>movemask\<close> collects the top bit of every lane.\<close>

definition movemask :: "vec \<Rightarrow> u32" where
  "movemask v = horner_sum of_bool 2 (map (\<lambda>x. bit x 7) v)"

text \<open>\<open>vpaddlq\<close> adds neighbouring lanes into lanes of twice the width, which cannot overflow.\<close>

fun vpaddl :: "nat list \<Rightarrow> nat list" where
  "vpaddl (x # y # zs) = (x + y) # vpaddl zs"
| "vpaddl zs = zs"

definition neon_weights :: vec where
  "neon_weights = [1, 2, 4, 8, 16, 32, 64, 128, 1, 2, 4, 8, 16, 32, 64, 128]"

definition neon_movemask :: "vec \<Rightarrow> u16" where
  "neon_movemask cmp_mask =
    (let masked = vec_and cmp_mask neon_weights;
         v64 = vpaddl (vpaddl (vpaddl (map unat masked)));
         low_byte = of_nat (v64 ! 0) :: u64;
         high_byte = of_nat (v64 ! 1) :: u64
     in ucast (low_byte OR push_bit 8 high_byte))"

text \<open>\<open>count_ones\<close>, \<open>trailing_zeros\<close> and \<open>leading_zeros\<close> of 32-bit words.\<close>

definition ones32 :: "u32 \<Rightarrow> nat" where
  "ones32 w = length (filter (bit w) [0..<32])"

definition tz32 :: "u32 \<Rightarrow> nat" where
  "tz32 w = length (takeWhile (\<lambda>n. \<not> bit w n) [0..<32])"

definition lz32 :: "u32 \<Rightarrow> nat" where
  "lz32 w = length (takeWhile (\<lambda>n. \<not> bit w n) (rev [0..<32]))"

section \<open>Vector scanners\<close>

text \<open>
  The loop the three vector versions of \<open>skip_whitespace\<close> share: \<open>non_ws\<close> and \<open>nl_mask\<close> are the masks
  computed from the loaded chunk, \<open>lanes\<close> the width of a register.
\<close>

definition last_bit :: "nat \<Rightarrow> u32 \<Rightarrow> nat option \<Rightarrow> nat option" where
  "last_bit i m last_nl = (if m \<noteq> 0 then Some (i + (31 - lz32 m)) else last_nl)"

function vec_skip_loop ::
  "nat \<Rightarrow> (vec \<Rightarrow> u32) \<Rightarrow> (vec \<Rightarrow> u32) \<Rightarrow> string \<Rightarrow> nat \<Rightarrow> nat \<Rightarrow> nat option \<Rightarrow> nat \<times> nat \<times> nat option"
  where
  "vec_skip_loop lanes non_ws nl_mask bytes i newlines last_nl =
    (if 0 < lanes \<and> i + lanes \<le> length bytes then
       let chunk = load lanes bytes i;
           non_ws_bit = non_ws chunk in
       if non_ws_bit \<noteq> 0 then
         let skip = tz32 non_ws_bit;
             skipped_nl_mask = nl_mask chunk AND (push_bit skip 1 - 1)
         in (newlines + ones32 skipped_nl_mask, i + skip, last_bit i skipped_nl_mask last_nl)
       else
         vec_skip_loop lanes non_ws nl_mask bytes (i + lanes)
           (newlines + ones32 (nl_mask chunk)) (last_bit i (nl_mask chunk) last_nl)
     else
       (case scalar_skip_whitespace (drop i bytes) of
          (rem_nl, rem_skip, rem_last_nl) \<Rightarrow>
            if rem_skip > 0
            then (newlines + rem_nl, i + rem_skip,
                  case rem_last_nl of Some offset \<Rightarrow> Some (i + offset) | None \<Rightarrow> last_nl)
            else (newlines + rem_nl, i, last_nl)))"
  by pat_completeness auto
termination by (relation "measure (\<lambda>(lanes, f, g, bytes, i, n, l). length bytes - i)") auto

function vec_scan_loop :: "unicode_ident \<Rightarrow> nat \<Rightarrow> (vec \<Rightarrow> u32) \<Rightarrow> string \<Rightarrow> nat \<Rightarrow> nat" where
  "vec_scan_loop u lanes non_ident bytes i =
    (if 0 < lanes \<and> i + lanes \<le> length bytes then
       let non_ident_bit = non_ident (load lanes bytes i) in
       if non_ident_bit \<noteq> 0 then i + tz32 non_ident_bit
       else vec_scan_loop u lanes non_ident bytes (i + lanes)
     else i + scalar_scan_identifier u (drop i bytes))"
  by pat_completeness auto
termination by (relation "measure (\<lambda>(u, lanes, f, bytes, i). length bytes - i)") auto

definition ws_lanes :: "vec \<Rightarrow> vec" where
  "ws_lanes chunk =
    vec_or (vec_or (cmpeq chunk (set1 chunk (of_char CHR '' ''))) (cmpeq chunk (set1 chunk (of_char TAB))))
           (vec_or (cmpeq chunk (set1 chunk (of_char CR))) (cmpeq chunk (set1 chunk (of_char NL))))"

definition nl_lanes :: "vec \<Rightarrow> vec" where
  "nl_lanes chunk = cmpeq chunk (set1 chunk (of_char NL))"

text \<open>Lanes between two bounds: strictly, with the signed comparison of x86, and inclusively, unsigned.\<close>

definition x86_range :: "char \<Rightarrow> char \<Rightarrow> vec \<Rightarrow> vec" where
  "x86_range lo hi chunk =
    vec_and (cmpgt chunk (set1 chunk (of_char lo - 1))) (cmpgt (set1 chunk (of_char hi + 1)) chunk)"

definition neon_range :: "char \<Rightarrow> char \<Rightarrow> vec \<Rightarrow> vec" where
  "neon_range lo hi chunk =
    vec_and (cmpge chunk (set1 chunk (of_char lo))) (cmple chunk (set1 chunk (of_char hi)))"

definition ident_lanes :: "(char \<Rightarrow> char \<Rightarrow> vec \<Rightarrow> vec) \<Rightarrow> vec \<Rightarrow> vec" where
  "ident_lanes rng chunk =
    vec_or (vec_or (rng CHR ''a'' CHR ''z'' chunk) (rng CHR ''A'' CHR ''Z'' chunk))
           (vec_or (rng CHR ''0'' CHR ''9'' chunk) (cmpeq chunk (set1 chunk (of_char CHR ''_''))))"

definition sse2_skip_whitespace :: "string \<Rightarrow> nat \<times> nat \<times> nat option" where
  "sse2_skip_whitespace bytes =
    vec_skip_loop 16 (\<lambda>chunk. NOT (movemask (ws_lanes chunk)) AND 0xFFFF)
      (\<lambda>chunk. movemask (nl_lanes chunk)) bytes 0 0 None"

definition sse2_scan_identifier :: "unicode_ident \<Rightarrow> string \<Rightarrow> nat" where
  "sse2_scan_identifier u bytes =
    vec_scan_loop u 16 (\<lambda>chunk. NOT (movemask (ident_lanes x86_range chunk)) AND 0xFFFF) bytes 0"

definition avx2_skip_whitespace :: "string \<Rightarrow> nat \<times> nat \<times> nat option" where
  "avx2_skip_whitespace bytes =
    vec_skip_loop 32 (\<lambda>chunk. NOT (movemask (ws_lanes chunk)))
      (\<lambda>chunk. movemask (nl_lanes chunk)) bytes 0 0 None"

definition avx2_scan_identifier :: "unicode_ident \<Rightarrow> string \<Rightarrow> nat" where
  "avx2_scan_identifier u bytes =
    vec_scan_loop u 32 (\<lambda>chunk. NOT (movemask (ident_lanes x86_range chunk))) bytes 0"

definition neon_skip_whitespace :: "string \<Rightarrow> nat \<times> nat \<times> nat option" where
  "neon_skip_whitespace bytes =
    vec_skip_loop 16 (\<lambda>chunk. NOT (ucast (neon_movemask (ws_lanes chunk))) AND 0xFFFF)
      (\<lambda>chunk. ucast (neon_movemask (nl_lanes chunk))) bytes 0 0 None"

definition neon_scan_identifier :: "unicode_ident \<Rightarrow> string \<Rightarrow> nat" where
  "neon_scan_identifier u bytes =
    vec_scan_loop u 16 (\<lambda>chunk. NOT (ucast (neon_movemask (ident_lanes neon_range chunk))) AND 0xFFFF)
      bytes 0"

section \<open>Backends\<close>

datatype simd_backend_kind = Scalar | Sse2 | Avx2 | Neon

text \<open>\<open>SimdBackendKind::detect\<close>, with the target and the processor's features as arguments.\<close>

record target =
  is_x86 :: bool
  is_aarch64 :: bool
  has_avx2 :: bool
  has_sse2 :: bool
  has_neon :: bool

definition detect :: "target \<Rightarrow> simd_backend_kind" where
  "detect t =
    (if is_x86 t \<and> has_avx2 t then Avx2
     else if is_x86 t \<and> has_sse2 t then Sse2
     else if is_aarch64 t \<and> has_neon t then Neon
     else Scalar)"

definition backend_skip_whitespace :: "simd_backend_kind \<Rightarrow> string \<Rightarrow> nat \<times> nat \<times> nat option" where
  "backend_skip_whitespace k bytes =
    (case k of Avx2 \<Rightarrow> avx2_skip_whitespace bytes
             | Sse2 \<Rightarrow> sse2_skip_whitespace bytes
             | Neon \<Rightarrow> neon_skip_whitespace bytes
             | Scalar \<Rightarrow> scalar_skip_whitespace bytes)"

definition backend_scan_identifier :: "simd_backend_kind \<Rightarrow> unicode_ident \<Rightarrow> string \<Rightarrow> nat" where
  "backend_scan_identifier k u bytes =
    (case k of Avx2 \<Rightarrow> avx2_scan_identifier u bytes
             | Sse2 \<Rightarrow> sse2_scan_identifier u bytes
             | Neon \<Rightarrow> neon_scan_identifier u bytes
             | Scalar \<Rightarrow> scalar_scan_identifier u bytes)"

section \<open>The property table\<close>

lemma length_mark_all [simp]: "length (mark_all f is t) = length t"
  unfolding mark_all_def by (induction "is" arbitrary: t) simp_all

lemma nth_mark_all:
  "list_all (\<lambda>i. i < length t) is \<Longrightarrow> j < length t \<Longrightarrow>
   bit (mark_all f is t ! j) n \<longleftrightarrow> bit (t ! j) n \<or> j \<in> set is \<and> bit f n"
  unfolding mark_all_def
proof (induction "is" arbitrary: t)
  case (Cons i "is")
  then show ?case
    using Cons.IH [of "t[i := t ! i OR f]"] by (auto simp: nth_list_update bit_or_iff)
qed simp

lemma byte_range_less: "cp hi < n \<Longrightarrow> list_all (\<lambda>i. i < n) (byte_range lo hi)"
  by (auto simp: byte_range_def list_all_iff)

lemma set_byte_range: "set (byte_range lo hi) = {c. in_range lo hi c}"
  by (auto simp: byte_range_def in_range_def)

lemma flag_bits [simp]:
  "bit FLAG_IDENT_START n \<longleftrightarrow> n = 0" "bit FLAG_IDENT_CONTINUE n \<longleftrightarrow> n = 1"
  "bit FLAG_WHITESPACE n \<longleftrightarrow> n = 2" "bit FLAG_DIGIT n \<longleftrightarrow> n = 3"
  unfolding FLAG_IDENT_START_def FLAG_IDENT_CONTINUE_def FLAG_WHITESPACE_def FLAG_DIGIT_def
    bit_push_bit_iff bit_1_iff by auto

lemma and_flag: "w AND f \<noteq> 0 \<longleftrightarrow> bit w k" if "\<And>n. bit f n \<longleftrightarrow> n = k" for w f :: u8
proof
  assume "w AND f \<noteq> 0"
  then obtain n where "bit (w AND f) n" using bit_word_eqI [of "w AND f" 0] by auto
  then show "bit w k" using that by (auto simp: bit_and_iff)
next
  assume "bit w k"
  then have "bit (w AND f) k" using that by (simp add: bit_and_iff)
  then show "w AND f \<noteq> 0" by auto
qed

lemma CHAR_PROPERTIES_bit:
  assumes "c < 128"
  shows "bit (CHAR_PROPERTIES ! c) n \<longleftrightarrow>
    n = 2 \<and> c \<in> {32, 9, 13, 10} \<or>
    n \<in> {0, 1} \<and> (in_range CHR ''a'' CHR ''z'' c \<or> in_range CHR ''A'' CHR ''Z'' c \<or> c = cp CHR ''_'') \<or>
    n \<in> {1, 3} \<and> in_range CHR ''0'' CHR ''9'' c"
proof -
  have r: "list_all (\<lambda>i. i < 128) (byte_range CHR ''a'' CHR ''z'')"
    "list_all (\<lambda>i. i < 128) (byte_range CHR ''A'' CHR ''Z'')"
    "list_all (\<lambda>i. i < 128) (byte_range CHR ''0'' CHR ''9'')"
    by (simp_all add: byte_range_less)
  show ?thesis using assms
    by (auto simp: CHAR_PROPERTIES_def Let_def nth_mark_all r set_byte_range bit_or_iff)
qed

definition ascii_ident :: "code_point \<Rightarrow> bool" where
  "ascii_ident c \<longleftrightarrow> is_ascii_alphanumeric c \<or> c = cp CHR ''_''"

lemma is_ident_start_ascii:
  "c < 128 \<Longrightarrow> is_ident_start u c \<longleftrightarrow> ascii_ident c \<and> \<not> is_ascii_digit c"
  by (auto simp: is_ident_start_def and_flag [of _ 0] CHAR_PROPERTIES_bit ascii_ident_def
      is_ascii_alphanumeric_def is_ascii_digit_def is_ascii_uppercase_def in_range_def)

lemma is_ident_continue_ascii: "c < 128 \<Longrightarrow> is_ident_continue u c \<longleftrightarrow> ascii_ident c"
  by (auto simp: is_ident_continue_def and_flag [of _ 1] CHAR_PROPERTIES_bit ascii_ident_def
      is_ascii_alphanumeric_def is_ascii_digit_def is_ascii_uppercase_def)

lemma is_digit_iff: "is_digit c \<longleftrightarrow> is_ascii_digit c"
  by (auto simp: is_digit_def and_flag [of _ 3] CHAR_PROPERTIES_bit is_ascii_digit_def in_range_def)

lemma ascii_ident_less: "ascii_ident c \<Longrightarrow> c < 128"
  by (auto simp: ascii_ident_def is_ascii_alphanumeric_def is_ascii_digit_def
      is_ascii_uppercase_def in_range_def)

section \<open>What the scalar scanners compute\<close>

definition is_ws :: "char \<Rightarrow> bool" where
  "is_ws b \<longleftrightarrow> b = CHR '' '' \<or> b = TAB \<or> b = CR \<or> b = NL"

fun last_nl_in :: "nat \<Rightarrow> string \<Rightarrow> nat option \<Rightarrow> nat option" where
  "last_nl_in i [] l = l"
| "last_nl_in i (b # bs) l = last_nl_in (Suc i) bs (if b = NL then Some i else l)"

lemma last_nl_in_append:
  "last_nl_in i (xs @ ys) l = last_nl_in (i + length xs) ys (last_nl_in i xs l)"
  by (induction i xs l rule: last_nl_in.induct) simp_all

declare skip_ws_loop.simps [simp del] scan_ident_loop.simps [simp del]
  vec_skip_loop.simps [simp del] vec_scan_loop.simps [simp del]

lemma skip_ws_loop_spec:
  "skip_ws_loop bytes i n l =
    (let ws = takeWhile is_ws (drop i bytes) in
     (n + count_list ws NL, i + length ws, last_nl_in i ws l))"
proof (induction bytes i n l rule: skip_ws_loop.induct)
  case (1 bytes i n l)
  show ?case
  proof (cases "i < length bytes")
    case False
    then show ?thesis by (simp add: skip_ws_loop.simps [of bytes i])
  next
    case True
    then have d: "drop i bytes = bytes ! i # drop (Suc i) bytes" by (simp add: Cons_nth_drop_Suc)
    show ?thesis
    proof (cases "bytes ! i = CR \<and> i + 1 < length bytes \<and> bytes ! (i + 1) = NL")
      case cr: True
      then have "drop (Suc i) bytes = NL # drop (i + 2) bytes"
        using Cons_nth_drop_Suc [of "Suc i" bytes] by simp
      then show ?thesis using 1(2) True d cr
        by (simp add: skip_ws_loop.simps [of bytes i] Let_def is_ws_def)
    next
      case False
      then show ?thesis using 1(1,3) True d
        by (auto simp: skip_ws_loop.simps [of bytes i] Let_def is_ws_def)
    qed
  qed
qed

lemma scalar_skip_whitespace_spec:
  "scalar_skip_whitespace bytes =
    (let ws = takeWhile is_ws bytes in (count_list ws NL, length ws, last_nl_in 0 ws None))"
  by (simp add: scalar_skip_whitespace_def skip_ws_loop_spec)

lemma scan_ident_loop_spec:
  "i \<le> length bytes \<Longrightarrow>
   scan_ident_loop u bytes i = i + length (takeWhile (\<lambda>b. ascii_ident (cp b)) (drop i bytes))"
proof (induction u bytes i rule: scan_ident_loop.induct)
  case (1 u bytes i)
  show ?case
  proof (cases "i < length bytes")
    case True
    then have d: "drop i bytes = bytes ! i # drop (Suc i) bytes" by (simp add: Cons_nth_drop_Suc)
    show ?thesis using 1 True d ascii_ident_less
      by (auto simp: scan_ident_loop.simps [of u bytes i] Let_def is_ident_continue_ascii)
  qed (simp add: scan_ident_loop.simps [of u bytes i])
qed

lemma scalar_scan_identifier_spec:
  "scalar_scan_identifier u bytes = length (takeWhile (\<lambda>b. ascii_ident (cp b)) bytes)"
  by (simp add: scalar_scan_identifier_def scan_ident_loop_spec)

section \<open>Bit masks of lanes\<close>

lemma tz32_first:
  assumes "p < 32" and "bit w p" and "\<And>j. j < p \<Longrightarrow> \<not> bit w j"
  shows "tz32 w = p"
proof -
  have "[0..<32] = [0..<p] @ [p..<32]" using assms(1) upt_add_eq_append [of 0 p "32 - p"] by simp
  moreover have "[p..<32] = p # [Suc p..<32]" using assms(1) by (simp add: upt_conv_Cons)
  ultimately show ?thesis using assms(2,3) by (simp add: tz32_def takeWhile_append)
qed

lemma lz32_last:
  assumes "p < 32" and "bit w p" and "\<And>j. p < j \<Longrightarrow> \<not> bit w j"
  shows "31 - lz32 w = p"
proof -
  have "[0..<32] = [0..<p] @ [p..<32]" using assms(1) upt_add_eq_append [of 0 p "32 - p"] by simp
  moreover have "[p..<32] = p # [Suc p..<32]" using assms(1) by (simp add: upt_conv_Cons)
  ultimately have "rev [0..<32] = rev [Suc p..<32] @ p # rev [0..<p]" by simp
  then show ?thesis using assms by (simp add: lz32_def takeWhile_append)
qed

lemma ones32_count:
  assumes "length xs \<le> 32" and "\<And>j. bit m j \<longleftrightarrow> j < length xs \<and> xs ! j = c"
  shows "ones32 m = count_list xs c"
proof -
  let ?n = "length xs"
  have "[0..<32] = [0..<?n] @ [?n..<32]" using assms(1) upt_add_eq_append [of 0 ?n "32 - ?n"] by simp
  then have "ones32 m = length (filter (bit m) ([0..<?n] @ [?n..<32]))" by (simp only: ones32_def)
  moreover have "filter (bit m) [?n..<32] = []" using assms(2) by (auto simp: filter_empty_conv)
  moreover have "filter (bit m) [0..<?n] = filter (\<lambda>j. xs ! j = c) [0..<?n]"
    using assms(2) by (intro filter_cong) auto
  moreover have "length (filter (\<lambda>j. xs ! j = c) [0..<?n]) = length (filter (\<lambda>x. x = c) xs)"
    using length_filter_map [of "\<lambda>x. x = c" "nth xs" "[0..<?n]"] by (simp add: comp_def map_nth)
  moreover have "(\<lambda>x. x = c) = (=) c" by auto
  ultimately show ?thesis by (simp add: count_list_eq_length_filter)
qed

lemma last_bit_last_nl:
  "length xs \<le> 32 \<Longrightarrow> (\<And>j. bit m j \<longleftrightarrow> j < length xs \<and> xs ! j = NL) \<Longrightarrow>
   last_bit i m l = last_nl_in i xs l"
proof (induction xs rule: rev_induct)
  case Nil
  then have "m = 0" by (intro bit_word_eqI) auto
  then show ?case by (simp add: last_bit_def)
next
  case (snoc b xs)
  show ?case
  proof (cases "b = NL")
    case True
    have p: "bit m (length xs)" "\<And>j. length xs < j \<Longrightarrow> \<not> bit m j"
      using snoc.prems(2) True by (auto simp: nth_append)
    then have "m \<noteq> 0" by auto
    then show ?thesis using lz32_last [of "length xs" m] p snoc.prems(1) True
      by (simp add: last_bit_def last_nl_in_append)
  next
    case False
    have "bit m j \<longleftrightarrow> j < length xs \<and> xs ! j = NL" for j
      using snoc.prems(2) [of j] False by (auto simp: nth_append less_Suc_eq)
    then show ?thesis using snoc.IH snoc.prems(1) False by (simp add: last_nl_in_append)
  qed
qed

section \<open>A vector scanner computes what the scalar one does\<close>

text \<open>
  What an instruction set promises: for a full register of bytes, the bits of its masks say which
  lanes are not white space, are newlines, and are not identifier bytes.
\<close>

locale vector_scan =
  fixes lanes :: nat
    and non_ws nl_mask non_ident :: "vec \<Rightarrow> u32"
  assumes lanes: "0 < lanes" "lanes \<le> 32"
    and non_ws_bit: "length cs = lanes \<Longrightarrow>
      bit (non_ws (map of_char cs)) j \<longleftrightarrow> j < lanes \<and> \<not> is_ws (cs ! j)"
    and nl_bit: "length cs = lanes \<Longrightarrow>
      bit (nl_mask (map of_char cs)) j \<longleftrightarrow> j < lanes \<and> cs ! j = NL"
    and non_ident_bit: "length cs = lanes \<Longrightarrow>
      bit (non_ident (map of_char cs)) j \<longleftrightarrow> j < lanes \<and> \<not> ascii_ident (cp (cs ! j))"
begin

lemma mask_takeWhile:
  assumes "length cs = lanes" and "\<And>j. bit m j \<longleftrightarrow> j < lanes \<and> \<not> P (cs ! j)" and "m \<noteq> 0"
  shows "tz32 m < lanes \<and> takeWhile P (cs @ rest) = take (tz32 m) cs"
proof -
  have "\<exists>j. bit m j" using assms(3) bit_word_eqI [of m 0] by auto
  then obtain p where p: "bit m p" "\<And>j. j < p \<Longrightarrow> \<not> bit m j"
    using exists_least_iff [of "bit m"] by blast
  then have pl: "p < lanes" "\<not> P (cs ! p)" using assms(2) by auto
  have tz: "tz32 m = p" using tz32_first p pl lanes by simp
  have "takeWhile P cs = take p cs"
    using p(2) pl assms(1,2) by (intro takeWhile_eq_take_P_nth) auto
  moreover have "\<exists>x\<in>set cs. \<not> P x" using pl assms(1) by (metis nth_mem)
  ultimately show ?thesis using tz pl by (auto simp: takeWhile_append1)
qed

lemma mask_zero:
  "length cs = lanes \<Longrightarrow> (\<And>j. bit m j \<longleftrightarrow> j < lanes \<and> \<not> P (cs ! j)) \<Longrightarrow> m = 0 \<Longrightarrow>
   takeWhile P (cs @ rest) = cs @ takeWhile P rest"
  by (rule takeWhile_append2) (auto simp: in_set_conv_nth)

lemma chunk_split:
  assumes "i + lanes \<le> length bytes"
  obtains cs where "length cs = lanes" and "load lanes bytes i = map of_char cs"
    and "drop i bytes = cs @ drop (i + lanes) bytes"
proof -
  let ?cs = "take lanes (drop i bytes)"
  have "drop i bytes = ?cs @ drop (i + lanes) bytes"
    by (metis add.commute append_take_drop_id drop_drop)
  then show ?thesis using that [of ?cs] assms by (simp add: load_def)
qed

lemma skip_loop_spec:
  "i \<le> length bytes \<Longrightarrow>
   vec_skip_loop lanes non_ws nl_mask bytes i n l =
    (let ws = takeWhile is_ws (drop i bytes) in
     (n + count_list ws NL, i + length ws, last_nl_in i ws l))"
proof (induction "length bytes - i" arbitrary: i n l rule: less_induct)
  case less
  show ?case
  proof (cases "i + lanes \<le> length bytes")
    case False
    obtain a b c where r: "scalar_skip_whitespace (drop i bytes) = (a, b, c)"
      by (cases "scalar_skip_whitespace (drop i bytes)")
    have shift: "(case last_nl_in 0 ws None of Some k \<Rightarrow> Some (i + k) | None \<Rightarrow> l) = last_nl_in i ws l" for ws
      by (induction ws rule: rev_induct) (auto simp: last_nl_in_append)
    show ?thesis using False r lanes scalar_skip_whitespace_spec [of "drop i bytes"] shift
      by (auto simp: vec_skip_loop.simps [of lanes] Let_def)
  next
    case True
    obtain cs where cs: "length cs = lanes" "load lanes bytes i = map of_char cs"
      "drop i bytes = cs @ drop (i + lanes) bytes" by (rule chunk_split [OF True])
    let ?m = "non_ws (map of_char cs)" and ?nl = "nl_mask (map of_char cs)"
    show ?thesis
    proof (cases "?m = 0")
      case True
      have "takeWhile is_ws (drop i bytes) = cs @ takeWhile is_ws (drop (i + lanes) bytes)"
        unfolding cs(3) using mask_zero [OF cs(1) non_ws_bit [OF cs(1)] True] by simp
      moreover have "ones32 ?nl = count_list cs NL" "last_bit i ?nl l = last_nl_in i cs l"
        using ones32_count [of cs ?nl NL] last_bit_last_nl [of cs ?nl i l] nl_bit cs(1) lanes by auto
      ultimately show ?thesis
        using less(1) [of "i + lanes"] lanes True \<open>i + lanes \<le> length bytes\<close> cs
        by (simp add: vec_skip_loop.simps [of lanes _ _ _ i] Let_def last_nl_in_append add.assoc)
    next
      case False
      define k where "k = tz32 ?m"
      have k: "k < lanes" "takeWhile is_ws (drop i bytes) = take k cs"
        unfolding k_def cs(3) using mask_takeWhile [OF cs(1) non_ws_bit [OF cs(1)] False] by auto
      define sm where "sm = ?nl AND (2 ^ k - 1)"
      have "bit sm j \<longleftrightarrow> j < length (take k cs) \<and> take k cs ! j = NL" for j
        using k cs(1) nl_bit [OF cs(1), of j] lanes
        by (auto simp: sm_def bit_and_iff mask_eq_exp_minus_1 [symmetric] bit_mask_iff)
      then have "ones32 sm = count_list (take k cs) NL" "last_bit i sm l = last_nl_in i (take k cs) l"
        using ones32_count [of "take k cs" sm NL] last_bit_last_nl [of "take k cs" sm i l] cs(1) lanes k
        by auto
      then show ?thesis using k False lanes True cs
        by (simp add: vec_skip_loop.simps [of lanes _ _ _ i] Let_def k_def [symmetric] sm_def [symmetric])
    qed
  qed
qed

lemma skip_whitespace_eq:
  "vec_skip_loop lanes non_ws nl_mask bytes 0 0 None = scalar_skip_whitespace bytes"
  by (simp add: skip_loop_spec scalar_skip_whitespace_spec)

lemma scan_loop_spec:
  "i \<le> length bytes \<Longrightarrow>
   vec_scan_loop u lanes non_ident bytes i =
     i + length (takeWhile (\<lambda>b. ascii_ident (cp b)) (drop i bytes))"
proof (induction "length bytes - i" arbitrary: i rule: less_induct)
  case less
  show ?case
  proof (cases "i + lanes \<le> length bytes")
    case False
    then show ?thesis
      by (simp add: vec_scan_loop.simps [of u lanes _ _ i] scalar_scan_identifier_spec)
  next
    case True
    obtain cs where cs: "length cs = lanes" "load lanes bytes i = map of_char cs"
      "drop i bytes = cs @ drop (i + lanes) bytes" by (rule chunk_split [OF True])
    let ?m = "non_ident (map of_char cs)"
    show ?thesis
    proof (cases "?m = 0")
      case z: True
      show ?thesis
        using mask_zero [OF cs(1) non_ident_bit [OF cs(1)] z] less(1) [of "i + lanes"] True lanes z cs
        by (simp add: vec_scan_loop.simps [of u lanes _ _ i] Let_def)
    next
      case False
      show ?thesis
        using mask_takeWhile [OF cs(1) non_ident_bit [OF cs(1)] False] True lanes False cs
        by (simp add: vec_scan_loop.simps [of u lanes _ _ i] Let_def)
    qed
  qed
qed

lemma scan_identifier_eq: "vec_scan_loop u lanes non_ident bytes 0 = scalar_scan_identifier u bytes"
  by (simp add: scan_loop_spec scalar_scan_identifier_spec)

end

section \<open>The instruction sets keep the promise\<close>

lemma map2_set1: "map2 f v (set1 v b) = map (\<lambda>x. f x b) v" "map2 f (set1 v b) v = map (\<lambda>x. f b x) v"
  unfolding set1_def by (induction v) simp_all

lemma map2_map: "map2 f (map g v) (map h v) = map (\<lambda>x. f (g x) (h x)) v"
  by (induction v) simp_all

lemma lane_mask_or [simp]: "lane_mask p OR lane_mask q = lane_mask (p \<or> q)"
  and lane_mask_and [simp]: "lane_mask p AND lane_mask q = lane_mask (p \<and> q)"
  and lane_mask_bit [simp]: "bit (lane_mask p) n \<longleftrightarrow> p \<and> n < 8"
  by (auto simp: lane_mask_def)

lemmas lane_simps = cmpeq_def cmpgt_def cmpge_def cmple_def vec_or_def vec_and_def map2_set1 map2_map

lemma unat_of_char_u8 [simp]: "unat (of_char b :: u8) = cp b"
proof -
  have "(of_char b :: u8) = of_nat (of_char b)" by (simp only: of_nat_of_char)
  then show ?thesis by (simp add: unat_of_nat)
qed

lemma of_char_u8_eq [simp]: "(of_char a :: u8) = of_char b \<longleftrightarrow> a = b"
  by (metis unat_of_char_u8 of_char_eq_iff)

lemma signed_mod: "0 \<le> x \<Longrightarrow> x < 256 \<Longrightarrow> (x + 128) mod 256 - 128 = (if x < 128 then x else x - 256)"
  for x :: int
proof -
  assume x: "0 \<le> x" "x < 256"
  have "(x + 128) mod 256 = (if x < 128 then x + 128 else x - 128)"
  proof (cases "x < 128")
    case False
    have "(x + 128) mod 256 = ((x - 128) + 256) mod 256" by (rule arg_cong [where f = "\<lambda>y. y mod 256"]) simp
    also have "\<dots> = (x - 128) mod 256" by (rule mod_add_self2)
    also have "\<dots> = x - 128" using x False by (intro mod_pos_pos_trivial) simp_all
    finally show ?thesis using False by simp
  qed (use x in simp)
  then show ?thesis by simp
qed

lemma sint_of_char_u8: "sint (of_char b :: u8) = (if int (cp b) < 128 then int (cp b) else int (cp b) - 256)"
proof -
  have u: "uint (of_char b :: u8) = int (cp b)" by (metis unat_of_char_u8 of_nat_unat)
  have "sint (of_char b :: u8) = (int (cp b) + 128) mod 256 - 128"
    by (simp add: sint_uint u signed_take_bit_eq_take_bit_shift take_bit_eq_mod)
  then show ?thesis using signed_mod [of "int (cp b)"] cp_less_256 [of b] by linarith
qed

lemma sint_between:
  assumes "0 \<le> l" and "h \<le> 128"
  shows "l < sint (of_char b :: u8) \<and> sint (of_char b :: u8) < h \<longleftrightarrow> l < int (cp b) \<and> int (cp b) < h"
proof -
  have "int (cp b) < 256" using cp_less_256 [of b] by linarith
  then show ?thesis unfolding sint_of_char_u8 using assms
    by (cases "int (cp b) < 128") (simp_all only: if_True if_False, linarith+)
qed

lemma cmpeq_lanes:
  "cmpeq (map of_char cs) (set1 (map of_char cs) (of_char c)) = map (\<lambda>b. lane_mask (b = c)) cs"
  unfolding cmpeq_def map2_set1 by (simp del: of_char_Char)

lemma ws_lanes_eq: "ws_lanes (map of_char cs) = map (\<lambda>b. lane_mask (is_ws b)) cs"
  unfolding ws_lanes_def cmpeq_lanes vec_or_def map2_map lane_mask_or is_ws_def
  by (simp add: disj_assoc)

lemma nl_lanes_eq: "nl_lanes (map of_char cs) = map (\<lambda>b. lane_mask (b = NL)) cs"
  unfolding nl_lanes_def cmpeq_lanes ..

lemma x86_range_eq:
  "x86_range CHR ''a'' CHR ''z'' (map of_char cs) =
     map (\<lambda>b. lane_mask (in_range CHR ''a'' CHR ''z'' (cp b))) cs"
  "x86_range CHR ''A'' CHR ''Z'' (map of_char cs) =
     map (\<lambda>b. lane_mask (in_range CHR ''A'' CHR ''Z'' (cp b))) cs"
  "x86_range CHR ''0'' CHR ''9'' (map of_char cs) =
     map (\<lambda>b. lane_mask (in_range CHR ''0'' CHR ''9'' (cp b))) cs"
  by (auto simp: x86_range_def lane_simps comp_def in_range_def sint_between
      intro!: arg_cong [where f = lane_mask])

lemma neon_range_eq:
  "neon_range lo hi (map of_char cs) = map (\<lambda>b. lane_mask (in_range lo hi (cp b))) cs"
  by (simp add: neon_range_def lane_simps comp_def in_range_def word_le_nat_alt)

lemma ident_lanes_eq:
  "ident_lanes x86_range (map of_char cs) = map (\<lambda>b. lane_mask (ascii_ident (cp b))) cs"
  "ident_lanes neon_range (map of_char cs) = map (\<lambda>b. lane_mask (ascii_ident (cp b))) cs"
  unfolding ident_lanes_def x86_range_eq neon_range_eq cmpeq_lanes vec_or_def map2_map lane_mask_or
    ascii_ident_def is_ascii_alphanumeric_def is_ascii_digit_def is_ascii_uppercase_def of_char_eq_iff
  by (auto intro!: arg_cong [where f = lane_mask])

lemma movemask_bit:
  "length cs \<le> 32 \<Longrightarrow>
   bit (movemask (map (\<lambda>b. lane_mask (P b)) cs)) j \<longleftrightarrow> j < length cs \<and> P (cs ! j)"
  by (auto simp: movemask_def comp_def bit_horner_sum_bit_word_iff)

lemma list16: "length xs = 16 \<Longrightarrow> \<exists>a b c d e f g h i j k l m n p q.
    xs = [a, b, c, d, e, f, g, h, i, j, k, l, m, n, p, q]"
  by (auto simp: numeral_eq_Suc length_Suc_conv)

lemma lane_mask_and_weight: "unat (lane_mask p AND w) = unat w * of_bool p"
  by (simp add: lane_mask_def)

lemma neon_movemask_horner:
  assumes "length bs = 16"
  shows "neon_movemask (map lane_mask bs) = horner_sum of_bool 2 bs"
proof -
  obtain a b c d e f g h i j k l m n p q where
    bs: "bs = [a, b, c, d, e, f, g, h, i, j, k, l, m, n, p, q]"
    using list16 [OF assms] by blast
  define los his where "los = [a, b, c, d, e, f, g, h]" and "his = [i, j, k, l, m, n, p, q]"
  define v64 where "v64 = vpaddl (vpaddl (vpaddl (map unat (vec_and (map lane_mask bs) neon_weights))))"
  have v64: "v64 = [of_bool a + 2 * of_bool b + 4 * of_bool c + 8 * of_bool d + 16 * of_bool e
      + 32 * of_bool f + 64 * of_bool g + 128 * of_bool h,
      of_bool i + 2 * of_bool j + 4 * of_bool k + 8 * of_bool l + 16 * of_bool m
      + 32 * of_bool n + 64 * of_bool p + 128 * of_bool q]"
    by (simp add: v64_def bs vec_and_def neon_weights_def lane_mask_and_weight del: unsigned_and_eq)
  have low: "(of_nat (v64 ! 0) :: u64) = horner_sum of_bool 2 los"
    by (simp add: v64 los_def distrib_left)
  have high: "(of_nat (v64 ! 1) :: u64) = horner_sum of_bool 2 his"
    by (simp add: v64 his_def distrib_left)
  have split: "bs = los @ his" "length los = 8" "length his = 8"
    by (simp_all add: bs los_def his_def)
  have "bit (ucast (horner_sum of_bool 2 los OR push_bit 8 (horner_sum of_bool 2 his :: u64)) :: u16) r
      \<longleftrightarrow> r < 16 \<and> bs ! r" for r
    using split by (auto simp: bit_ucast_iff bit_or_iff bit_push_bit_iff bit_horner_sum_bit_word_iff nth_append)
  then show ?thesis
    unfolding neon_movemask_def Let_def v64_def [symmetric] low high
    by (intro bit_word_eqI) (simp add: bit_horner_sum_bit_word_iff assms)
qed

lemma neon_movemask_bit:
  assumes "length cs = 16"
  shows "bit (ucast (neon_movemask (map (\<lambda>b. lane_mask (P b)) cs)) :: u32) j \<longleftrightarrow> j < 16 \<and> P (cs ! j)"
  using neon_movemask_horner [of "map P cs"] assms
  by (auto simp: comp_def bit_ucast_iff bit_horner_sum_bit_word_iff)

lemma bit_low16: "bit (0xFFFF :: int) j \<longleftrightarrow> j < 16"
proof -
  have "(0xFFFF :: int) = mask 16" by (simp add: mask_eq_exp_minus_1)
  then have "bit (0xFFFF :: int) j \<longleftrightarrow> bit (mask 16 :: int) j" by (rule arg_cong)
  then show ?thesis by (simp only: bit_mask_iff possible_bit_int) simp
qed

lemmas mask_bits = bit_and_iff bit_not_iff bit_low16 ws_lanes_eq nl_lanes_eq ident_lanes_eq
  movemask_bit neon_movemask_bit

interpretation sse2: vector_scan 16
  "\<lambda>chunk. NOT (movemask (ws_lanes chunk)) AND 0xFFFF" "\<lambda>chunk. movemask (nl_lanes chunk)"
  "\<lambda>chunk. NOT (movemask (ident_lanes x86_range chunk)) AND 0xFFFF"
  by unfold_locales (auto simp: mask_bits)

interpretation avx2: vector_scan 32
  "\<lambda>chunk. NOT (movemask (ws_lanes chunk))" "\<lambda>chunk. movemask (nl_lanes chunk)"
  "\<lambda>chunk. NOT (movemask (ident_lanes x86_range chunk))"
  by unfold_locales (auto simp: mask_bits)

interpretation neon: vector_scan 16
  "\<lambda>chunk. NOT (ucast (neon_movemask (ws_lanes chunk))) AND 0xFFFF"
  "\<lambda>chunk. ucast (neon_movemask (nl_lanes chunk))"
  "\<lambda>chunk. NOT (ucast (neon_movemask (ident_lanes neon_range chunk))) AND 0xFFFF"
  by unfold_locales (auto simp: mask_bits)

lemma backend_skip_whitespace_scalar:
  "backend_skip_whitespace k bytes = scalar_skip_whitespace bytes"
  by (cases k) (simp_all add: backend_skip_whitespace_def sse2_skip_whitespace_def
      avx2_skip_whitespace_def neon_skip_whitespace_def sse2.skip_whitespace_eq
      avx2.skip_whitespace_eq neon.skip_whitespace_eq)

lemma backend_scan_identifier_scalar:
  "backend_scan_identifier k u bytes = scalar_scan_identifier u bytes"
  by (cases k) (simp_all add: backend_scan_identifier_def sse2_scan_identifier_def
      avx2_scan_identifier_def neon_scan_identifier_def sse2.scan_identifier_eq
      avx2.scan_identifier_eq neon.scan_identifier_eq)

text \<open>
  C4: Whatever vector instructions the processor offers, the scanners give the result of the scalar
  code: the number of newlines, the number of bytes and the position of the last newline of the
  leading white space, and the length of the leading run of ASCII identifier bytes. The vector code
  for SSE2, AVX2 and Neon is thereby equal to the plain loop on every input.
\<close>

theorem simd_equals_scalar:
  "backend_skip_whitespace (detect t) bytes = scalar_skip_whitespace bytes \<and>
   backend_scan_identifier (detect t) u bytes = scalar_scan_identifier u bytes \<and>
   scalar_skip_whitespace bytes =
     (let ws = takeWhile is_ws bytes in (count_list ws NL, length ws, last_nl_in 0 ws None)) \<and>
   scalar_scan_identifier u bytes = length (takeWhile (\<lambda>b. ascii_ident (cp b)) bytes)"
  by (intro conjI backend_skip_whitespace_scalar backend_scan_identifier_scalar
      scalar_skip_whitespace_spec scalar_scan_identifier_spec)

end
