(* ===== verification/Lexer.thy ===== *)
theory Lexer
  imports Scan
begin

text \<open>
  The Arandu lexer (\<open>arandu_lexer/src/lexer.rs\<close> and \<open>arandu_lexer/src/lexer/\<close>): the lexer state, its
  cursor operations, automatic semicolon insertion, comments, numbers, strings with interpolation,
  characters and byte literals, the recovering driver and the public entry points.

  A method of \<open>Lexer\<close> is a function from the lexer state to an outcome and the next state. An outcome
  is a value, an error (\<open>Err\<close>, handed on by \<open>?\<close>), a panic (a failed assertion or an operation out of
  range), or \<open>Diverge\<close>, when a loop or the recursion between strings and interpolations has used up its
  fuel. The loops get as much fuel as there are bytes left, the recursion four times as much; that
  neither ever runs out is part of the theorems of \<open>LexerSafe\<close>.
\<close>

section \<open>Outcomes\<close>

record lexer =
  source :: string
  pos :: nat
  line :: nat
  col :: nat
  tokens :: "token list"
  prev_significant :: "token_kind option"
  diagnostics :: "lex_error list"
  backend :: simd_backend_kind

datatype 'a outcome = Done 'a | Fail lex_error | Panic | Diverge

type_synonym 'a lx = "lexer \<Rightarrow> 'a outcome \<times> lexer"

definition ret :: "'a \<Rightarrow> 'a lx" where
  "ret x s = (Done x, s)"

definition fail :: "lex_error \<Rightarrow> 'a lx" where
  "fail e s = (Fail e, s)"

definition panic :: "'a lx" where
  "panic s = (Panic, s)"

definition diverge :: "'a lx" where
  "diverge s = (Diverge, s)"

definition get :: "(lexer \<Rightarrow> 'a) \<Rightarrow> 'a lx" where
  "get f s = (Done (f s), s)"

definition modify :: "(lexer \<Rightarrow> lexer) \<Rightarrow> unit lx" where
  "modify f s = (Done (), f s)"

text \<open>Sequencing, which hands errors on (\<open>?\<close>), and recovery from an error.\<close>

definition andthen :: "'a lx \<Rightarrow> ('a \<Rightarrow> 'b lx) \<Rightarrow> 'b lx" where
  "andthen m f s =
    (case m s of
       (Done x, s') \<Rightarrow> f x s'
     | (Fail e, s') \<Rightarrow> (Fail e, s')
     | (Panic, s') \<Rightarrow> (Panic, s')
     | (Diverge, s') \<Rightarrow> (Diverge, s'))"

definition catch :: "'a lx \<Rightarrow> (lex_error \<Rightarrow> 'a lx) \<Rightarrow> 'a lx" where
  "catch m h s = (case m s of (Fail e, s') \<Rightarrow> h e s' | r \<Rightarrow> r)"

text \<open>A condition whose failure is a panic, and the value of an operation that may panic.\<close>

definition assert :: "bool \<Rightarrow> unit lx" where
  "assert b = (if b then ret () else panic)"

definition unwrap :: "'a option \<Rightarrow> 'a lx" where
  "unwrap v = (case v of Some x \<Rightarrow> ret x | None \<Rightarrow> panic)"

text \<open>Loops: the body says whether to go on, with new local variables, or to leave with a result.\<close>

datatype ('a, 'b) loop = Continue 'a | Break 'b

primrec iterate :: "nat \<Rightarrow> ('a \<Rightarrow> ('a, 'b) loop lx) \<Rightarrow> 'a \<Rightarrow> 'b lx" where
  "iterate 0 body a = diverge"
| "iterate (Suc n) body a =
    andthen (body a) (\<lambda>r. case r of Continue a' \<Rightarrow> iterate n body a' | Break b \<Rightarrow> ret b)"

definition loop :: "('a \<Rightarrow> ('a, 'b) loop lx) \<Rightarrow> 'a \<Rightarrow> 'b lx" where
  "loop body a s = iterate (Suc (length (source s) - pos s)) body a s"

text \<open>A \<open>while\<close> loop with no local variables.\<close>

definition while_lx :: "bool lx \<Rightarrow> unit lx \<Rightarrow> unit lx" where
  "while_lx cond body =
    loop (\<lambda>_. andthen cond (\<lambda>c. if c then andthen body (\<lambda>_. ret (Continue ())) else ret (Break ()))) ()"

section \<open>The cursor\<close>

definition source_exceeds_span_limit :: "nat \<Rightarrow> bool" where
  "source_exceeds_span_limit n \<longleftrightarrow> n > u32_max"

definition lexer_new :: "simd_backend_kind \<Rightarrow> string \<Rightarrow> lexer" where
  "lexer_new k src =
    \<lparr>source = src, pos = 0, line = 1, col = 1, tokens = [], prev_significant = None,
     diagnostics = [], backend = k\<rparr>"

definition is_at_end :: "lexer \<Rightarrow> bool" where
  "is_at_end s \<longleftrightarrow> length (source s) \<le> pos s"

definition peek :: "lexer \<Rightarrow> code_point option" where
  "peek s =
    (if pos s < length (source s) then
       let b = source s ! pos s in
       if cp b < 128 then Some (cp b)
       else if is_char_boundary (source s) (pos s) then next_char (drop (pos s) (source s))
       else None
     else None)"

text \<open>\<open>&source[i..]\<close> on the string, which panics off a character boundary, and on its bytes.\<close>

definition str_from :: "nat \<Rightarrow> string lx" where
  "str_from i s = (if is_char_boundary (source s) i then (Done (drop i (source s)), s) else (Panic, s))"

definition bytes_from :: "string lx" where
  "bytes_from s =
    (if pos s \<le> length (source s) then (Done (drop (pos s) (source s)), s) else (Panic, s))"

definition peek_next :: "code_point option lx" where
  "peek_next =
    andthen (get source) (\<lambda>src. andthen (get pos) (\<lambda>p.
      if p + 1 < length src \<and> cp (src ! p) < 128 \<and> cp (src ! (p + 1)) < 128
      then ret (Some (cp (src ! (p + 1))))
      else andthen (str_from p) (\<lambda>rest.
        case next_char rest of
          None \<Rightarrow> ret None
        | Some c \<Rightarrow> ret (next_char (drop (len_utf8 c) rest)))))"

definition starts_with :: "string \<Rightarrow> bool lx" where
  "starts_with p = andthen bytes_from (\<lambda>rest. ret (prefix p rest))"

definition bump :: "code_point option lx" where
  "bump s =
    (case peek s of
       None \<Rightarrow> (Done None, s)
     | Some ch \<Rightarrow>
         (Done (Some ch),
          if ch = cp NL then s\<lparr>pos := pos s + len_utf8 ch, line := line s + 1, col := 1\<rparr>
          else s\<lparr>pos := pos s + len_utf8 ch, col := col s + 1\<rparr>))"

text \<open>\<open>bump_ascii\<close> asserts that it passes over ASCII bytes without a newline.\<close>

definition bump_ascii :: "nat \<Rightarrow> unit lx" where
  "bump_ascii n s =
    (if pos s + n \<le> length (source s) \<and>
        list_all (\<lambda>b. is_ascii b \<and> b \<noteq> NL) (slice (source s) (pos s) (pos s + n))
     then (Done (), s\<lparr>pos := pos s + n, col := col s + n\<rparr>)
     else (Panic, s))"

definition mark :: "nat lx" where
  "mark = get pos"

definition slice_from :: "nat \<Rightarrow> string lx" where
  "slice_from i = andthen (get (\<lambda>s. str_get (source s) i (pos s))) unwrap"

definition current_span :: "span lx" where
  "current_span s =
    (if source_exceeds_span_limit (pos s) then (Panic, s)
     else (Done (span_new 0 (of_nat (pos s)) (of_nat (pos s))), s))"

definition span_from :: "nat \<Rightarrow> span lx" where
  "span_from i s =
    (if source_exceeds_span_limit (max i (pos s)) then (Panic, s)
     else (Done (span_new 0 (of_nat i) (of_nat (pos s))), s))"

text \<open>\<open>return Err(self.error_from(..))\<close>.\<close>

definition error_from :: "nat \<Rightarrow> lex_error_code \<Rightarrow> string \<Rightarrow> 'a lx" where
  "error_from i c msg = andthen (span_from i) (\<lambda>sp. fail (lex_error_new c msg sp))"

text \<open>The length of a token is a subtraction of \<open>u32\<close>, which panics below zero.\<close>

definition push_token :: "token_kind \<Rightarrow> span \<Rightarrow> bool \<Rightarrow> unit lx" where
  "push_token k sp ins s =
    (if span_end sp < span_start sp then (Panic, s)
     else (Done (),
       s\<lparr>prev_significant := (if k = Lit DocComment then prev_significant s else Some k),
         tokens := tokens s @ [\<lparr>tok_start = span_start sp, tok_len = span_end sp - span_start sp,
                                tok_kind = k, inserted = ins\<rparr>]\<rparr>))"

text \<open>\<open>self.push_token(kind, self.span_from(start), false)\<close>.\<close>

definition push_from :: "token_kind \<Rightarrow> nat \<Rightarrow> unit lx" where
  "push_from k i = andthen (span_from i) (\<lambda>sp. push_token k sp False)"

section \<open>Automatic semicolon insertion\<close>

text \<open>The comment skipping of \<open>peek_next_significant_kind\<close>, on byte indices.\<close>

function line_end :: "string \<Rightarrow> nat \<Rightarrow> nat" where
  "line_end bytes i =
    (if i < length bytes \<and> bytes ! i \<noteq> NL \<and> bytes ! i \<noteq> CR then line_end bytes (i + 1) else i)"
  by pat_completeness auto
termination by (relation "measure (\<lambda>(bytes, i). length bytes - i)") auto

function block_end :: "string \<Rightarrow> nat \<Rightarrow> nat \<Rightarrow> nat" where
  "block_end bytes i depth =
    (if i + 1 < length bytes \<and> depth > 0 then
       if bytes ! i = CHR ''/'' \<and> bytes ! (i + 1) = CHR ''*''
       then block_end bytes (i + 2) (depth + 1)
       else if bytes ! i = CHR ''*'' \<and> bytes ! (i + 1) = CHR ''/''
       then block_end bytes (i + 2) (depth - 1)
       else block_end bytes (i + 1) depth
     else i)"
  by pat_completeness auto
termination by (relation "measure (\<lambda>(bytes, i, d). length bytes - i)") auto

declare line_end.simps [simp del] block_end.simps [simp del]

lemma line_end_ge: "i \<le> line_end bytes i"
  by (induction bytes i rule: line_end.induct) (subst line_end.simps, auto)

lemma block_end_ge: "i \<le> block_end bytes i d"
  by (induction bytes i d rule: block_end.induct) (subst block_end.simps, auto)

function next_significant :: "string \<Rightarrow> nat \<Rightarrow> nat option" where
  "next_significant bytes i =
    (if i < length bytes then
       if bytes ! i = CHR '' '' \<or> bytes ! i = TAB \<or> bytes ! i = NL \<or> bytes ! i = CR
       then next_significant bytes (i + 1)
       else if i + 1 < length bytes \<and> bytes ! i = CHR ''/'' \<and> bytes ! (i + 1) = CHR ''/''
       then next_significant bytes (line_end bytes i)
       else if i + 1 < length bytes \<and> bytes ! i = CHR ''/'' \<and> bytes ! (i + 1) = CHR ''*''
       then next_significant bytes (block_end bytes (i + 2) 1)
       else Some i
     else None)"
  by pat_completeness auto
termination
proof (relation "measure (\<lambda>(bytes, i). length bytes - i)", goal_cases)
  case (3 bytes i)
  then have "line_end bytes i = line_end bytes (i + 1)" by (simp add: line_end.simps [of bytes i])
  moreover have "i < line_end bytes (i + 1)" using line_end_ge [of "i + 1" bytes] by simp
  ultimately show ?case using 3 by (simp add: diff_less_mono2)
next
  case (4 bytes i)
  moreover have "i < block_end bytes (i + 2) 1" using block_end_ge [of "i + 2" bytes 1] by simp
  ultimately show ?case by (simp add: diff_less_mono2)
qed auto

declare next_significant.simps [simp del]

definition peek_next_significant_kind :: "unicode_ident \<Rightarrow> lexer \<Rightarrow> token_kind option" where
  "peek_next_significant_kind u s =
    (let bytes = source s in
     case next_significant bytes (pos s) of
       None \<Rightarrow> Some Eof
     | Some i \<Rightarrow>
         let valid_i = (case find (is_char_boundary bytes) [i..<Suc (length bytes)] of
                          Some j \<Rightarrow> j | None \<Rightarrow> length bytes)
         in Some (peek_kind_from u (drop valid_i bytes)))"

text \<open>\<open>self.prev_significant.is_some_and(TokenKind::can_end_statement)\<close>.\<close>

definition can_insert :: "bool lx" where
  "can_insert =
    andthen (get prev_significant) (\<lambda>p.
      case p of None \<Rightarrow> ret False | Some k \<Rightarrow> unwrap (can_end_statement k))"

definition maybe_insert_semicolon_at :: "unicode_ident \<Rightarrow> span \<Rightarrow> bool \<Rightarrow> unit lx" where
  "maybe_insert_semicolon_at u sp interpolation_boundary =
    andthen can_insert (\<lambda>can.
      if \<not> can then ret ()
      else andthen (get (peek_next_significant_kind u)) (\<lambda>next.
        andthen (case next of
                   None \<Rightarrow> ret False
                 | Some kind \<Rightarrow> andthen (unwrap (prevents_semicolon_before kind)) (\<lambda>p.
                     ret (p \<or> interpolation_boundary \<and> kind = Pn RBrace)))
          (\<lambda>prevented. if prevented then ret () else push_token (Pn Semicolon) sp True)))"

definition insert_semicolon_if_needed :: "unit lx" where
  "insert_semicolon_if_needed =
    andthen can_insert (\<lambda>can.
      if can then andthen current_span (\<lambda>sp. push_token (Pn Semicolon) sp True) else ret ())"

definition position_of :: "char \<Rightarrow> string \<Rightarrow> nat option" where
  "position_of c bs = find (\<lambda>i. bs ! i = c) [0..<length bs]"

definition skip_whitespace :: "unicode_ident \<Rightarrow> bool \<Rightarrow> unit lx" where
  "skip_whitespace u interpolation_boundary =
    andthen bytes_from (\<lambda>rest. andthen (get backend) (\<lambda>k.
      case backend_skip_whitespace k rest of
        (newlines, skipped, last_nl) \<Rightarrow>
          if skipped = 0 then ret ()
          else if newlines > 0 then
            (let offset = (case position_of NL (take skipped rest) of Some i \<Rightarrow> i | None \<Rightarrow> 0);
                 offset = (if offset > 0 \<and> rest ! (offset - 1) = CR then offset - 1 else offset)
             in andthen (get (\<lambda>s. span_new 0 (of_nat (pos s + offset)) (of_nat (pos s + offset)))) (\<lambda>sp.
                andthen (modify (\<lambda>s. s\<lparr>pos := pos s + skipped, line := line s + newlines,
                                      col := (case last_nl of Some i \<Rightarrow> skipped - i
                                                            | None \<Rightarrow> col s + skipped)\<rparr>)) (\<lambda>_.
                maybe_insert_semicolon_at u sp interpolation_boundary)))
          else modify (\<lambda>s. s\<lparr>pos := pos s + skipped, col := col s + skipped\<rparr>)))"

section \<open>Identifiers and operators\<close>

definition lex_ident_or_keyword :: "unicode_ident \<Rightarrow> unit lx" where
  "lex_ident_or_keyword u =
    andthen mark (\<lambda>start. andthen bump (\<lambda>_.
    andthen bytes_from (\<lambda>rest. andthen (get backend) (\<lambda>k.
    let n = backend_scan_identifier k u rest in
    andthen (modify (\<lambda>s. s\<lparr>pos := pos s + n, col := col s + n\<rparr>)) (\<lambda>_.
    andthen (while_lx (get (\<lambda>s. case peek s of Some ch \<Rightarrow> is_ident_continue u ch | None \<Rightarrow> False))
                      (andthen bump (\<lambda>_. ret ()))) (\<lambda>_.
    andthen (slice_from start) (\<lambda>text.
    let kind = (case keyword_kind text of
                  Some kind \<Rightarrow> kind
                | None \<Rightarrow> if text \<noteq> [] \<and> is_ascii_uppercase (cp (hd text))
                          then Lit IdentType else Lit IdentValue)
    in push_from kind start)))))))"

definition lex_operator_or_punctuation :: "unit lx" where
  "lex_operator_or_punctuation =
    andthen mark (\<lambda>start. andthen bytes_from (\<lambda>rest.
      case token_kind_from_prefix rest of
        None \<Rightarrow> andthen (get is_at_end) (\<lambda>e.
          if e then ret ()
          else andthen bump (\<lambda>_. error_from start InvalidChar ''invalid character''))
      | Some (kind, n) \<Rightarrow> andthen (bump_ascii n) (\<lambda>_. push_from kind start)))"

section \<open>Comments\<close>

definition bidi_message :: string where
  "bidi_message = ''unescaped bidirectional Unicode control character (Trojan Source, CWE-1307)''"

text \<open>The check for a bidirectional control that comments and all literals make before they go on.\<close>

definition reject_bidi :: "unit lx" where
  "reject_bidi =
    andthen (get peek) (\<lambda>c.
      if (case c of Some ch \<Rightarrow> is_bidi_control ch | None \<Rightarrow> False)
      then andthen mark (\<lambda>err_start. andthen bump (\<lambda>_.
             error_from err_start BidiTrojanSource bidi_message))
      else ret ())"

definition at_line_end :: "lexer \<Rightarrow> bool" where
  "at_line_end s \<longleftrightarrow> peek s = Some (cp NL) \<or> peek s = Some (cp CR)"

definition skip_line_comment :: "unit lx" where
  "skip_line_comment =
    while_lx (get (\<lambda>s. \<not> is_at_end s \<and> \<not> at_line_end s))
      (andthen reject_bidi (\<lambda>_. andthen bump (\<lambda>_. ret ())))"

definition lex_line_doc_comment :: "unit lx" where
  "lex_line_doc_comment =
    andthen mark (\<lambda>start. andthen skip_line_comment (\<lambda>_. push_from (Lit DocComment) start))"

text \<open>The nesting loop of both kinds of block comments; it leaves with the final depth.\<close>

definition block_comment_loop :: "nat lx" where
  "block_comment_loop =
    loop (\<lambda>depth.
      andthen (get is_at_end) (\<lambda>e.
      if e \<or> depth = 0 then ret (Break depth)
      else andthen reject_bidi (\<lambda>_.
        andthen (starts_with ''/*'') (\<lambda>open.
        if open then andthen (bump_ascii 2) (\<lambda>_. ret (Continue (depth + 1)))
        else andthen (starts_with ''*/'') (\<lambda>close.
          if close then andthen (bump_ascii 2) (\<lambda>_. ret (Continue (depth - 1)))
          else andthen bump (\<lambda>_. ret (Continue depth))))))) 1"

definition lex_block_doc_comment :: "unit lx" where
  "lex_block_doc_comment =
    andthen mark (\<lambda>start. andthen (bump_ascii 3) (\<lambda>_. andthen block_comment_loop (\<lambda>depth.
      if depth > 0 then error_from start UnterminatedBlockComment ''unterminated doc block comment''
      else push_from (Lit DocComment) start)))"

definition skip_block_comment :: "unit lx" where
  "skip_block_comment =
    andthen mark (\<lambda>start. andthen (bump_ascii 2) (\<lambda>_. andthen block_comment_loop (\<lambda>depth.
      if depth > 0 then error_from start UnterminatedBlockComment ''unterminated block comment''
      else ret ())))"

section \<open>Numbers\<close>

datatype radix = Bin | Oct | Hex

definition is_valid_digit :: "radix \<Rightarrow> code_point \<Rightarrow> bool" where
  "is_valid_digit r ch =
    (case r of
       Bin \<Rightarrow> ch = cp CHR ''0'' \<or> ch = cp CHR ''1'' \<or> ch = cp CHR ''_''
     | Oct \<Rightarrow> in_range CHR ''0'' CHR ''7'' ch \<or> ch = cp CHR ''_''
     | Hex \<Rightarrow> is_ascii_hexdigit ch \<or> ch = cp CHR ''_'')"

definition radix_token_kind :: "radix \<Rightarrow> token_kind" where
  "radix_token_kind r = (case r of Bin \<Rightarrow> Lit IntBin | Oct \<Rightarrow> Lit IntOct | Hex \<Rightarrow> Lit IntHex)"

definition invalid_digit_code :: "radix \<Rightarrow> lex_error_code" where
  "invalid_digit_code r =
    (case r of Bin \<Rightarrow> InvalidBinaryDigit | Oct \<Rightarrow> InvalidOctalDigit | Hex \<Rightarrow> InvalidHexDigit)"

definition peek_is :: "(code_point \<Rightarrow> bool) \<Rightarrow> lexer \<Rightarrow> bool" where
  "peek_is P s = (case peek s of Some ch \<Rightarrow> P ch | None \<Rightarrow> False)"

definition contains :: "string \<Rightarrow> string \<Rightarrow> bool" where
  "contains p s = list_ex (prefix p) (suffixes s)"

definition bump_digits_or_underscores :: "unit lx" where
  "bump_digits_or_underscores =
    while_lx (get (peek_is (\<lambda>ch. is_digit ch \<or> ch = cp CHR ''_''))) (andthen bump (\<lambda>_. ret ()))"

text \<open>The checks on the digits that both kinds of numbers share.\<close>

definition check_underscores :: "nat \<Rightarrow> string \<Rightarrow> unit lx" where
  "check_underscores start text =
    (if suffix ''_'' text
     then error_from start InvalidNumericLiteral ''numeric literal cannot end with `_`''
     else if contains ''__'' text
     then error_from start InvalidNumericLiteral
            ''numeric literal cannot contain multiple consecutive underscores''
     else ret ())"

definition check_not_ident :: "unicode_ident \<Rightarrow> nat \<Rightarrow> unit lx" where
  "check_not_ident u start =
    andthen (get (peek_is (is_ident_start u))) (\<lambda>b.
      if b then error_from start InvalidNumericLiteral
                  ''numeric literal cannot be directly followed by an identifier''
      else ret ())"

definition lex_radix_number :: "unicode_ident \<Rightarrow> nat \<Rightarrow> radix \<Rightarrow> unit lx" where
  "lex_radix_number u start r =
    andthen (bump_ascii 2) (\<lambda>_. andthen (get pos) (\<lambda>digit_start.
    andthen (while_lx (get (peek_is (\<lambda>ch. is_ascii_alphanumeric ch \<or> ch = cp CHR ''_'')))
              (andthen (get (peek_is (is_valid_digit r))) (\<lambda>valid.
                if \<not> valid
                then error_from start (invalid_digit_code r) ''invalid digit for numeric literal''
                else andthen bump (\<lambda>_. ret ())))) (\<lambda>_.
    andthen (get pos) (\<lambda>p.
    if p = digit_start
    then error_from start InvalidNumericLiteral ''expected digit after numeric prefix''
    else andthen (slice_from start) (\<lambda>text.
      andthen (check_underscores start text) (\<lambda>_.
      andthen (check_not_ident u start) (\<lambda>_.
      push_from (radix_token_kind r) start)))))))"

text \<open>The fraction and the exponent of a decimal number; each says whether it was there.\<close>

definition lex_fraction :: "nat \<Rightarrow> bool lx" where
  "lex_fraction start =
    andthen (get peek) (\<lambda>c. andthen (if c = Some (cp CHR ''.'') then peek_next else ret None) (\<lambda>d.
      if c = Some (cp CHR ''.'') \<and> d \<noteq> Some (cp CHR ''.'') then
        andthen bump (\<lambda>_. andthen (get (peek_is is_digit)) (\<lambda>digit.
          if \<not> digit
          then error_from start InvalidNumericLiteral ''expected digit after decimal point''
          else andthen bump_digits_or_underscores (\<lambda>_. ret True)))
      else ret False))"

definition lex_exponent :: "nat \<Rightarrow> bool lx" where
  "lex_exponent start =
    andthen (get (peek_is (\<lambda>c. c = cp CHR ''e'' \<or> c = cp CHR ''E''))) (\<lambda>e.
      if e then
        andthen bump (\<lambda>_.
        andthen (get (peek_is (\<lambda>c. c = cp CHR ''+'' \<or> c = cp CHR ''-''))) (\<lambda>sign.
        andthen (if sign then andthen bump (\<lambda>_. ret ()) else ret ()) (\<lambda>_.
        andthen (get (peek_is is_digit)) (\<lambda>digit.
        if \<not> digit
        then error_from start InvalidNumericLiteral ''expected digit in float exponent''
        else andthen bump_digits_or_underscores (\<lambda>_. ret True)))))
      else ret False)"

definition lex_number :: "unicode_ident \<Rightarrow> unit lx" where
  "lex_number u =
    andthen mark (\<lambda>start.
    andthen (starts_with ''0x'') (\<lambda>hex. if hex then lex_radix_number u start Hex else
    andthen (starts_with ''0b'') (\<lambda>bin. if bin then lex_radix_number u start Bin else
    andthen (starts_with ''0o'') (\<lambda>oct. if oct then lex_radix_number u start Oct else
    andthen bump_digits_or_underscores (\<lambda>_.
    andthen (lex_fraction start) (\<lambda>fraction.
    andthen (lex_exponent start) (\<lambda>exponent.
    let is_float = fraction \<or> exponent in
    andthen (slice_from start) (\<lambda>text.
    andthen (check_underscores start text) (\<lambda>_.
    if \<not> is_float \<and> length text > 1 \<and> prefix ''0'' text
    then error_from start LeadingZero ''decimal literals cannot have leading zeroes''
    else andthen (check_not_ident u start) (\<lambda>_.
      push_from (if is_float then Lit Float else Lit IntDec) start))))))))))"

section \<open>Escapes, characters and byte literals\<close>

definition simple_escape :: "code_point \<Rightarrow> bool" where
  "simple_escape c \<longleftrightarrow>
     c \<in> set (map cp [CHR ''n'', CHR ''t'', CHR ''r'', CHR ''0'', BACKSLASH, QUOTE, APOSTROPHE])"

definition bump_hex_digits :: "unit lx" where
  "bump_hex_digits = while_lx (get (peek_is is_ascii_hexdigit)) (andthen bump (\<lambda>_. ret ()))"

text \<open>
  \<open>digits == 0\<close> is asked as whether the position has moved: the loop counts one digit for each byte.
\<close>

definition consume_unicode_escape :: "nat \<Rightarrow> unit lx" where
  "consume_unicode_escape start =
    andthen bump (\<lambda>_. andthen (get peek) (\<lambda>c.
    if c \<noteq> Some (cp CHR ''{'')
    then error_from start InvalidUnicodeEscape ''invalid unicode escape''
    else andthen bump (\<lambda>_. andthen (get pos) (\<lambda>digits_start.
      andthen bump_hex_digits (\<lambda>_. andthen (get pos) (\<lambda>digits_end. andthen (get peek) (\<lambda>c.
      if digits_end = digits_start \<or> c \<noteq> Some (cp CHR ''}'')
      then error_from start InvalidUnicodeEscape ''invalid unicode escape''
      else andthen bump (\<lambda>_. andthen (slice_from start) (\<lambda>code_str.
        andthen (unwrap (str_get code_str 3 (length code_str - 1))) (\<lambda>hex.
        let val = (case from_hex (2 ^ 32) hex of Some v \<Rightarrow> v | None \<Rightarrow> u32_max) in
        if char_from_u32 val = None
        then error_from start InvalidUnicodeEscape
               ''unicode escape must be a valid Unicode scalar value''
        else ret ()))))))))))"

definition consume_escape_sequence :: "nat \<Rightarrow> unit lx" where
  "consume_escape_sequence start =
    andthen bump (\<lambda>_. andthen (get peek) (\<lambda>c.
      case c of
        None \<Rightarrow> error_from start InvalidEscape ''invalid escape sequence''
      | Some ch \<Rightarrow>
          if simple_escape ch \<or> ch = cp CHR ''$'' then andthen bump (\<lambda>_. ret ())
          else if ch = cp CHR ''u'' then consume_unicode_escape start
          else error_from start InvalidEscape ''invalid escape sequence''))"

definition bump_hex_pair :: "nat lx" where
  "bump_hex_pair =
    loop (\<lambda>digits. andthen (get (peek_is is_ascii_hexdigit)) (\<lambda>h.
      if digits < 2 \<and> h then andthen bump (\<lambda>_. ret (Continue (digits + 1)))
      else ret (Break digits))) 0"

definition consume_byte_escape_sequence :: "nat \<Rightarrow> unit lx" where
  "consume_byte_escape_sequence start =
    andthen bump (\<lambda>_. andthen (get peek) (\<lambda>c.
      case c of
        None \<Rightarrow> error_from start InvalidEscape ''invalid escape sequence in byte literal''
      | Some ch \<Rightarrow>
          if simple_escape ch then andthen bump (\<lambda>_. ret ())
          else if ch = cp CHR ''x'' then
            andthen bump (\<lambda>_. andthen bump_hex_pair (\<lambda>digits.
              if digits \<noteq> 2
              then error_from start InvalidEscape
                     ''hex escape in byte literal must have exactly 2 hex digits''
              else ret ()))
          else error_from start InvalidEscape ''invalid escape sequence in byte literal''))"

text \<open>
  Characters and byte characters: the loop counts the characters up to the closing quote. Byte
  literals also reject characters outside ASCII.
\<close>

definition reject_non_ascii :: "string \<Rightarrow> unit lx" where
  "reject_non_ascii msg =
    andthen (get (peek_is (\<lambda>c. \<not> c < 128))) (\<lambda>b.
      if b then andthen mark (\<lambda>err_start. andthen bump (\<lambda>_. error_from err_start InvalidChar msg))
      else ret ())"

definition quoted_loop :: "nat \<Rightarrow> string \<Rightarrow> unit lx \<Rightarrow> nat lx" where
  "quoted_loop start msg reject =
    loop (\<lambda>count.
      andthen (get (\<lambda>s. is_at_end s \<or> peek s = Some (cp APOSTROPHE))) (\<lambda>stop.
      if stop then ret (Break count)
      else andthen (get at_line_end) (\<lambda>nl.
        if nl then error_from start UnterminatedChar msg
        else andthen reject_bidi (\<lambda>_. andthen reject (\<lambda>_.
          andthen bump (\<lambda>_. ret (Continue (count + 1)))))))) 0"

definition lex_char :: "unit lx" where
  "lex_char =
    andthen mark (\<lambda>start. andthen bump (\<lambda>_. andthen (get peek) (\<lambda>c.
    if c = Some (cp APOSTROPHE) then error_from start EmptyChar ''empty char literal''
    else andthen
      (if c = Some (cp BACKSLASH)
       then andthen mark (\<lambda>escape_start. andthen (consume_escape_sequence escape_start) (\<lambda>_. ret 1))
       else quoted_loop start ''unterminated char literal'' (ret ())) (\<lambda>count.
    andthen (get (\<lambda>s. is_at_end s \<or> peek s \<noteq> Some (cp APOSTROPHE))) (\<lambda>open.
    if open then error_from start UnterminatedChar ''unterminated char literal''
    else if count > 1
    then error_from start CharTooLong ''char literal contains more than one codepoint''
    else andthen bump (\<lambda>_. push_from (Lit CharLit) start))))))"

definition lex_byte_char :: "unit lx" where
  "lex_byte_char =
    andthen mark (\<lambda>start. andthen bump (\<lambda>_. andthen bump (\<lambda>_. andthen (get peek) (\<lambda>c.
    if c = Some (cp APOSTROPHE) then error_from start EmptyChar ''empty byte literal''
    else andthen
      (if c = Some (cp BACKSLASH)
       then andthen mark (\<lambda>escape_start.
              andthen (consume_byte_escape_sequence escape_start) (\<lambda>_. ret 1))
       else quoted_loop start ''unterminated byte literal''
              (reject_non_ascii ''byte literal must be ASCII'')) (\<lambda>count.
    andthen (get (\<lambda>s. is_at_end s \<or> peek s \<noteq> Some (cp APOSTROPHE))) (\<lambda>open.
    if open then error_from start UnterminatedChar ''unterminated byte literal''
    else if count > 1
    then error_from start CharTooLong ''byte literal contains more than one byte''
    else andthen bump (\<lambda>_. push_from (Lit ByteChar) start)))))))"

definition lex_byte_string :: "unit lx" where
  "lex_byte_string =
    andthen mark (\<lambda>start. andthen bump (\<lambda>_. andthen bump (\<lambda>_.
    andthen (while_lx (get (\<lambda>s. \<not> is_at_end s \<and> peek s \<noteq> Some (cp QUOTE)))
      (andthen (get at_line_end) (\<lambda>nl.
       if nl then error_from start UnterminatedString ''unterminated byte string literal''
       else andthen reject_bidi (\<lambda>_. andthen (get peek) (\<lambda>c.
         if c = Some (cp BACKSLASH)
         then andthen mark (\<lambda>escape_start. consume_byte_escape_sequence escape_start)
         else andthen (reject_non_ascii ''byte string literal must be ASCII'') (\<lambda>_.
           andthen bump (\<lambda>_. ret ()))))))) (\<lambda>_.
    andthen (get (\<lambda>s. is_at_end s \<or> peek s \<noteq> Some (cp QUOTE))) (\<lambda>open.
    if open then error_from start UnterminatedString ''unterminated byte string literal''
    else andthen bump (\<lambda>_. push_from (Lit ByteString) start))))))"

section \<open>Raw strings\<close>

definition lex_raw_string :: "unit lx" where
  "lex_raw_string =
    andthen mark (\<lambda>start. andthen (bump_ascii 2) (\<lambda>_.
    andthen (while_lx (get (\<lambda>s. \<not> is_at_end s \<and> peek s \<noteq> Some (cp QUOTE)))
      (andthen reject_bidi (\<lambda>_. andthen bump (\<lambda>_. ret ())))) (\<lambda>_.
    andthen (get is_at_end) (\<lambda>e.
    if e then error_from start UnterminatedRawString ''unterminated raw string literal''
    else andthen bump (\<lambda>_. push_from (Lit RawString) start)))))"

definition triple_quote :: string where
  "triple_quote = [QUOTE, QUOTE, QUOTE]"

definition lex_raw_multiline_string :: "unit lx" where
  "lex_raw_multiline_string =
    andthen mark (\<lambda>start. andthen (bump_ascii 4) (\<lambda>_.
    andthen (while_lx (andthen (get is_at_end) (\<lambda>e.
                if e then ret False else andthen (starts_with triple_quote) (\<lambda>q. ret (\<not> q))))
      (andthen reject_bidi (\<lambda>_. andthen bump (\<lambda>_. ret ())))) (\<lambda>_.
    andthen (get is_at_end) (\<lambda>e.
    if e then error_from start UnterminatedRawString ''unterminated raw multiline string literal''
    else andthen (bump_ascii 3) (\<lambda>_. push_from (Lit RawString) start)))))"

section \<open>Strings, interpolation and the next token\<close>

datatype string_terminator = Quote | TripleQuote

definition at_string_terminator :: "string_terminator \<Rightarrow> bool lx" where
  "at_string_terminator t =
    (case t of
       Quote \<Rightarrow> get (\<lambda>s. peek s = Some (cp QUOTE))
     | TripleQuote \<Rightarrow> starts_with triple_quote)"

definition flush_text :: "nat \<Rightarrow> nat \<Rightarrow> unit lx" where
  "flush_text start end_pos =
    (if end_pos \<le> start then ret ()
     else push_token (Lit StringText) (span_new 0 (of_nat start) (of_nat end_pos)) False)"

definition lex_escape :: "unit lx" where
  "lex_escape =
    andthen mark (\<lambda>start. andthen (consume_escape_sequence start) (\<lambda>_.
      push_from (Lit StringEscape) start))"

text \<open>\<open>$name\<close> inside a string: an interpolation with synthetic delimiters.\<close>

definition lex_dollar_ident :: "unicode_ident \<Rightarrow> unit lx" where
  "lex_dollar_ident u =
    andthen mark (\<lambda>dollar_start. andthen (bump_ascii 1) (\<lambda>_.
    andthen (push_from (Lit InterpStart) dollar_start) (\<lambda>_.
    andthen (lex_ident_or_keyword u) (\<lambda>_.
    andthen mark (\<lambda>p. push_from (Lit InterpEnd) p)))))"

text \<open>
  One round of the loop of \<open>lex_string_body\<close>; the lexer for interpolations is an argument.
\<close>

definition string_body_round ::
  "unicode_ident \<Rightarrow> unit lx \<Rightarrow> string_terminator \<Rightarrow> bool \<Rightarrow> lex_error_code \<Rightarrow> nat \<Rightarrow> (nat, nat) loop lx" where
  "string_body_round u interpolation t allow_newline c text_start =
    andthen (get is_at_end) (\<lambda>e. if e then ret (Break text_start) else
    andthen (at_string_terminator t) (\<lambda>q. if q then ret (Break text_start) else
    andthen (get at_line_end) (\<lambda>nl.
    if \<not> allow_newline \<and> nl then error_from text_start c ''unterminated string literal'' else
    andthen reject_bidi (\<lambda>_.
    andthen (starts_with ''${'') (\<lambda>interp.
    if interp then
      andthen (get pos) (\<lambda>p. andthen (flush_text text_start p) (\<lambda>_.
      andthen mark (\<lambda>start. andthen (bump_ascii 2) (\<lambda>_.
      andthen (push_from (Lit InterpStart) start) (\<lambda>_.
      andthen interpolation (\<lambda>_. andthen mark (\<lambda>m. ret (Continue m))))))))
    else andthen (get peek) (\<lambda>c.
    andthen (if c = Some (cp CHR ''$'')
             then andthen (get pos) (\<lambda>p. andthen (str_from (p + 1)) (\<lambda>rest.
                    ret (case next_char rest of Some ch \<Rightarrow> is_ident_start u ch | None \<Rightarrow> False)))
             else ret False) (\<lambda>dollar.
    if dollar then
      andthen (get pos) (\<lambda>p. andthen (flush_text text_start p) (\<lambda>_.
      andthen (lex_dollar_ident u) (\<lambda>_. andthen mark (\<lambda>m. ret (Continue m)))))
    else if c = Some (cp BACKSLASH) then
      andthen (get pos) (\<lambda>p. andthen (flush_text text_start p) (\<lambda>_.
      andthen lex_escape (\<lambda>_. andthen mark (\<lambda>m. ret (Continue m)))))
    else andthen bump (\<lambda>_. ret (Continue text_start)))))))))"

text \<open>
  One round of the loop of \<open>lex_interpolation\<close>; the lexers for strings and for tokens are arguments.
\<close>

definition interpolation_round ::
  "unicode_ident \<Rightarrow> unit lx \<Rightarrow> unit lx \<Rightarrow> nat \<Rightarrow> (nat, unit) loop lx" where
  "interpolation_round u lex_str next_token brace_depth =
    andthen (get is_at_end) (\<lambda>e. if e then ret (Break ()) else
    andthen (get peek) (\<lambda>c.
    if c = Some (cp CHR ''}'') then
      (if brace_depth = 0 then ret (Break ())
       else andthen lex_operator_or_punctuation (\<lambda>_. ret (Continue (brace_depth - 1))))
    else
      andthen (get pos) (\<lambda>prev_pos. andthen (skip_whitespace u (brace_depth = 0)) (\<lambda>_.
      andthen (get pos) (\<lambda>p.
      if p > prev_pos then ret (Continue brace_depth)
      else andthen (starts_with ''//'') (\<lambda>lc.
        if lc then andthen skip_line_comment (\<lambda>_. ret (Continue brace_depth))
        else andthen (starts_with ''/*'') (\<lambda>bc.
        if bc then andthen skip_block_comment (\<lambda>_. ret (Continue brace_depth))
        else andthen (get peek) (\<lambda>c. andthen (starts_with triple_quote) (\<lambda>tq.
        if c = Some (cp QUOTE) \<and> \<not> tq
        then andthen lex_str (\<lambda>_. ret (Continue brace_depth))
        else
          (let brace_depth = (if c = Some (cp CHR ''{'') then brace_depth + 1 else brace_depth)
           in andthen next_token (\<lambda>_. ret (Continue brace_depth))))))))))))"

text \<open>
  The dispatch of \<open>lex_next_token\<close> on the first bytes of the rest; the lexers for the two kinds of
  strings with interpolation are arguments.
\<close>

definition token_dispatch :: "unicode_ident \<Rightarrow> unit lx \<Rightarrow> unit lx \<Rightarrow> string \<Rightarrow> unit lx" where
  "token_dispatch u multiline str rest =
    (if rest = [] then ret ()
     else if prefix ''///'' rest then lex_line_doc_comment
     else if prefix ''//!'' rest then lex_line_doc_comment
     else if prefix ''/**'' rest then lex_block_doc_comment
     else if prefix ''//'' rest then skip_line_comment
     else if prefix ''/*'' rest then skip_block_comment
     else if prefix [CHR ''b'', APOSTROPHE] rest then lex_byte_char
     else if prefix [CHR ''b'', QUOTE] rest then lex_byte_string
     else if prefix (CHR ''r'' # triple_quote) rest then lex_raw_multiline_string
     else if prefix [CHR ''r'', QUOTE] rest then lex_raw_string
     else if prefix triple_quote rest then multiline
     else if hd rest = QUOTE then str
     else if hd rest = APOSTROPHE then lex_char
     else if in_range CHR ''0'' CHR ''9'' (cp (hd rest)) then lex_number u
     else andthen (get peek) (\<lambda>c.
       let first_is = (\<lambda>P. case c of Some ch \<Rightarrow> P ch | None \<Rightarrow> False) in
       if cp (hd rest) \<ge> 128 \<and> first_is is_bidi_control then
         andthen mark (\<lambda>start. andthen bump (\<lambda>_. error_from start BidiTrojanSource bidi_message))
       else if cp (hd rest) < 128 \<and> is_ident_start u (cp (hd rest)) \<or>
               cp (hd rest) \<ge> 128 \<and> first_is (is_ident_start u)
       then lex_ident_or_keyword u
       else lex_operator_or_punctuation))"

text \<open>
  \<open>lex_string\<close>, \<open>lex_multiline_string\<close>, \<open>lex_string_body\<close>, \<open>lex_interpolation\<close> and \<open>lex_next_token\<close>
  call each other; every call costs one unit of fuel.
\<close>

fun lex_string :: "unicode_ident \<Rightarrow> nat \<Rightarrow> bool \<Rightarrow> unit lx"
and lex_multiline_string :: "unicode_ident \<Rightarrow> nat \<Rightarrow> unit lx"
and lex_string_body :: "unicode_ident \<Rightarrow> nat \<Rightarrow> string_terminator \<Rightarrow> bool \<Rightarrow> lex_error_code \<Rightarrow> unit lx"
and lex_interpolation :: "unicode_ident \<Rightarrow> nat \<Rightarrow> unit lx"
and lex_next_token :: "unicode_ident \<Rightarrow> nat \<Rightarrow> unit lx"
where
  "lex_string u 0 interpolation_mode = diverge"
| "lex_string u (Suc n) interpolation_mode =
    andthen mark (\<lambda>start. andthen bump (\<lambda>_. andthen (push_from (Lit StringStart) start) (\<lambda>_.
    andthen (lex_string_body u n Quote interpolation_mode UnterminatedString) (\<lambda>_.
    andthen mark (\<lambda>close. andthen bump (\<lambda>_. push_from (Lit StringEnd) close))))))"
| "lex_multiline_string u 0 = diverge"
| "lex_multiline_string u (Suc n) =
    andthen mark (\<lambda>start. andthen (bump_ascii 3) (\<lambda>_.
    andthen (push_from (Lit MultilineStringStart) start) (\<lambda>_.
    andthen (lex_string_body u n TripleQuote True UnterminatedMultilineString) (\<lambda>_.
    andthen mark (\<lambda>close. andthen (bump_ascii 3) (\<lambda>_. push_from (Lit MultilineStringEnd) close))))))"
| "lex_string_body u 0 t allow_newline c = diverge"
| "lex_string_body u (Suc n) t allow_newline c =
    andthen mark (\<lambda>text_start.
    andthen (loop (string_body_round u (lex_interpolation u n) t allow_newline c) text_start) (\<lambda>text_start.
    andthen (get is_at_end) (\<lambda>e.
    if e then error_from text_start c ''unterminated string literal''
    else andthen (get pos) (\<lambda>p. flush_text text_start p))))"
| "lex_interpolation u 0 = diverge"
| "lex_interpolation u (Suc n) =
    andthen (loop (interpolation_round u (lex_string u n True) (lex_next_token u n)) 0) (\<lambda>_.
    andthen (get is_at_end) (\<lambda>e.
    if e then andthen current_span (\<lambda>sp.
      fail (lex_error_new UnclosedInterpolation ''expected `}` to close string interpolation'' sp))
    else andthen mark (\<lambda>close. andthen bump (\<lambda>_. push_from (Lit InterpEnd) close))))"
| "lex_next_token u 0 = diverge"
| "lex_next_token u (Suc n) =
    andthen (get pos) (\<lambda>prev_pos. andthen (skip_whitespace u False) (\<lambda>_. andthen (get pos) (\<lambda>p.
    if p > prev_pos then ret ()
    else andthen bytes_from (\<lambda>rest.
      token_dispatch u (lex_multiline_string u n) (lex_string u n False) rest))))"

declare lex_string.simps [simp del] lex_multiline_string.simps [simp del]
  lex_string_body.simps [simp del] lex_interpolation.simps [simp del] lex_next_token.simps [simp del]

section \<open>The driver\<close>

record lexed =
  lexed_source :: string
  lexed_tokens :: "token list"
  lexed_diagnostics :: "lex_error list"

definition into_lexed :: "lexer \<Rightarrow> lexed" where
  "into_lexed s =
    \<lparr>lexed_source = source s, lexed_tokens = tokens s, lexed_diagnostics = diagnostics s\<rparr>"

definition push_diagnostic :: "lex_error \<Rightarrow> unit lx" where
  "push_diagnostic e = modify (\<lambda>s. s\<lparr>diagnostics := diagnostics s @ [e]\<rparr>)"

definition reject_source :: "unit lx" where
  "reject_source =
    (let sp = span_new 0 0 0 in
     andthen (push_diagnostic (lex_error_new SourceTooLarge ''source exceeds 4 GiB'' sp)) (\<lambda>_.
     andthen (push_token (Error SourceTooLarge) sp False) (\<lambda>_.
     push_token Eof sp False)))"

text \<open>The fuel of the recursion of one token: four calls for each byte that is left.\<close>

definition token_fuel :: "lexer \<Rightarrow> nat" where
  "token_fuel s = 4 * length (source s) + 4"

definition lex_tokens :: "unicode_ident \<Rightarrow> unit lx" where
  "lex_tokens u =
    while_lx (get (\<lambda>s. \<not> is_at_end s))
      (andthen (get pos) (\<lambda>start_pos. andthen (get token_fuel) (\<lambda>n.
       catch (lex_next_token u n) (\<lambda>err.
         andthen (push_diagnostic err) (\<lambda>_.
         andthen (push_token (Error (err_code err)) (err_span err) False) (\<lambda>_.
         andthen (get pos) (\<lambda>p. if p = start_pos then andthen bump (\<lambda>_. ret ()) else ret ())))))))"

definition lex_all :: "unicode_ident \<Rightarrow> unit lx" where
  "lex_all u =
    andthen (get (\<lambda>s. source_exceeds_span_limit (length (source s)))) (\<lambda>too_large.
    if too_large then reject_source
    else andthen (lex_tokens u) (\<lambda>_. andthen insert_semicolon_if_needed (\<lambda>_.
      andthen current_span (\<lambda>sp. push_token Eof sp False))))"

definition lex_recovering :: "unicode_ident \<Rightarrow> simd_backend_kind \<Rightarrow> string \<Rightarrow> lexed option" where
  "lex_recovering u k src =
    (case lex_all u (lexer_new k src) of (Done _, s) \<Rightarrow> Some (into_lexed s) | _ \<Rightarrow> None)"

definition lex :: "unicode_ident \<Rightarrow> simd_backend_kind \<Rightarrow> string \<Rightarrow> (lex_error, lexed) result option" where
  "lex u k src =
    map_option (\<lambda>l. case lexed_diagnostics l of e # _ \<Rightarrow> Err e | [] \<Rightarrow> Ok l) (lex_recovering u k src)"

definition lex_to_string :: "unicode_ident \<Rightarrow> simd_backend_kind \<Rightarrow> string \<Rightarrow> (lex_error, string) result option" where
  "lex_to_string u k src =
    map_option (map_sum id (\<lambda>l.
      concat (map (\<lambda>(i, t). (if i > 0 then [NL] else []) @ dump t (lexed_source l))
        (zip [0..<length (lexed_tokens l)] (lexed_tokens l))))) (lex u k src)"

end
