(* ===== verification/LexerLogic.thy ===== *)
theory LexerLogic
  imports Lexer
begin

text \<open>
  A calculus for the operations of the lexer. \<open>ok u cs m s R\<close> says that the operation \<open>m\<close>, started in the
  state \<open>s\<close> over the source \<open>utf8 cs\<close>, returns: either with a value and a well-formed state that satisfy \<open>R\<close>,
  or with an error whose span lies after all tokens. It never panics and never runs out of fuel.

  A state is well formed (\<open>lwf\<close>) when its cursor is on a character boundary, its line number counts the
  newlines before the cursor, its tokens have ordered, disjoint spans on character boundaries, its
  inserted semicolons follow tokens that end a statement, and its error tokens are its diagnostics.
  The theory proves the rules for sequencing, for loops, and for the cursor operations that all the
  operations are made of.
\<close>

section \<open>Weakest preconditions\<close>

definition wp :: "'a lx \<Rightarrow> ('a \<Rightarrow> lexer \<Rightarrow> bool) \<Rightarrow> (lex_error \<Rightarrow> lexer \<Rightarrow> bool) \<Rightarrow> lexer \<Rightarrow> bool" where
  "wp m Q E s =
    (case m s of (Done x, s') \<Rightarrow> Q x s' | (Fail e, s') \<Rightarrow> E e s' | (Panic, _) \<Rightarrow> False | (Diverge, _) \<Rightarrow> False)"

lemma wp_ret [simp]: "wp (ret x) Q E s = Q x s"
  by (simp add: wp_def ret_def)

lemma wp_fail [simp]: "wp (fail e) Q E s = E e s"
  by (simp add: wp_def fail_def)

lemma wp_panic [simp]: "wp panic Q E s = False"
  by (simp add: wp_def panic_def)

lemma wp_diverge [simp]: "wp diverge Q E s = False"
  by (simp add: wp_def diverge_def)

lemma wp_get [simp]: "wp (get f) Q E s = Q (f s) s"
  by (simp add: wp_def get_def)

lemma wp_modify [simp]: "wp (modify g) Q E s = Q () (g s)"
  by (simp add: wp_def modify_def)

lemma wp_andthen: "wp (andthen m f) Q E s = wp m (\<lambda>x. wp (f x) Q E) E s"
  by (simp add: wp_def andthen_def split: prod.splits outcome.splits)

lemma wp_catch: "wp (catch m h) Q E s = wp m Q (\<lambda>e. wp (h e) Q E) s"
  by (simp add: wp_def catch_def split: prod.splits outcome.splits)

lemma wp_mono:
  "wp m Q E s \<Longrightarrow> (\<And>x t. Q x t \<Longrightarrow> Q' x t) \<Longrightarrow> (\<And>e t. E e t \<Longrightarrow> E' e t) \<Longrightarrow> wp m Q' E' s"
  by (auto simp: wp_def split: prod.splits outcome.splits)

text \<open>A loop whose every round moves the cursor has enough fuel.\<close>

lemma wp_iterate:
  assumes "\<And>a t. I a t \<Longrightarrow> pos t \<le> N \<and>
      wp (body a) (\<lambda>r t'. case r of Continue a' \<Rightarrow> I a' t' \<and> pos t < pos t' | Break b \<Rightarrow> Q b t') E t"
  shows "I a s \<Longrightarrow> N - pos s < n \<Longrightarrow> wp (iterate n body a) Q E s"
proof (induction n arbitrary: a s)
  case (Suc n)
  have "wp (body a) (\<lambda>r t'. case r of Continue a' \<Rightarrow> I a' t' \<and> pos s < pos t' | Break b \<Rightarrow> Q b t') E s"
    using assms [OF Suc.prems(1)] by simp
  then have "wp (body a) (\<lambda>r. wp (case r of Continue a' \<Rightarrow> iterate n body a' | Break b \<Rightarrow> ret b) Q E) E s"
  proof (rule wp_mono)
    fix r t
    assume r: "case r of Continue a' \<Rightarrow> I a' t \<and> pos s < pos t | Break b \<Rightarrow> Q b t"
    show "wp (case r of Continue a' \<Rightarrow> iterate n body a' | Break b \<Rightarrow> ret b) Q E t"
    proof (cases r)
      case (Continue a')
      then have t: "I a' t" "pos s < pos t" using r by simp_all
      then have "N - pos t < n" using assms [OF t(1)] Suc.prems(2) by linarith
      then show ?thesis using Suc.IH [OF t(1)] Continue by simp
    qed (use r in simp)
  qed
  then show ?case by (simp add: wp_andthen)
qed simp

lemma wp_loop:
  assumes "I a s"
    and "\<And>a t. I a t \<Longrightarrow> pos t \<le> length (source s) \<and>
      wp (body a) (\<lambda>r t'. case r of Continue a' \<Rightarrow> I a' t' \<and> pos t < pos t' | Break b \<Rightarrow> Q b t') E t"
  shows "wp (loop body a) Q E s"
proof -
  have "wp (iterate (Suc (length (source s) - pos s)) body a) Q E s"
    by (rule wp_iterate [where I = I, OF assms(2) assms(1)]) simp_all
  then show ?thesis by (simp add: wp_def loop_def)
qed

section \<open>Well-formed states\<close>

text \<open>The tokens have ordered spans between two offsets, with both ends on character boundaries.\<close>

definition tstart :: "token \<Rightarrow> nat" where
  "tstart t = unat (tok_start t)"

definition tstop :: "token \<Rightarrow> nat" where
  "tstop t = unat (tok_start t) + unat (tok_len t)"

fun spans_ok :: "string \<Rightarrow> nat \<Rightarrow> token list \<Rightarrow> nat \<Rightarrow> bool" where
  "spans_ok src a [] b \<longleftrightarrow> a \<le> b"
| "spans_ok src a (t # ts) b \<longleftrightarrow>
     a \<le> tstart t \<and> is_char_boundary src (tstart t) \<and> is_char_boundary src (tstop t) \<and>
     spans_ok src (tstop t) ts b"

text \<open>The last significant token, and the rule for inserted semicolons.\<close>

fun sig_after :: "token_kind option \<Rightarrow> token list \<Rightarrow> token_kind option" where
  "sig_after p [] = p"
| "sig_after p (t # ts) = sig_after (if tok_kind t = Lit DocComment then p else Some (tok_kind t)) ts"

fun asi_ok :: "token_kind option \<Rightarrow> token list \<Rightarrow> bool" where
  "asi_ok p [] \<longleftrightarrow> True"
| "asi_ok p (t # ts) \<longleftrightarrow>
     (inserted t \<longrightarrow> tok_kind t = Pn Semicolon \<and> tok_len t = 0 \<and> (\<exists>k. p = Some k \<and> flag_can_end k)) \<and>
     asi_ok (if tok_kind t = Lit DocComment then p else Some (tok_kind t)) ts"

definition error_view :: "token \<Rightarrow> token_kind \<times> u32 \<times> u32" where
  "error_view t = (tok_kind t, tok_start t, tok_len t)"

definition diagnostic_view :: "lex_error \<Rightarrow> token_kind \<times> u32 \<times> u32" where
  "diagnostic_view e =
    (Error (err_code e), span_start (err_span e), span_end (err_span e) - span_start (err_span e))"

definition error_tokens :: "token list \<Rightarrow> token list" where
  "error_tokens ts = filter (\<lambda>t. is_error (tok_kind t)) ts"

text \<open>
  What the kind of a token says about its text: a word is a keyword of that kind or an identifier of
  that kind, and an operator is what the operator table has for it.
\<close>

primrec literal_text :: "unicode_ident \<Rightarrow> literal_kind \<Rightarrow> string \<Rightarrow> bool" where
  "literal_text u IdentValue w \<longleftrightarrow> identifier_kind u w = Some (Lit IdentValue)"
| "literal_text u IdentType w \<longleftrightarrow> identifier_kind u w = Some (Lit IdentType)"
| "literal_text u BoolTrue w \<longleftrightarrow> keyword_kind w = Some (Lit BoolTrue)"
| "literal_text u BoolFalse w \<longleftrightarrow> keyword_kind w = Some (Lit BoolFalse)"
| "literal_text u NilLit w \<longleftrightarrow> keyword_kind w = Some (Lit NilLit)"
| "literal_text u DocComment w \<longleftrightarrow> True"
| "literal_text u IntDec w \<longleftrightarrow> True"
| "literal_text u IntHex w \<longleftrightarrow> True"
| "literal_text u IntBin w \<longleftrightarrow> True"
| "literal_text u IntOct w \<longleftrightarrow> True"
| "literal_text u Float w \<longleftrightarrow> True"
| "literal_text u StringStart w \<longleftrightarrow> True"
| "literal_text u StringText w \<longleftrightarrow> True"
| "literal_text u StringEscape w \<longleftrightarrow> True"
| "literal_text u InterpStart w \<longleftrightarrow> True"
| "literal_text u InterpEnd w \<longleftrightarrow> True"
| "literal_text u StringEnd w \<longleftrightarrow> True"
| "literal_text u RawString w \<longleftrightarrow> True"
| "literal_text u MultilineStringStart w \<longleftrightarrow> True"
| "literal_text u MultilineStringEnd w \<longleftrightarrow> True"
| "literal_text u CharLit w \<longleftrightarrow> True"
| "literal_text u ByteChar w \<longleftrightarrow> True"
| "literal_text u ByteString w \<longleftrightarrow> True"

primrec kind_text :: "unicode_ident \<Rightarrow> token_kind \<Rightarrow> string \<Rightarrow> bool" where
  "kind_text u (Lit l) w \<longleftrightarrow> literal_text u l w"
| "kind_text u (Kw k) w \<longleftrightarrow> keyword_kind w = Some (Kw k)"
| "kind_text u (Ty k) w \<longleftrightarrow> keyword_kind w = Some (Ty k)"
| "kind_text u (Pn k) w \<longleftrightarrow> token_kind_from_prefix w = Some (Pn k, length w)"
| "kind_text u (Op k) w \<longleftrightarrow> token_kind_from_prefix w = Some (Op k, length w)"
| "kind_text u Eof w \<longleftrightarrow> True"
| "kind_text u (Error c) w \<longleftrightarrow> True"

definition token_text :: "unicode_ident \<Rightarrow> string \<Rightarrow> token \<Rightarrow> bool" where
  "token_text u src t \<longleftrightarrow> inserted t \<or> kind_text u (tok_kind t) (slice src (tstart t) (tstop t))"

text \<open>\<open>toks_upto u s b\<close>: the tokens of the state are in order and end at or before \<open>b\<close>.\<close>

definition toks_upto :: "unicode_ident \<Rightarrow> lexer \<Rightarrow> nat \<Rightarrow> bool" where
  "toks_upto u s b \<longleftrightarrow>
     spans_ok (source s) 0 (tokens s) b \<and> asi_ok None (tokens s) \<and>
     prev_significant s = sig_after None (tokens s) \<and>
     map error_view (error_tokens (tokens s)) = map diagnostic_view (diagnostics s) \<and>
     (\<forall>t\<in>set (tokens s). tok_kind t \<noteq> Eof \<and> token_text u (source s) t)"

definition cursor :: "code_point list \<Rightarrow> lexer \<Rightarrow> bool" where
  "cursor cs s \<longleftrightarrow>
     scalars cs \<and> source s = utf8 cs \<and> length (utf8 cs) \<le> u32_max \<and> pos s \<le> length (utf8 cs) \<and>
     is_char_boundary (utf8 cs) (pos s) \<and> line s = Suc (count_list (take (pos s) (utf8 cs)) NL)"

definition lwf :: "unicode_ident \<Rightarrow> code_point list \<Rightarrow> lexer \<Rightarrow> bool" where
  "lwf u cs s \<longleftrightarrow> cursor cs s \<and> toks_upto u s (pos s)"

text \<open>
  What the code relies on of the Unicode tables: a bidirectional control is not an identifier
  character.
\<close>

definition unicode_sane :: "unicode_ident \<Rightarrow> bool" where
  "unicode_sane u \<longleftrightarrow> (\<forall>c. is_bidi_control c \<longrightarrow> \<not> is_xid_start u c \<and> \<not> is_xid_continue u c)"

definition chars_all :: "(code_point \<Rightarrow> bool) \<Rightarrow> string \<Rightarrow> nat \<Rightarrow> nat \<Rightarrow> bool" where
  "chars_all Q src i j \<longleftrightarrow>
     (\<forall>p c. i \<le> p \<and> p < j \<and> is_char_boundary src p \<and> next_char (drop p src) = Some c \<longrightarrow> Q c)"

definition clean :: "unicode_ident \<Rightarrow> string \<Rightarrow> nat \<Rightarrow> nat \<Rightarrow> bool" where
  "clean u src i j \<longleftrightarrow> (unicode_sane u \<longrightarrow> chars_all (\<lambda>c. \<not> is_bidi_control c) src i j)"

text \<open>\<open>still s t\<close>: only the cursor may have moved. \<open>adv u cs s t\<close>: the lexer has gone on from \<open>s\<close> to \<open>t\<close>.\<close>

definition still :: "lexer \<Rightarrow> lexer \<Rightarrow> bool" where
  "still s t \<longleftrightarrow>
     source t = source s \<and> backend t = backend s \<and> tokens t = tokens s \<and>
     prev_significant t = prev_significant s \<and> diagnostics t = diagnostics s"

definition adv :: "unicode_ident \<Rightarrow> code_point list \<Rightarrow> lexer \<Rightarrow> lexer \<Rightarrow> bool" where
  "adv u cs s t \<longleftrightarrow>
     lwf u cs t \<and> source t = source s \<and> backend t = backend s \<and> diagnostics t = diagnostics s \<and>
     pos s \<le> pos t \<and> clean u (source s) (pos s) (pos t)"

text \<open>An error whose span lies between the last token and the cursor, on character boundaries.\<close>

definition span_after :: "unicode_ident \<Rightarrow> lexer \<Rightarrow> lex_error \<Rightarrow> bool" where
  "span_after u t e \<longleftrightarrow>
     (\<exists>a b. err_span e = span_new 0 (of_nat a) (of_nat b) \<and> toks_upto u t a \<and> a \<le> b \<and> b \<le> pos t \<and>
        is_char_boundary (source t) a \<and> is_char_boundary (source t) b)"

definition failed :: "unicode_ident \<Rightarrow> code_point list \<Rightarrow> lexer \<Rightarrow> lex_error \<Rightarrow> lexer \<Rightarrow> bool" where
  "failed u cs s e t \<longleftrightarrow>
     cursor cs t \<and> source t = source s \<and> backend t = backend s \<and> diagnostics t = diagnostics s \<and>
     pos s \<le> pos t \<and> span_after u t e"

definition ok ::
  "unicode_ident \<Rightarrow> code_point list \<Rightarrow> 'a lx \<Rightarrow> lexer \<Rightarrow> ('a \<Rightarrow> lexer \<Rightarrow> bool) \<Rightarrow> bool" where
  "ok u cs m s R \<longleftrightarrow> wp m (\<lambda>x t. adv u cs s t \<and> R x t) (failed u cs s) s"

lemma spans_ok_le: "spans_ok src a ts b \<Longrightarrow> a \<le> b"
  by (induction src a ts b rule: spans_ok.induct) (auto simp: tstart_def tstop_def)

lemma spans_ok_mono: "spans_ok src a ts b \<Longrightarrow> b \<le> c \<Longrightarrow> spans_ok src a ts c"
  by (induction src a ts b rule: spans_ok.induct) auto

lemma spans_ok_snoc:
  "spans_ok src a (ts @ [t]) b \<longleftrightarrow>
     spans_ok src a ts (tstart t) \<and> is_char_boundary src (tstart t) \<and>
     is_char_boundary src (tstop t) \<and> tstop t \<le> b"
  by (induction ts arbitrary: a) auto

lemma sig_after_snoc:
  "sig_after p (ts @ [t]) =
     (if tok_kind t = Lit DocComment then sig_after p ts else Some (tok_kind t))"
  by (induction ts arbitrary: p) simp_all

lemma asi_ok_snoc:
  "asi_ok p (ts @ [t]) \<longleftrightarrow> asi_ok p ts \<and>
     (inserted t \<longrightarrow> tok_kind t = Pn Semicolon \<and> tok_len t = 0 \<and>
       (\<exists>k. sig_after p ts = Some k \<and> flag_can_end k))"
  by (induction ts arbitrary: p) auto

lemma chars_all_refl [simp]: "chars_all Q src i i"
  by (auto simp: chars_all_def)

lemma chars_all_trans: "chars_all Q src i j \<Longrightarrow> chars_all Q src j k \<Longrightarrow> chars_all Q src i k"
  unfolding chars_all_def by (meson not_le)

lemma clean_refl [simp]: "clean u src i i"
  by (simp add: clean_def)

lemma clean_trans: "clean u src i j \<Longrightarrow> clean u src j k \<Longrightarrow> clean u src i k"
  by (auto simp: clean_def intro: chars_all_trans)

lemma still_refl [simp]: "still s s"
  by (simp add: still_def)

lemma still_trans: "still s t \<Longrightarrow> still t r \<Longrightarrow> still s r"
  by (simp add: still_def)

lemma upto_still: "still s t \<Longrightarrow> toks_upto u t b = toks_upto u s b"
  by (simp add: still_def toks_upto_def)

lemma upto_mono: "toks_upto u s a \<Longrightarrow> a \<le> b \<Longrightarrow> toks_upto u s b"
  by (auto simp: toks_upto_def intro: spans_ok_mono)

lemma lwf_cursor: "lwf u cs s \<Longrightarrow> cursor cs s"
  and lwf_upto: "lwf u cs s \<Longrightarrow> toks_upto u s (pos s)"
  by (simp_all add: lwf_def)

lemma lwfI: "cursor cs s \<Longrightarrow> toks_upto u s a \<Longrightarrow> a \<le> pos s \<Longrightarrow> lwf u cs s"
  by (auto simp: lwf_def intro: upto_mono)

lemma adv_refl: "lwf u cs s \<Longrightarrow> adv u cs s s"
  by (simp add: adv_def)

lemma adv_trans: "adv u cs s t \<Longrightarrow> adv u cs t r \<Longrightarrow> adv u cs s r"
  by (auto simp: adv_def intro: clean_trans)

lemma adv_lwf: "adv u cs s t \<Longrightarrow> lwf u cs t"
  and adv_pos: "adv u cs s t \<Longrightarrow> pos s \<le> pos t"
  and adv_source: "adv u cs s t \<Longrightarrow> source t = source s"
  by (simp_all add: adv_def)

lemma failed_trans: "adv u cs s t \<Longrightarrow> failed u cs t e r \<Longrightarrow> failed u cs s e r"
  by (auto simp: failed_def adv_def)

section \<open>Rules for operations\<close>

lemma ok_ret: "ok u cs (ret x) s R \<longleftrightarrow> adv u cs s s \<and> R x s"
  by (simp add: ok_def)

lemma ok_retI: "lwf u cs s \<Longrightarrow> R x s \<Longrightarrow> ok u cs (ret x) s R"
  by (simp add: ok_ret adv_refl)

lemma ok_get [simp]: "ok u cs (andthen (get f) g) s R \<longleftrightarrow> ok u cs (g (f s)) s R"
  by (simp add: ok_def wp_andthen)

lemma ok_mark [simp]: "ok u cs (andthen mark g) s R \<longleftrightarrow> ok u cs (g (pos s)) s R"
  by (simp add: mark_def)

lemma ok_bind:
  assumes "ok u cs m s R'"
    and "\<And>x t. adv u cs s t \<Longrightarrow> R' x t \<Longrightarrow> ok u cs (f x) t R"
  shows "ok u cs (andthen m f) s R"
proof -
  have "wp m (\<lambda>x. wp (f x) (\<lambda>x t. adv u cs s t \<and> R x t) (failed u cs s)) (failed u cs s) s"
  proof (rule wp_mono [OF assms(1) [unfolded ok_def]])
    fix x t
    assume a: "adv u cs s t \<and> R' x t"
    have "wp (f x) (\<lambda>x r. adv u cs t r \<and> R x r) (failed u cs t) t"
      using assms(2) [of t x] a by (simp add: ok_def)
    then show "wp (f x) (\<lambda>x t. adv u cs s t \<and> R x t) (failed u cs s) t"
      by (rule wp_mono) (use a in \<open>auto intro: adv_trans failed_trans\<close>)
  qed
  then show ?thesis by (simp add: ok_def wp_andthen)
qed

lemma ok_mono: "ok u cs m s R \<Longrightarrow> (\<And>x t. adv u cs s t \<Longrightarrow> R x t \<Longrightarrow> R' x t) \<Longrightarrow> ok u cs m s R'"
  unfolding ok_def by (erule wp_mono) auto

lemma ok_loop:
  assumes "lwf u cs s" and "I a s"
    and "\<And>a t. adv u cs s t \<Longrightarrow> I a t \<Longrightarrow>
      ok u cs (body a) t (\<lambda>r t'. case r of Continue a' \<Rightarrow> I a' t' \<and> pos t < pos t' | Break b \<Rightarrow> R b t')"
  shows "ok u cs (loop body a) s R"
  unfolding ok_def
proof (rule wp_loop [where I = "\<lambda>a t. adv u cs s t \<and> I a t"])
  show "adv u cs s s \<and> I a s" using assms(1,2) by (simp add: adv_refl)
  fix a t
  assume t: "adv u cs s t \<and> I a t"
  have "wp (body a) (\<lambda>r t'. adv u cs t t' \<and>
      (case r of Continue a' \<Rightarrow> I a' t' \<and> pos t < pos t' | Break b \<Rightarrow> R b t')) (failed u cs t) t"
    using assms(3) t by (simp add: ok_def)
  then have "wp (body a) (\<lambda>r t'. case r of
      Continue a' \<Rightarrow> (adv u cs s t' \<and> I a' t') \<and> pos t < pos t'
    | Break b \<Rightarrow> adv u cs s t' \<and> R b t') (failed u cs s) t"
    by (rule wp_mono) (use t in \<open>auto split: loop.splits intro: adv_trans failed_trans\<close>)
  moreover have "pos t \<le> length (source s)"
    using t by (auto simp: adv_def lwf_def cursor_def)
  ultimately show "pos t \<le> length (source s) \<and> wp (body a) (\<lambda>r t'. case r of
      Continue a' \<Rightarrow> (adv u cs s t' \<and> I a' t') \<and> pos t < pos t'
    | Break b \<Rightarrow> adv u cs s t' \<and> R b t') (failed u cs s) t" by simp
qed

lemma ok_while:
  assumes "lwf u cs s" and "I s"
    and "\<And>t. adv u cs s t \<Longrightarrow> I t \<Longrightarrow>
      ok u cs (andthen cond (\<lambda>c. if c then andthen body (\<lambda>_. ret (Continue ())) else ret (Break ()))) t
        (\<lambda>r t'. case r of Continue _ \<Rightarrow> I t' \<and> pos t < pos t' | Break b \<Rightarrow> R b t')"
  shows "ok u cs (while_lx cond body) s R"
  unfolding while_lx_def
  by (rule ok_loop [where I = "\<lambda>_. I"]) (use assms in \<open>auto split: loop.splits\<close>)

section \<open>The cursor\<close>

lemma cursorD:
  assumes "cursor cs s"
  shows "scalars cs" and "source s = utf8 cs" and "length (utf8 cs) \<le> u32_max"
    and "pos s \<le> length (utf8 cs)" and "is_char_boundary (utf8 cs) (pos s)"
    and "line s = Suc (count_list (take (pos s) (utf8 cs)) NL)"
  using assms by (simp_all add: cursor_def)

lemma bidi_not_ascii: "is_bidi_control c \<Longrightarrow> 128 \<le> c"
  by (auto simp: is_bidi_control_def)

lemma peek_cursor: "cursor cs s \<Longrightarrow> peek s = next_char (drop (pos s) (source s))"
  unfolding peek_def Let_def
  using ascii_next_char [of "pos s" "source s"] cursorD [of cs s]
  by (auto simp: is_ascii_def next_char_def)

lemma peek_None_iff: "cursor cs s \<Longrightarrow> peek s = None \<longleftrightarrow> is_at_end s"
  by (simp add: peek_cursor next_char_def Let_def is_at_end_def)

lemma peek_SomeD: "cursor cs s \<Longrightarrow> peek s = Some c \<Longrightarrow> pos s < length (source s)"
  using peek_None_iff [of cs s] by (auto simp: is_at_end_def not_le)

lemma peek_ascii: "cursor cs s \<Longrightarrow> peek s = Some (cp b) \<Longrightarrow> is_ascii b \<Longrightarrow>
   prefix [b] (drop (pos s) (source s))"
proof -
  assume c: "cursor cs s" and p: "peek s = Some (cp b)" and a: "is_ascii b"
  have l: "pos s < length (source s)" by (rule peek_SomeD [OF c p])
  then have "cp b = cp (source s ! pos s)"
    using next_char_ascii_iff [of cs "pos s" "cp b"] cursorD [OF c] p a peek_cursor [OF c]
    by (simp add: is_ascii_def)
  then have "source s ! pos s = b" by simp
  then show ?thesis using l by (simp add: Cons_nth_drop_Suc [symmetric])
qed

lemma prefix_peek: "cursor cs s \<Longrightarrow> prefix (b # p) (drop (pos s) (source s)) \<Longrightarrow> is_ascii b \<Longrightarrow>
   peek s = Some (cp b) \<and> pos s < length (source s)"
proof -
  assume c: "cursor cs s" and p: "prefix (b # p) (drop (pos s) (source s))" and a: "is_ascii b"
  have l: "pos s < length (source s)" using p by (cases "pos s < length (source s)") auto
  then have "source s ! pos s = b" using p by (simp add: Cons_nth_drop_Suc [symmetric])
  then show ?thesis using l a by (simp add: peek_def is_ascii_def)
qed

lemma take_plus: "take (p + n) xs = take p xs @ slice xs p (p + n)"
  by (simp add: slice_def take_add)

lemma chars_all_char:
  assumes "scalars cs" and "is_char_boundary (utf8 cs) p" and "next_char (drop p (utf8 cs)) = Some c" and "Q c"
  shows "chars_all Q (utf8 cs) p (p + len_utf8 c)"
proof -
  have "q = p" if "p \<le> q" "q < p + len_utf8 c" "is_char_boundary (utf8 cs) q" for q
    using that no_boundary_inside [OF assms(1-3)] by (metis le_neq_implies_less)
  then show ?thesis unfolding chars_all_def using assms(3,4) by fastforce
qed

lemma clean_char:
  assumes "scalars cs" and "is_char_boundary (utf8 cs) p" and "next_char (drop p (utf8 cs)) = Some c"
    and "unicode_sane u \<Longrightarrow> \<not> is_bidi_control c"
  shows "clean u (utf8 cs) p (p + len_utf8 c)"
  using chars_all_char [OF assms(1-3)] assms(4) by (simp add: clean_def)

lemma bump_cursor:
  assumes "cursor cs s" and "peek s = Some c"
  obtains t where "bump s = (Done (Some c), t)" and "cursor cs t" and "still s t"
    and "pos t = pos s + len_utf8 c"
proof -
  let ?t = "snd (bump s)"
  note D = cursorD [OF assms(1)]
  have n: "next_char (drop (pos s) (utf8 cs)) = Some c"
    using peek_cursor [OF assms(1)] assms(2) D by simp
  note B = boundary_next [OF D(1,5) n]
  have sc: "is_scalar c" using B(4) D(1) by (simp add: list_all_iff)
  have t: "bump s = (Done (Some c), ?t)" "still s ?t" "pos ?t = pos s + len_utf8 c"
    "line ?t = line s + (if c = cp NL then 1 else 0)"
    using assms(2) by (simp_all add: bump_def still_def)
  have "take (pos ?t) (utf8 cs) = take (pos s) (utf8 cs) @ utf8_char c"
    using B(3) t(3) by (simp add: take_plus)
  then have "line ?t = Suc (count_list (take (pos ?t) (utf8 cs)) NL)"
    using D(6) t(4) NL_utf8_char [OF sc] by simp
  then have "cursor cs ?t" using D B t by (simp add: cursor_def still_def)
  then show ?thesis using that t by blast
qed

lemma ok_bump:
  assumes "lwf u cs s" and "peek s = Some c" and "unicode_sane u \<Longrightarrow> \<not> is_bidi_control c"
  shows "ok u cs bump s (\<lambda>_ t. still s t \<and> pos t = pos s + len_utf8 c)"
proof -
  have cur: "cursor cs s" by (rule lwf_cursor [OF assms(1)])
  note D = cursorD [OF cur]
  obtain t where t: "bump s = (Done (Some c), t)" "cursor cs t" "still s t" "pos t = pos s + len_utf8 c"
    by (rule bump_cursor [OF cur assms(2)])
  have n: "next_char (drop (pos s) (utf8 cs)) = Some c"
    using peek_cursor [OF cur] assms(2) D by simp
  have "clean u (source s) (pos s) (pos t)"
    using clean_char [OF D(1,5) n assms(3)] D(2) t(4) by simp
  moreover have "lwf u cs t"
    using t upto_still [OF t(3)] lwf_upto [OF assms(1)] by (intro lwfI [where a = "pos s"]) auto
  ultimately show ?thesis using t by (simp add: ok_def wp_def adv_def still_def)
qed

text \<open>Moving over ASCII bytes.\<close>

lemma ascii_region:
  assumes "scalars cs" and "p + n \<le> length (utf8 cs)" and "is_char_boundary (utf8 cs) p"
    and "list_all is_ascii (slice (utf8 cs) p (p + n))"
  shows "is_char_boundary (utf8 cs) (p + n)" and "clean u (utf8 cs) p (p + n)"
proof -
  have nth: "is_ascii (utf8 cs ! q)" if "p \<le> q" "q < p + n" for q
  proof -
    have "utf8 cs ! q = slice (utf8 cs) p (p + n) ! (q - p)"
      using that assms(2) by (simp add: slice_def)
    moreover have "q - p < length (slice (utf8 cs) p (p + n))"
      using that assms(2) by (simp add: slice_def)
    ultimately show ?thesis using assms(4) by (metis list_all_length)
  qed
  show "is_char_boundary (utf8 cs) (p + n)"
  proof (cases n)
    case (Suc m)
    then show ?thesis using ascii_boundary(2) [OF assms(1), of "p + m"] nth [of "p + m"] assms(2) by simp
  qed (use assms(3) in simp)
  have "c < 128" if "p \<le> q" "q < p + n" "next_char (drop q (utf8 cs)) = Some c" for q c
    using ascii_next_char [of q "utf8 cs"] nth [OF that(1,2)] that assms(2) by (simp add: is_ascii_def)
  then show "clean u (utf8 cs) p (p + n)"
    unfolding clean_def chars_all_def using bidi_not_ascii by (meson not_le)
qed

lemma move_ascii:
  assumes "lwf u cs s" and "pos s + n \<le> length (source s)"
    and "list_all is_ascii (slice (source s) (pos s) (pos s + n))"
    and "still s t" and "pos t = pos s + n"
    and "line t = line s + count_list (slice (source s) (pos s) (pos s + n)) NL"
  shows "adv u cs s t"
proof -
  note D = cursorD [OF lwf_cursor [OF assms(1)]]
  have r: "is_char_boundary (utf8 cs) (pos t)" "clean u (utf8 cs) (pos s) (pos t)"
    using ascii_region [OF D(1) _ D(5), of n] assms(2,3,5) D(2) by simp_all
  have "cursor cs t"
    using D r assms by (simp add: cursor_def still_def take_plus)
  moreover from this have "lwf u cs t"
    using upto_still [OF assms(4)] lwf_upto [OF assms(1)] assms(5) by (intro lwfI [where a = "pos s"]) auto
  ultimately show ?thesis using r D assms(4,5) by (simp add: adv_def still_def)
qed

definition plain :: "string \<Rightarrow> bool" where
  "plain p \<longleftrightarrow> list_all (\<lambda>b. is_ascii b \<and> b \<noteq> NL) p"

lemma plain_ascii: "plain p \<Longrightarrow> list_all is_ascii p"
  and plain_no_NL: "plain p \<Longrightarrow> count_list p NL = 0"
  by (auto simp: plain_def list_all_iff count_list_0_iff)

lemma prefix_slice: "prefix p (drop i xs) \<Longrightarrow> slice xs i (i + length p) = p"
  by (auto simp: slice_def prefix_def)

lemma ok_bump_ascii:
  assumes "lwf u cs s" and "prefix p (drop (pos s) (source s))" and "plain p" and "n = length p"
  shows "ok u cs (bump_ascii n) s (\<lambda>_ t. still s t \<and> pos t = pos s + n)"
proof -
  have sl: "slice (source s) (pos s) (pos s + n) = p" using prefix_slice [OF assms(2)] assms(4) by simp
  have "n \<le> length (source s) - pos s" using prefix_length_le [OF assms(2)] assms(4) by simp
  moreover have "pos s \<le> length (source s)"
    using cursorD [OF lwf_cursor [OF assms(1)]] by simp
  ultimately have len: "pos s + n \<le> length (source s)" by simp
  let ?t = "s\<lparr>pos := pos s + n, col := col s + n\<rparr>"
  have st: "still s ?t" by (simp add: still_def)
  have "adv u cs s ?t"
    by (rule move_ascii [OF assms(1) len _ st]) (simp_all add: sl plain_ascii plain_no_NL assms(3))
  then show ?thesis using assms(3) sl len st by (simp add: ok_def wp_def bump_ascii_def plain_def)
qed

section \<open>Tokens and errors\<close>

lemma unat_u32: "n \<le> u32_max \<Longrightarrow> unat (of_nat n :: u32) = n"
  by (simp add: unat_of_nat u32_max_def)

lemma span_len:
  assumes "a \<le> b" and "b \<le> u32_max"
  shows "unat (of_nat b - of_nat a :: u32) = b - a" and "\<not> (of_nat b :: u32) < of_nat a"
proof -
  have ab: "unat (of_nat a :: u32) = a" "unat (of_nat b :: u32) = b"
    using assms by (simp_all add: unat_u32)
  then show "\<not> (of_nat b :: u32) < of_nat a" using assms(1) by (simp add: word_less_nat_alt)
  have "(of_nat a :: u32) \<le> of_nat b" using ab assms(1) by (simp add: word_le_nat_alt)
  then show "unat (of_nat b - of_nat a :: u32) = b - a" using ab by (simp add: unat_sub)
qed

text \<open>What may be pushed at a state: an ordinary token, or a semicolon after the end of a statement.\<close>

definition pushable :: "unicode_ident \<Rightarrow> lexer \<Rightarrow> token_kind \<Rightarrow> nat \<Rightarrow> nat \<Rightarrow> bool \<Rightarrow> bool" where
  "pushable u s k a b ins \<longleftrightarrow> \<not> is_error k \<and> k \<noteq> Eof \<and>
     (ins \<longrightarrow> k = Pn Semicolon \<and> a = b \<and> (\<exists>k. prev_significant s = Some k \<and> flag_can_end k)) \<and>
     (ins \<or> kind_text u k (slice (source s) a b))"

lemma toks_upto_push:
  assumes "toks_upto u s a" and "a \<le> b" and "b \<le> length (source s)" and "length (source s) \<le> u32_max"
    and "is_char_boundary (source s) a" and "is_char_boundary (source s) b" and "pushable u s k a b ins"
    and "source t = source s" and "diagnostics t = diagnostics s"
    and "tokens t = tokens s @ [\<lparr>tok_start = of_nat a, tok_len = of_nat b - of_nat a, tok_kind = k,
                                inserted = ins\<rparr>]"
    and "prev_significant t = (if k = Lit DocComment then prev_significant s else Some k)"
  shows "toks_upto u t b"
proof -
  let ?tok = "\<lparr>tok_start = of_nat a, tok_len = of_nat b - of_nat a, tok_kind = k, inserted = ins\<rparr>"
  have st: "tstart ?tok = a" "tstop ?tok = b"
    using span_len [OF assms(2)] assms(2-4) by (simp_all add: tstart_def tstop_def unat_u32)
  have tok: "spans_ok (source s) 0 (tokens s) a" "asi_ok None (tokens s)"
    "prev_significant s = sig_after None (tokens s)" using assms(1) by (simp_all add: toks_upto_def)
  have "spans_ok (source s) 0 (tokens s @ [?tok]) b" unfolding spans_ok_snoc st using tok assms by simp
  moreover have "asi_ok None (tokens s @ [?tok])"
    unfolding asi_ok_snoc using tok assms(7) by (auto simp: pushable_def)
  moreover have "prev_significant t = sig_after None (tokens s @ [?tok])"
    unfolding sig_after_snoc using tok assms(11) by simp
  moreover have "token_text u (source s) ?tok"
    using assms(7) st by (auto simp: token_text_def pushable_def)
  ultimately show ?thesis
    using assms(1,7-10) by (auto simp: toks_upto_def error_tokens_def pushable_def)
qed

lemma ok_push_token:
  assumes "lwf u cs s" and "toks_upto u s a" and "a \<le> b" and "b \<le> pos s"
    and "is_char_boundary (source s) a" and "is_char_boundary (source s) b" and "pushable u s k a b ins"
  shows "ok u cs (push_token k (span_new 0 (of_nat a) (of_nat b)) ins) s
           (\<lambda>_ t. pos t = pos s \<and> toks_upto u t b)"
proof -
  note D = cursorD [OF lwf_cursor [OF assms(1)]]
  have le: "b \<le> u32_max" "b \<le> length (source s)" "length (source s) \<le> u32_max"
    using D assms(4) by simp_all
  define t where "t = s\<lparr>prev_significant := (if k = Lit DocComment then prev_significant s else Some k),
      tokens := tokens s @ [\<lparr>tok_start = of_nat a, tok_len = of_nat b - of_nat a, tok_kind = k,
                            inserted = ins\<rparr>]\<rparr>"
  have run: "push_token k (span_new 0 (of_nat a) (of_nat b)) ins s = (Done (), t)"
    using span_len(2) [OF assms(3) le(1)] by (simp add: push_token_def span_new_def t_def)
  have up: "toks_upto u t b"
    by (rule toks_upto_push [OF assms(2,3) le(2,3) assms(5,6,7)]) (simp_all add: t_def)
  have "cursor cs t" using lwf_cursor [OF assms(1)] by (simp add: cursor_def t_def)
  then have "lwf u cs t" using up assms(4) by (intro lwfI [where a = b]) (simp_all add: t_def)
  then have "adv u cs s t" by (simp add: adv_def t_def)
  then show ?thesis using run up by (simp add: ok_def wp_def t_def)
qed

lemma ok_span_from:
  assumes "lwf u cs s" and "i \<le> pos s"
  shows "ok u cs (andthen (span_from i) g) s R \<longleftrightarrow>
    ok u cs (g (span_new 0 (of_nat i) (of_nat (pos s)))) s R"
proof -
  have "\<not> source_exceeds_span_limit (max i (pos s))"
    using cursorD [OF lwf_cursor [OF assms(1)]] assms(2) by (simp add: source_exceeds_span_limit_def)
  then show ?thesis by (simp add: ok_def wp_def andthen_def span_from_def)
qed

lemma lwf_boundary: "lwf u cs s \<Longrightarrow> is_char_boundary (source s) (pos s)"
  using cursorD [OF lwf_cursor] by metis

lemma ok_push_from:
  assumes "lwf u cs s" and "toks_upto u s i" and "i \<le> pos s" and "is_char_boundary (source s) i"
    and "\<not> is_error k" and "k \<noteq> Eof" and "kind_text u k (slice (source s) i (pos s))"
  shows "ok u cs (push_from k i) s (\<lambda>_ t. pos t = pos s)"
proof -
  have "ok u cs (push_token k (span_new 0 (of_nat i) (of_nat (pos s))) False) s
      (\<lambda>_ t. pos t = pos s \<and> toks_upto u t (pos s))"
    using assms lwf_boundary [OF assms(1)] by (intro ok_push_token) (auto simp: pushable_def)
  then show ?thesis unfolding push_from_def ok_span_from [OF assms(1,3)] by (rule ok_mono) simp
qed

lemma ok_fail_span:
  assumes "lwf u cs s" and "toks_upto u s i" and "i \<le> pos s" and "is_char_boundary (source s) i"
  shows "ok u cs (fail (lex_error_new c msg (span_new 0 (of_nat i) (of_nat (pos s))))) s R"
proof -
  have "span_after u s (lex_error_new c msg (span_new 0 (of_nat i) (of_nat (pos s))))"
    unfolding span_after_def lex_error_new_def
    using assms lwf_boundary [OF assms(1)] by (intro exI [of _ i] exI [of _ "pos s"]) simp
  then show ?thesis using lwf_cursor [OF assms(1)] by (simp add: ok_def failed_def)
qed

lemma ok_error_from:
  assumes "lwf u cs s" and "toks_upto u s i" and "i \<le> pos s" and "is_char_boundary (source s) i"
  shows "ok u cs (error_from i c msg) s R"
  unfolding error_from_def ok_span_from [OF assms(1,3)] by (rule ok_fail_span [OF assms])

lemma ok_current_span:
  "lwf u cs s \<Longrightarrow> ok u cs (andthen current_span g) s R \<longleftrightarrow>
    ok u cs (g (span_new 0 (of_nat (pos s)) (of_nat (pos s)))) s R"
proof -
  assume "lwf u cs s"
  then have "\<not> source_exceeds_span_limit (pos s)"
    using cursorD [OF lwf_cursor] by (fastforce simp: source_exceeds_span_limit_def)
  then show ?thesis by (simp add: ok_def wp_def andthen_def current_span_def)
qed

lemma ok_bytes_from:
  "lwf u cs s \<Longrightarrow> ok u cs (andthen bytes_from g) s R \<longleftrightarrow> ok u cs (g (drop (pos s) (source s))) s R"
proof -
  assume "lwf u cs s"
  then have "pos s \<le> length (source s)" using cursorD [OF lwf_cursor] by metis
  then show ?thesis by (simp add: ok_def wp_def andthen_def bytes_from_def)
qed

lemma andthen_assoc: "andthen (andthen m f) g = andthen m (\<lambda>x. andthen (f x) g)"
  by (rule ext) (simp add: andthen_def split: prod.splits outcome.splits)

lemma andthen_ret [simp]: "andthen (ret x) g = g x"
  by (rule ext) (simp add: andthen_def ret_def)

lemma ok_starts_with:
  "lwf u cs s \<Longrightarrow> ok u cs (andthen (starts_with p) g) s R \<longleftrightarrow>
    ok u cs (g (prefix p (drop (pos s) (source s)))) s R"
  by (simp add: starts_with_def andthen_assoc ok_bytes_from)

text \<open>An offset that was the position of an earlier state of the operation, with no token since.\<close>

definition marked :: "unicode_ident \<Rightarrow> nat \<Rightarrow> lexer \<Rightarrow> bool" where
  "marked u i t \<longleftrightarrow> toks_upto u t i \<and> i \<le> pos t \<and> is_char_boundary (source t) i"

lemma marked_self: "lwf u cs s \<Longrightarrow> marked u (pos s) s"
  by (simp add: marked_def lwf_upto lwf_boundary)

lemma marked_still: "marked u i s \<Longrightarrow> still s t \<Longrightarrow> pos s \<le> pos t \<Longrightarrow> marked u i t"
  using upto_still [of s t u i] by (simp add: marked_def still_def)

lemma ok_error_at: "lwf u cs s \<Longrightarrow> marked u i s \<Longrightarrow> ok u cs (error_from i c msg) s R"
  by (rule ok_error_from) (simp_all add: marked_def)

lemma ok_push_at:
  "lwf u cs s \<Longrightarrow> marked u i s \<Longrightarrow> \<not> is_error k \<Longrightarrow> k \<noteq> Eof \<Longrightarrow> kind_text u k (slice (source s) i (pos s)) \<Longrightarrow>
   ok u cs (push_from k i) s (\<lambda>_ t. pos t = pos s)"
  by (rule ok_push_from) (simp_all add: marked_def)

lemma ok_bump_error:
  assumes "lwf u cs s" and "peek s = Some ch" and "marked u i s"
  shows "ok u cs (andthen bump (\<lambda>_. error_from i c msg)) s R"
proof -
  obtain t where t: "bump s = (Done (Some ch), t)" "cursor cs t" "still s t" "pos t = pos s + len_utf8 ch"
    by (rule bump_cursor [OF lwf_cursor [OF assms(1)] assms(2)])
  have m: "marked u i t" using marked_still [OF assms(3) t(3)] t(4) by simp
  then have lim: "\<not> source_exceeds_span_limit (max i (pos t))"
    using cursorD [OF t(2)] by (simp add: source_exceeds_span_limit_def marked_def)
  have "span_after u t (lex_error_new c msg (span_new 0 (of_nat i) (of_nat (pos t))))"
    unfolding span_after_def lex_error_new_def
    using m cursorD [OF t(2)] by (intro exI [of _ i] exI [of _ "pos t"]) (simp add: marked_def)
  then have "failed u cs s (lex_error_new c msg (span_new 0 (of_nat i) (of_nat (pos t)))) t"
    using t by (simp add: failed_def still_def)
  then show ?thesis using t(1) lim
    by (simp add: ok_def wp_def andthen_def error_from_def span_from_def fail_def)
qed

text \<open>A bidirectional control ends the operation; otherwise the state is as it was.\<close>

lemma ok_reject_bidi:
  assumes "lwf u cs s"
  shows "ok u cs reject_bidi s (\<lambda>_ t. t = s \<and> (\<forall>c. peek s = Some c \<longrightarrow> \<not> is_bidi_control c))"
proof (cases "\<exists>c. peek s = Some c \<and> is_bidi_control c")
  case True
  then obtain c where c: "peek s = Some c" "is_bidi_control c" by blast
  then show ?thesis
    by (simp add: reject_bidi_def ok_bump_error [OF assms c(1) marked_self [OF assms]])
next
  case False
  then show ?thesis using assms
    by (auto simp: reject_bidi_def ok_retI split: option.splits)
qed

section \<open>Scanning loops\<close>

lemma still_adv_pos: "adv u cs s t \<Longrightarrow> marked u i s \<Longrightarrow> still s t \<Longrightarrow> marked u i t"
  by (rule marked_still) (auto simp: adv_pos)

lemma ok_scan:
  assumes "lwf u cs s"
    and "\<And>t. adv u cs s t \<Longrightarrow> P t \<Longrightarrow> \<exists>c. peek t = Some c \<and> (unicode_sane u \<longrightarrow> \<not> is_bidi_control c)"
  shows "ok u cs (while_lx (get P) (andthen bump (\<lambda>_. ret ()))) s
    (\<lambda>_ t. still s t \<and> \<not> P t \<and> ((P s \<longrightarrow> pos s < pos t) \<and> (P s \<or> t = s)))"
proof (rule ok_while [where I = "\<lambda>t. still s t \<and> (t = s \<or> P s \<and> pos s < pos t)"])
  fix t
  assume a: "adv u cs s t" and i: "still s t \<and> (t = s \<or> P s \<and> pos s < pos t)"
  note w = adv_lwf [OF a]
  show "ok u cs (andthen (get P) (\<lambda>c. if c then andthen (andthen bump (\<lambda>_. ret ())) (\<lambda>_. ret (Continue ()))
      else ret (Break ()))) t (\<lambda>r t'. case r of
        Continue _ \<Rightarrow> (still s t' \<and> (t' = s \<or> P s \<and> pos s < pos t')) \<and> pos t < pos t'
      | Break b \<Rightarrow> still s t' \<and> \<not> P t' \<and> ((P s \<longrightarrow> pos s < pos t') \<and> (P s \<or> t' = s)))"
  proof (cases "P t")
    case True
    then obtain c where c: "peek t = Some c" "unicode_sane u \<longrightarrow> \<not> is_bidi_control c"
      using assms(2) [OF a] by blast
    have "ok u cs (andthen bump (\<lambda>_. ret (Continue ()))) t (\<lambda>r t'. case r of
        Continue _ \<Rightarrow> (still s t' \<and> (t' = s \<or> P s \<and> pos s < pos t')) \<and> pos t < pos t'
      | Break b \<Rightarrow> still s t' \<and> \<not> P t' \<and> ((P s \<longrightarrow> pos s < pos t') \<and> (P s \<or> t' = s)))"
      by (rule ok_bind [OF ok_bump [OF w c(1)]])
        (use c i a True in \<open>auto simp: adv_lwf ok_retI still_def dest: adv_pos\<close>)
    then show ?thesis using True by (simp add: andthen_assoc)
  next
    case False
    then show ?thesis using i w by (auto simp: ok_retI)
  qed
qed (simp_all add: assms(1))

text \<open>The same loop with the check for bidirectional controls in front of every step.\<close>

lemma ok_step_bidi:
  assumes "lwf u cs t" and "\<not> is_at_end t"
    and that: "\<And>r c. adv u cs t r \<Longrightarrow> still t r \<Longrightarrow> peek t = Some c \<Longrightarrow> pos r = pos t + len_utf8 c \<Longrightarrow> ok u cs m r R"
  shows "ok u cs (andthen reject_bidi (\<lambda>_. andthen bump (\<lambda>_. m))) t R"
proof -
  obtain c where c: "peek t = Some c" using assms(1,2) peek_None_iff [OF lwf_cursor] by blast
  show ?thesis
  proof (rule ok_bind [OF ok_reject_bidi [OF assms(1)]])
    fix x r
    assume "adv u cs t r" and r: "r = t \<and> (\<forall>c. peek t = Some c \<longrightarrow> \<not> is_bidi_control c)"
    then have "\<not> is_bidi_control c" using c by blast
    then have "ok u cs (andthen bump (\<lambda>_. m)) t R"
      by (intro ok_bind [OF ok_bump [OF assms(1) c]]) (use that c in auto)
    then show "ok u cs (andthen bump (\<lambda>_. m)) r R" using r by simp
  qed
qed

lemma ok_scan_bidi:
  assumes "lwf u cs s" and "\<And>t. adv u cs s t \<Longrightarrow> still s t \<Longrightarrow> P t \<Longrightarrow> \<not> is_at_end t"
  shows "ok u cs (while_lx (get P) (andthen reject_bidi (\<lambda>_. andthen bump (\<lambda>_. ret ())))) s
    (\<lambda>_ t. still s t \<and> \<not> P t \<and> ((P s \<longrightarrow> pos s < pos t) \<and> (P s \<or> t = s)))"
proof (rule ok_while [where I = "\<lambda>t. still s t \<and> (t = s \<or> P s \<and> pos s < pos t)"])
  fix t
  assume a: "adv u cs s t" and i: "still s t \<and> (t = s \<or> P s \<and> pos s < pos t)"
  note w = adv_lwf [OF a]
  let ?R = "\<lambda>r t'. case r of
        Continue _ \<Rightarrow> (still s t' \<and> (t' = s \<or> P s \<and> pos s < pos t')) \<and> pos t < pos t'
      | Break b \<Rightarrow> still s t' \<and> \<not> P t' \<and> ((P s \<longrightarrow> pos s < pos t') \<and> (P s \<or> t' = s))"
  show "ok u cs (andthen (get P) (\<lambda>c. if c then andthen (andthen reject_bidi (\<lambda>_. andthen bump (\<lambda>_. ret ())))
      (\<lambda>_. ret (Continue ())) else ret (Break ()))) t ?R"
  proof (cases "P t")
    case True
    have "ok u cs (andthen reject_bidi (\<lambda>_. andthen bump (\<lambda>_. ret (Continue ())))) t ?R"
      by (rule ok_step_bidi [OF w])
        (use assms(2) [OF a _ True] i a True in \<open>auto simp: adv_lwf ok_retI still_def dest: adv_pos\<close>)
    then show ?thesis using True by (simp add: andthen_assoc)
  next
    case False
    then show ?thesis using i w by (auto simp: ok_retI)
  qed
qed (simp_all add: assms(1))

text \<open>\<open>since u cs z t\<close>: the lexer has gone from \<open>z\<close> to \<open>t\<close> without a token, so \<open>z\<close> can start a token or an error.\<close>

definition since :: "unicode_ident \<Rightarrow> code_point list \<Rightarrow> lexer \<Rightarrow> lexer \<Rightarrow> bool" where
  "since u cs z t \<longleftrightarrow> lwf u cs z \<and> lwf u cs t \<and> still z t \<and> pos z \<le> pos t"

lemma since_refl: "lwf u cs s \<Longrightarrow> since u cs s s"
  by (simp add: since_def)

lemma since_lwf: "since u cs z t \<Longrightarrow> lwf u cs t"
  and since_pos: "since u cs z t \<Longrightarrow> pos z \<le> pos t"
  and since_still: "since u cs z t \<Longrightarrow> still z t"
  and since_source: "since u cs z t \<Longrightarrow> source t = source z"
  by (simp_all add: since_def still_def)

lemma since_step: "since u cs z s \<Longrightarrow> adv u cs s t \<Longrightarrow> still s t \<Longrightarrow> since u cs z t"
  by (auto simp: since_def dest: adv_lwf adv_pos intro: still_trans)

lemma since_marked: "since u cs z t \<Longrightarrow> marked u (pos z) t"
  by (auto simp: since_def intro: marked_still marked_self)

lemma ok_quiet:
  assumes "since u cs z s" and "ok u cs m s (\<lambda>x t. still s t \<and> R' x t)"
    and "\<And>x t. since u cs z t \<Longrightarrow> R' x t \<Longrightarrow> pos s \<le> pos t \<Longrightarrow> adv u cs s t \<Longrightarrow> ok u cs (f x) t R"
  shows "ok u cs (andthen m f) s R"
  by (rule ok_bind [OF assms(2)]) (use assms(1,3) in \<open>auto intro: since_step dest: adv_pos\<close>)

lemma ok_error_q: "since u cs z t \<Longrightarrow> ok u cs (error_from (pos z) c msg) t R"
  by (simp add: ok_error_at since_lwf since_marked)

lemma ok_push_q:
  "since u cs z t \<Longrightarrow> \<not> is_error k \<Longrightarrow> k \<noteq> Eof \<Longrightarrow> kind_text u k (slice (source t) (pos z) (pos t)) \<Longrightarrow> (\<And>r. pos r = pos t \<Longrightarrow> R () r) \<Longrightarrow>
   ok u cs (push_from k (pos z)) t R"
  by (rule ok_mono [OF ok_push_at]) (auto simp: since_lwf since_marked)

lemma ok_ret_q: "since u cs z t \<Longrightarrow> R x t \<Longrightarrow> ok u cs (ret x) t R"
  by (simp add: ok_retI since_lwf)

end
