(* ===== verification/LexerSafe.thy ===== *)
theory LexerSafe
  imports LexerLogic
begin

text \<open>
  The lexer never panics and never runs out of fuel. For every operation of the lexer there is a lemma
  in the calculus of \<open>LexerLogic\<close>; the recursion between strings and interpolations is settled by
  induction on the fuel, and the driver gives the theorems about whole sources: termination, the
  order of token spans, the rule for inserted semicolons, the correspondence of errors and error
  tokens, and the rejection of bidirectional control characters.
\<close>

lemma andthen_fail [simp]: "andthen (fail e) g = fail e"
  by (rule ext) (simp add: andthen_def fail_def)

lemma andthen_error [simp]: "andthen (error_from i c msg) g = error_from i c msg"
  by (simp add: error_from_def andthen_assoc)

lemma ok_quiet0:
  assumes "since u cs z s" and "ok u cs m s (\<lambda>_ t. still s t)"
    and "\<And>x t. since u cs z t \<Longrightarrow> pos s \<le> pos t \<Longrightarrow> ok u cs (f x) t R"
  shows "ok u cs (andthen m f) s R"
  by (rule ok_quiet [where R' = "\<lambda>_ _. True", OF assms(1)]) (use assms(2,3) in auto)

section \<open>Comments\<close>

lemma ok_skip_line_comment:
  assumes "lwf u cs s"
  shows "ok u cs skip_line_comment s
    (\<lambda>_ t. still s t \<and> (\<not> is_at_end s \<and> \<not> at_line_end s \<longrightarrow> pos s < pos t))"
  unfolding skip_line_comment_def
  by (rule ok_mono [OF ok_scan_bidi [OF assms]]) auto

lemma ok_lex_line_doc_comment:
  assumes "lwf u cs s" and "\<not> is_at_end s" and "\<not> at_line_end s"
  shows "ok u cs lex_line_doc_comment s (\<lambda>_ t. pos s < pos t)"
  unfolding lex_line_doc_comment_def ok_mark
  by (rule ok_quiet [OF since_refl [OF assms(1)] ok_skip_line_comment [OF assms(1)]])
    (use assms in \<open>auto intro!: ok_push_q simp: is_error_def\<close>)

lemma plain_delims [simp]:
  "plain ''/*''" "plain ''*/''" "plain ''/**''" "plain ''${''" "plain ''$''" "plain ''0x''"
  "plain ''0b''" "plain ''0o''" "plain triple_quote" "plain (CHR ''r'' # triple_quote)"
  "plain [CHR ''r'', QUOTE]" "plain [QUOTE, QUOTE, QUOTE]"
  by (simp_all add: plain_def is_ascii_def triple_quote_def)

lemma ok_block_comment_loop:
  assumes "lwf u cs s"
  shows "ok u cs block_comment_loop s (\<lambda>_ t. still s t)"
  unfolding block_comment_loop_def
proof (rule ok_loop [where I = "\<lambda>_. still s", OF assms still_refl])
  fix d :: nat and t
  assume a: "adv u cs s t" and i: "still s t"
  note w = adv_lwf [OF a]
  let ?R = "\<lambda>r t'. case r of Continue a' \<Rightarrow> still s t' \<and> pos t < pos t' | Break b \<Rightarrow> still s t'"
  have two: "ok u cs (andthen (bump_ascii 2) (\<lambda>_. ret (Continue k))) t ?R"
    if "prefix p (drop (pos t) (source t))" "plain p" "length p = 2" for p and k :: nat
    by (rule ok_bind [OF ok_bump_ascii [OF w that(1,2)]])
      (use that i in \<open>auto simp: adv_lwf ok_retI still_def\<close>)
  show "ok u cs (andthen (get is_at_end) (\<lambda>e.
      if e \<or> d = 0 then ret (Break d)
      else andthen reject_bidi (\<lambda>_.
        andthen (starts_with ''/*'') (\<lambda>open.
        if open then andthen (bump_ascii 2) (\<lambda>_. ret (Continue (d + 1)))
        else andthen (starts_with ''*/'') (\<lambda>close.
          if close then andthen (bump_ascii 2) (\<lambda>_. ret (Continue (d - 1)))
          else andthen bump (\<lambda>_. ret (Continue d))))))) t ?R"
  proof (cases "is_at_end t \<or> d = 0")
    case True
    then show ?thesis using w i by (auto simp: ok_retI)
  next
    case False
    then obtain c where c: "peek t = Some c" using peek_None_iff [OF lwf_cursor [OF w]] by blast
    have "ok u cs (andthen reject_bidi (\<lambda>_.
        andthen (starts_with ''/*'') (\<lambda>open.
        if open then andthen (bump_ascii 2) (\<lambda>_. ret (Continue (d + 1)))
        else andthen (starts_with ''*/'') (\<lambda>close.
          if close then andthen (bump_ascii 2) (\<lambda>_. ret (Continue (d - 1)))
          else andthen bump (\<lambda>_. ret (Continue d)))))) t ?R"
    proof (rule ok_bind [OF ok_reject_bidi [OF w]])
      fix x :: unit and r
      assume r: "r = t \<and> (\<forall>c. peek t = Some c \<longrightarrow> \<not> is_bidi_control c)"
      have "ok u cs (andthen bump (\<lambda>_. ret (Continue d))) t ?R"
        by (rule ok_bind [OF ok_bump [OF w c]])
          (use r c i in \<open>auto simp: adv_lwf ok_retI still_def\<close>)
      then show "ok u cs (andthen (starts_with ''/*'') (\<lambda>open.
        if open then andthen (bump_ascii 2) (\<lambda>_. ret (Continue (d + 1)))
        else andthen (starts_with ''*/'') (\<lambda>close.
          if close then andthen (bump_ascii 2) (\<lambda>_. ret (Continue (d - 1)))
          else andthen bump (\<lambda>_. ret (Continue d))))) r ?R"
        using r w by (auto simp: ok_starts_with two)
    qed
    then show ?thesis using False by simp
  qed
qed

lemma ok_skip_block_comment:
  assumes "lwf u cs s" and "prefix ''/*'' (drop (pos s) (source s))"
  shows "ok u cs skip_block_comment s (\<lambda>_ t. pos s < pos t)"
  unfolding skip_block_comment_def ok_mark
  apply (rule ok_quiet [OF since_refl [OF assms(1)] ok_bump_ascii [OF assms]], simp, simp)
  apply (rule ok_quiet0 [OF _ ok_block_comment_loop [OF since_lwf]], assumption+)
  by (auto intro!: ok_error_q intro: ok_ret_q)

lemma ok_lex_block_doc_comment:
  assumes "lwf u cs s" and "prefix ''/**'' (drop (pos s) (source s))"
  shows "ok u cs lex_block_doc_comment s (\<lambda>_ t. pos s < pos t)"
  unfolding lex_block_doc_comment_def ok_mark
  apply (rule ok_quiet [OF since_refl [OF assms(1)] ok_bump_ascii [OF assms]], simp, simp)
  apply (rule ok_quiet0 [OF _ ok_block_comment_loop [OF since_lwf]], assumption+)
  by (auto intro!: ok_error_q ok_push_q simp: is_error_def)

section \<open>Semicolons and white space\<close>

lemma can_end_statement_eq: "can_end_statement k = Some (flag_can_end k)"
  and prevents_semicolon_before_eq: "prevents_semicolon_before k = Some (flag_prevents k)"
  by (simp_all add: can_end_statement_def prevents_semicolon_before_def flags_of_eq)

lemma unwrap_Some [simp]: "unwrap (Some x) = ret x"
  by (simp add: unwrap_def)

definition may_insert :: "lexer \<Rightarrow> bool" where
  "may_insert s \<longleftrightarrow> (\<exists>k. prev_significant s = Some k \<and> flag_can_end k)"

lemma ok_can_insert: "ok u cs (andthen can_insert g) s R \<longleftrightarrow> ok u cs (g (may_insert s)) s R"
  by (cases "prev_significant s")
    (simp_all add: can_insert_def may_insert_def andthen_assoc can_end_statement_eq)

lemma ok_maybe_insert:
  assumes "lwf u cs s" and "marked u a s"
  shows "ok u cs (maybe_insert_semicolon_at u (span_new 0 (of_nat a) (of_nat a)) b) s
    (\<lambda>_ t. pos t = pos s)"
proof -
  have push: "ok u cs (push_token (Pn Semicolon) (span_new 0 (of_nat a) (of_nat a)) True) s
      (\<lambda>_ t. pos t = pos s)" if "may_insert s"
    by (rule ok_mono [OF ok_push_token [OF assms(1), of a a]])
      (use assms(2) that in \<open>auto simp: marked_def pushable_def may_insert_def is_error_def\<close>)
  show ?thesis using assms(1)
    by (auto simp: maybe_insert_semicolon_at_def ok_can_insert ok_retI push andthen_assoc
        prevents_semicolon_before_eq split: option.splits)
qed

lemma ok_modify: "adv u cs s (g s) \<Longrightarrow> ok u cs (modify g) s (\<lambda>_ t. t = g s)"
  by (simp add: ok_def)

lemma slice_takeWhile: "slice xs i (i + length (takeWhile P (drop i xs))) = takeWhile P (drop i xs)"
  by (simp add: slice_def takeWhile_eq_take [symmetric])

lemma nth_slice: "j < n \<Longrightarrow> i + n \<le> length xs \<Longrightarrow> xs ! (i + j) = slice xs i (i + n) ! j"
  by (simp add: slice_def)

lemma ws_ascii: "is_ws b \<Longrightarrow> is_ascii b"
  by (auto simp: is_ws_def is_ascii_def)

lemma takeWhile_list_all: "list_all P (takeWhile P xs)"
  by (auto simp: list_all_iff dest: set_takeWhileD)

text \<open>The offset of the first line break of a run of white space, before its carriage return if it has one.\<close>

lemma position_of_Some: "position_of c xs = Some i \<Longrightarrow> i < length xs \<and> xs ! i = c"
  by (auto simp: position_of_def find_Some_iff)

lemma position_of_ex: "c \<in> set xs \<Longrightarrow> \<exists>i. position_of c xs = Some i"
  by (cases "position_of c xs") (auto simp: position_of_def find_None_iff in_set_conv_nth)

lemma ok_skip_whitespace:
  assumes "lwf u cs s"
  shows "ok u cs (skip_whitespace u b) s (\<lambda>_ t. pos t = pos s \<longrightarrow> t = s)"
proof -
  define ws where "ws = takeWhile is_ws (drop (pos s) (source s))"
  have sl: "slice (source s) (pos s) (pos s + length ws) = ws"
    unfolding ws_def by (rule slice_takeWhile)
  have len: "pos s + length ws \<le> length (source s)"
    using length_takeWhile_le [of is_ws "drop (pos s) (source s)"] cursorD [OF lwf_cursor [OF assms]]
    by (simp add: ws_def)
  have asc: "list_all is_ascii (slice (source s) (pos s) (pos s + length ws))"
    unfolding sl unfolding ws_def using takeWhile_list_all ws_ascii by (auto simp: list_all_iff dest: set_takeWhileD)
  have move: "adv u cs s t" if "still s t" "pos t = pos s + length ws" "line t = line s + count_list ws NL" for t
    using move_ascii [OF assms len asc that(1,2)] that(3) sl by simp
  have tk: "take (length ws) (drop (pos s) (source s)) = ws"
    unfolding ws_def by (simp add: takeWhile_eq_take [symmetric])
  have run: "ok u cs (skip_whitespace u b) s R \<longleftrightarrow> ok u cs
      (if length ws = 0 then ret ()
       else if count_list ws NL > 0 then
         (let offset = (case position_of NL ws of Some i \<Rightarrow> i | None \<Rightarrow> 0);
              offset = (if offset > 0 \<and> drop (pos s) (source s) ! (offset - 1) = CR then offset - 1 else offset)
          in andthen (get (\<lambda>s. span_new 0 (of_nat (pos s + offset)) (of_nat (pos s + offset)))) (\<lambda>sp.
             andthen (modify (\<lambda>s. s\<lparr>pos := pos s + length ws, line := line s + count_list ws NL,
                                   col := (case last_nl_in 0 ws None of Some i \<Rightarrow> length ws - i
                                                         | None \<Rightarrow> col s + length ws)\<rparr>)) (\<lambda>_.
             maybe_insert_semicolon_at u sp b)))
       else modify (\<lambda>s. s\<lparr>pos := pos s + length ws, col := col s + length ws\<rparr>)) s R" for R
    unfolding skip_whitespace_def ok_bytes_from [OF assms] ok_get backend_skip_whitespace_scalar
      scalar_skip_whitespace_spec ws_def [symmetric] Let_def prod.case tk ..
  show ?thesis
  proof (cases "count_list ws NL > 0")
    case False
    show ?thesis
    proof (cases "ws = []")
      case True
      then show ?thesis using assms unfolding run by (simp add: ok_retI)
    next
      case ne: False
      let ?t = "s\<lparr>pos := pos s + length ws, col := col s + length ws\<rparr>"
      have "adv u cs s ?t" using False by (intro move) (simp_all add: still_def)
      then show ?thesis unfolding run using ne False
        by (simp add: ok_mono [OF ok_modify])
    qed
  next
    case True
    then have "NL \<in> set ws" using count_list_0_iff by force
    then obtain i where i: "position_of NL ws = Some i" using position_of_ex by blast
    define j where "j = (if i > 0 \<and> drop (pos s) (source s) ! (i - 1) = CR then i - 1 else i)"
    have j: "j < length ws" using position_of_Some [OF i] by (auto simp: j_def)
    let ?f = "\<lambda>s. s\<lparr>pos := pos s + length ws, line := line s + count_list ws NL,
        col := (case last_nl_in 0 ws None of Some i \<Rightarrow> length ws - i | None \<Rightarrow> col s + length ws)\<rparr>"
    have st: "still s (?f s)" by (simp add: still_def)
    have ad: "adv u cs s (?f s)" using st by (intro move) simp_all
    have "source s ! (pos s + j) = ws ! j" using sl j len by (metis nth_slice)
    then have "is_ascii (source s ! (pos s + j))" using asc j unfolding sl by (simp add: list_all_length)
    then have "is_char_boundary (source s) (pos s + j)"
      using ascii_boundary(1) [of cs "pos s + j"] cursorD [OF lwf_cursor [OF assms]] j len by simp
    moreover have "toks_upto u (?f s) (pos s + j)"
      using upto_still [OF st] upto_mono [OF lwf_upto [OF assms]] by simp
    ultimately have "marked u (pos s + j) (?f s)" using j by (simp add: marked_def)
    then have "ok u cs (maybe_insert_semicolon_at u
        (span_new 0 (of_nat (pos s + j)) (of_nat (pos s + j))) b) (?f s) (\<lambda>_ t. pos t = pos (?f s))"
      by (rule ok_maybe_insert [OF adv_lwf [OF ad]])
    then have "ok u cs (andthen (modify ?f) (\<lambda>_. maybe_insert_semicolon_at u
        (span_new 0 (of_nat (pos s + j)) (of_nat (pos s + j))) b)) s (\<lambda>_ t. pos t = pos s \<longrightarrow> t = s)"
      using j by (intro ok_bind [OF ok_modify [where g = ?f, OF ad]]) (auto elim!: ok_mono)
    moreover have "ws \<noteq> []" using j by auto
    ultimately show ?thesis unfolding run using True i
      by (simp add: Let_def j_def split del: if_split)
  qed
qed

section \<open>Identifiers and operators\<close>

lemma keyword_arms_plain: "list_all (\<lambda>(w, k). \<not> is_error k \<and> k \<noteq> Eof) keyword_arms"
  by (simp add: keyword_arms_def is_error_def)

lemma keyword_kind_plain: "keyword_kind w = Some k \<Longrightarrow> \<not> is_error k \<and> k \<noteq> Eof"
  using keyword_arms_plain by (auto simp: keyword_kind_def list_all_iff dest!: map_of_SomeD)

lemma keyword_arms_text:
  "list_all (\<lambda>(w, k). kind_text u k v = (keyword_kind v = Some k)) keyword_arms"
  by (simp add: keyword_arms_def)

lemma keyword_kind_text: "keyword_kind w = Some k \<Longrightarrow> kind_text u k w"
  using keyword_arms_text [of u w] by (auto simp: keyword_kind_def list_all_iff dest!: map_of_SomeD)

lemma prefix_arms_plain:
  "list_all (\<lambda>(p, k, n). plain p \<and> n = length p \<and> 0 < n \<and> \<not> is_error k \<and> k \<noteq> Eof) prefix_arms"
  by (simp add: prefix_arms_def plain_def is_ascii_def is_error_def)

lemma token_kind_from_prefix_plain:
  assumes "token_kind_from_prefix bytes = Some (k, n)"
  obtains p where "prefix p bytes" and "plain p" and "n = length p" and "0 < n"
    and "\<not> is_error k" and "k \<noteq> Eof"
proof -
  obtain p where f: "find (\<lambda>(p, _). prefix p bytes) prefix_arms = Some (p, k, n)"
    using assms by (auto simp: token_kind_from_prefix_def)
  then obtain i where "i < length prefix_arms" "prefix_arms ! i = (p, k, n)" "prefix p bytes"
    by (auto simp: find_Some_iff)
  then have "prefix p bytes" "(p, k, n) \<in> set prefix_arms" by (auto simp: in_set_conv_nth)
  then show ?thesis using prefix_arms_plain that by (auto simp: list_all_iff)
qed

lemma prefix_arms_text:
  "list_all (\<lambda>(p, k, n). kind_text u k v = (token_kind_from_prefix v = Some (k, length v))) prefix_arms"
  by (simp add: prefix_arms_def)

lemma find_prefix_again:
  fixes arms :: "(string \<times> token_kind \<times> nat) list"
  shows "find (\<lambda>(p, _). prefix p bytes) arms = Some (p, k, n) \<Longrightarrow>
    find (\<lambda>(q, _). prefix q p) arms = Some (p, k, n)"
proof (induction arms)
  case (Cons a arms)
  have "prefix p bytes" using iffD1 [OF find_Some_iff Cons.prems] by auto
  then have "prefix (fst a) p \<Longrightarrow> prefix (fst a) bytes" using prefix_order.trans by blast
  then show ?case using Cons by (auto split: if_splits prod.splits)
qed simp

lemma token_kind_from_prefix_text:
  assumes "token_kind_from_prefix bytes = Some (k, n)"
  shows "kind_text u k (take n bytes)"
proof -
  obtain p where f: "find (\<lambda>(p, _). prefix p bytes) prefix_arms = Some (p, k, n)"
    using assms by (auto simp: token_kind_from_prefix_def)
  then obtain i where "i < length prefix_arms" "prefix_arms ! i = (p, k, n)" and p: "prefix p bytes"
    by (auto simp: find_Some_iff)
  then have arm: "(p, k, n) \<in> set prefix_arms" by (auto simp: in_set_conv_nth)
  then have n: "n = length p" using prefix_arms_plain by (auto simp: list_all_iff)
  have "take n bytes = p" using p n by (auto simp: prefix_def)
  moreover have "token_kind_from_prefix p = Some (k, n)"
    using find_prefix_again [OF f] by (simp add: token_kind_from_prefix_def)
  ultimately show ?thesis
    using prefix_arms_text [of u p] arm n by (auto simp: list_all_iff)
qed

text \<open>A run of characters that continue an identifier is one for \<open>identifier_kind\<close> too.\<close>

lemma slice_split: "a \<le> b \<Longrightarrow> b \<le> c \<Longrightarrow> slice xs a c = slice xs a b @ slice xs b c"
  using take_add [of "b - a" "c - b" "drop a xs"] by (simp add: slice_def)

lemma boundary_slice:
  assumes "scalars cs" and "is_char_boundary (utf8 cs) a" and "is_char_boundary (utf8 cs) b" and "a \<le> b"
  obtains xs ys zs where "cs = xs @ ys @ zs" and "a = length (utf8 xs)" and "b = length (utf8 (xs @ ys))"
    and "slice (utf8 cs) a b = utf8 ys"
proof -
  obtain xs ws where x: "cs = xs @ ws" "a = length (utf8 xs)"
    using is_char_boundary_split [OF assms(1,2)] by blast
  have w: "scalars ws" using assms(1) x(1) by simp
  have "is_char_boundary (utf8 ws) (b - a)"
    using assms(3,4) x by (auto simp: is_char_boundary_def nth_append)
  then obtain ys zs where y: "ws = ys @ zs" "b - a = length (utf8 ys)"
    using is_char_boundary_split [OF w] by blast
  show ?thesis using assms(4) x y by (intro that [of xs ys zs]) (auto simp: slice_def)
qed

lemma ident_end_all:
  assumes "scalars (xs @ ys)" and "\<forall>c\<in>set ys. is_ident_continue u c"
  shows "ident_end u (utf8 (xs @ ys)) (length (utf8 xs)) = length (utf8 (xs @ ys))"
  using assms
proof (induction ys arbitrary: xs)
  case Nil
  then show ?case by (subst ident_end.simps) (simp add: next_char_def)
next
  case (Cons c ys)
  have "ident_end u (utf8 ((xs @ [c]) @ ys)) (length (utf8 (xs @ [c]))) = length (utf8 ((xs @ [c]) @ ys))"
    using Cons.prems by (intro Cons.IH) auto
  moreover have "next_char (drop (length (utf8 xs)) (utf8 (xs @ c # ys))) = Some c"
    using Cons.prems(1) next_char_utf8_char [of c] by simp
  ultimately show ?case using Cons.prems
    by (subst ident_end.simps) (simp add: length_utf8_char)
qed

lemma uppercase_lead:
  assumes "is_scalar c"
  shows "is_ascii_uppercase (cp (hd (utf8_char c))) = is_ascii_uppercase c"
proof (cases "c < 128")
  case True
  then show ?thesis by (simp add: utf8_char_def)
next
  case False
  have "c < 0x110000" using assms by (auto simp: is_scalar_def)
  then have "c div 262144 < 8" by (simp add: div_less_iff_less_mult)
  moreover have "c < 0x800 \<Longrightarrow> c div 64 < 32" "c < 0x10000 \<Longrightarrow> c div 4096 < 16"
    by (simp_all add: div_less_iff_less_mult)
  ultimately show ?thesis using False
    by (auto simp: utf8_char_def is_ascii_uppercase_def in_range_def)
qed

lemma identifier_text:
  assumes "scalars cs" and "is_char_boundary (utf8 cs) a" and "is_char_boundary (utf8 cs) b"
    and "next_char (drop a (utf8 cs)) = Some c" and "is_ident_start u c" and "a + len_utf8 c \<le> b"
    and "chars_all (is_ident_continue u) (utf8 cs) (a + len_utf8 c) b"
    and "w = slice (utf8 cs) a b" and "keyword_kind w = None"
  shows "identifier_kind u w =
    Some (if w \<noteq> [] \<and> is_ascii_uppercase (cp (hd w)) then Lit IdentType else Lit IdentValue)"
proof -
  note B = boundary_next [OF assms(1,2,4)]
  obtain xs ys zs where x: "cs = xs @ ys @ zs" "a + len_utf8 c = length (utf8 xs)" "b = length (utf8 (xs @ ys))"
    "slice (utf8 cs) (a + len_utf8 c) b = utf8 ys"
    by (rule boundary_slice [OF assms(1) B(1) assms(3,6)])
  have w: "w = utf8_char c @ utf8 ys"
    using slice_split [of a "a + len_utf8 c" b "utf8 cs"] assms(6,8) x(4) B(3) by simp
  have sc: "is_scalar c" using B(4) assms(1) by (simp add: list_all_iff)
  have "is_ident_continue u d" if mem: "d \<in> set ys" for d
  proof -
    obtain p q where d: "ys = p @ d # q" using split_list [OF mem] by blast
    have "next_char (drop (length (utf8 (xs @ p))) (utf8 cs)) = Some d"
      using x(1) d assms(1) next_char_utf8_char [of d] by simp
    moreover have "is_char_boundary (utf8 cs) (length (utf8 (xs @ p)))"
      using is_char_boundary_prefix [of "xs @ p" "d # q @ zs"] x(1) d assms(1) by simp
    moreover have "length (utf8 (xs @ p)) < b" using x(3) d by (simp add: length_utf8_char)
    moreover have "a + len_utf8 c \<le> length (utf8 (xs @ p))" using x(2) by simp
    ultimately show ?thesis using assms(7) unfolding chars_all_def by blast
  qed
  then have "ident_end u (utf8 ([c] @ ys)) (length (utf8 [c])) = length (utf8 ([c] @ ys))"
    using assms(1) x(1) sc by (intro ident_end_all) auto
  then show ?thesis
    using w assms(5,9) sc uppercase_lead [OF sc]
    by (simp add: identifier_kind_def next_char_utf8_char length_utf8_char hd_append)
qed

lemma ident_not_bidi:
  assumes "unicode_sane u" and "is_ident_start u c \<or> is_ident_continue u c"
  shows "\<not> is_bidi_control c"
proof
  assume b: "is_bidi_control c"
  then have "\<not> c < 128" using bidi_not_ascii by force
  then have "is_xid_start u c \<or> is_xid_continue u c"
    using assms(2) by (auto simp: is_ident_start_def is_ident_continue_def)
  then show False using assms(1) b by (auto simp: unicode_sane_def)
qed

lemma ok_slice_from:
  "lwf u cs s \<Longrightarrow> marked u i s \<Longrightarrow>
   ok u cs (andthen (slice_from i) g) s R \<longleftrightarrow> ok u cs (g (slice (source s) i (pos s))) s R"
  by (simp add: slice_from_def andthen_assoc str_get_def marked_def lwf_boundary)

lemma ok_scan_ident:
  assumes "lwf u cs s"
  shows "ok u cs (while_lx (get (\<lambda>s. case peek s of Some ch \<Rightarrow> is_ident_continue u ch | None \<Rightarrow> False))
      (andthen bump (\<lambda>_. ret ()))) s
    (\<lambda>_ t. still s t \<and> chars_all (is_ident_continue u) (source s) (pos s) (pos t))"
proof (rule ok_while [where I = "\<lambda>t. still s t \<and> chars_all (is_ident_continue u) (source s) (pos s) (pos t)"])
  fix t
  assume a: "adv u cs s t" and i: "still s t \<and> chars_all (is_ident_continue u) (source s) (pos s) (pos t)"
  note w = adv_lwf [OF a]
  note D = cursorD [OF lwf_cursor [OF w]]
  let ?R = "\<lambda>r t'. case r of
      Continue _ \<Rightarrow> (still s t' \<and> chars_all (is_ident_continue u) (source s) (pos s) (pos t')) \<and> pos t < pos t'
    | Break b \<Rightarrow> still s t' \<and> chars_all (is_ident_continue u) (source s) (pos s) (pos t')"
  have step: "ok u cs (andthen bump (\<lambda>_. ret (Continue ()))) t ?R"
    if c: "peek t = Some c" "is_ident_continue u c" for c
  proof (rule ok_bind [OF ok_bump [OF w c(1)]], goal_cases)
    case 1
    then show ?case using ident_not_bidi c(2) by blast
  next
    case (2 x r)
    have "chars_all (is_ident_continue u) (source s) (pos t) (pos r)"
      using chars_all_char [of cs "pos t" c "is_ident_continue u"] D c 2 i peek_cursor [OF lwf_cursor [OF w]]
      by (simp add: still_def)
    then show ?case using 2 i by (auto simp: adv_lwf still_def intro!: ok_retI intro: chars_all_trans)
  qed
  show "ok u cs (andthen (get (\<lambda>s. case peek s of Some ch \<Rightarrow> is_ident_continue u ch | None \<Rightarrow> False))
      (\<lambda>c. if c then andthen (andthen bump (\<lambda>_. ret ())) (\<lambda>_. ret (Continue ())) else ret (Break ()))) t ?R"
    using step i w by (auto simp: andthen_assoc intro!: ok_retI split: option.splits)
qed (simp_all add: assms)

lemma ok_push_word:
  assumes "lwf u cs s" and "peek s = Some c" and "is_ident_start u c" and "since u cs s r"
    and "pos s + len_utf8 c \<le> pos r"
    and "chars_all (is_ident_continue u) (source s) (pos s + len_utf8 c) (pos r)"
  shows "ok u cs (andthen (slice_from (pos s)) (\<lambda>text.
      let kind = (case keyword_kind text of Some kind \<Rightarrow> kind
                  | None \<Rightarrow> if text \<noteq> [] \<and> is_ascii_uppercase (cp (hd text))
                          then Lit IdentType else Lit IdentValue)
      in push_from kind (pos s))) r (\<lambda>_ t. pos s < pos t)"
proof -
  define word where "word = slice (source r) (pos s) (pos r)"
  note D = cursorD [OF lwf_cursor [OF assms(1)]] and E = cursorD [OF lwf_cursor [OF since_lwf [OF assms(4)]]]
  have n: "next_char (drop (pos s) (utf8 cs)) = Some c"
    using peek_cursor [OF lwf_cursor [OF assms(1)]] assms(2) D by simp
  have "0 < len_utf8 c" by simp
  then have p: "pos s < pos r" using assms(5) by linarith
  have "kind_text u (case keyword_kind word of Some kind \<Rightarrow> kind
      | None \<Rightarrow> if word \<noteq> [] \<and> is_ascii_uppercase (cp (hd word)) then Lit IdentType else Lit IdentValue) word"
    using identifier_text [OF D(1,5) E(5) n assms(3,5)] assms(6) D(2) E(2) keyword_kind_text [of word]
    by (auto simp: word_def split: option.splits)
  then have "ok u cs (push_from (case keyword_kind word of Some kind \<Rightarrow> kind
      | None \<Rightarrow> if word \<noteq> [] \<and> is_ascii_uppercase (cp (hd word)) then Lit IdentType else Lit IdentValue) (pos s))
      r (\<lambda>_ t. pos s < pos t)"
    using keyword_kind_plain [of word] p
    by (intro ok_push_q [OF assms(4)]) (auto simp: is_error_def word_def split: option.splits)
  then show ?thesis
    unfolding ok_slice_from [OF since_lwf [OF assms(4)] since_marked [OF assms(4)]] word_def [symmetric] Let_def .
qed

lemma ok_lex_ident_or_keyword:
  assumes "lwf u cs s" and "peek s = Some c" and "is_ident_start u c"
  shows "ok u cs (lex_ident_or_keyword u) s (\<lambda>_ t. pos s < pos t)"
  unfolding lex_ident_or_keyword_def ok_mark
proof (rule ok_quiet [OF since_refl [OF assms(1)] ok_bump [OF assms(1,2)]], goal_cases)
  case 1
  then show ?case using ident_not_bidi assms(3) by blast
next
  case (2 x t)
  note w = since_lwf [OF 2(1)]
  define ids where "ids = takeWhile (\<lambda>b. ascii_ident (cp b)) (drop (pos t) (source t))"
  have sl: "slice (source t) (pos t) (pos t + length ids) = ids"
    unfolding ids_def by (rule slice_takeWhile)
  have len: "pos t + length ids \<le> length (source t)"
    using length_takeWhile_le [of "\<lambda>b. ascii_ident (cp b)" "drop (pos t) (source t)"]
      cursorD [OF lwf_cursor [OF w]] by (simp add: ids_def)
  have pl: "plain ids"
    unfolding ids_def plain_def list_all_iff
    using ascii_ident_less by (auto dest!: set_takeWhileD simp: is_ascii_def)
      (simp add: ascii_ident_def is_ascii_alphanumeric_def is_ascii_digit_def is_ascii_uppercase_def in_range_def)
  let ?f = "\<lambda>s. s\<lparr>pos := pos s + length ids, col := col s + length ids\<rparr>"
  have st: "still t (?f t)" by (simp add: still_def)
  have ad: "adv u cs t (?f t)"
    by (rule move_ascii [OF w len _ st]) (simp_all add: sl plain_ascii [OF pl] plain_no_NL [OF pl])
  have q: "since u cs s (?f t)" by (rule since_step [OF 2(1) ad st])
  let ?P = "\<lambda>s. case peek s of Some ch \<Rightarrow> is_ident_continue u ch | None \<Rightarrow> False"
  have "is_ident_continue u d" if "p < pos t + length ids" "pos t \<le> p"
    "next_char (drop p (source t)) = Some d" for p d
  proof -
    have "source t ! p = ids ! (p - pos t)"
      using that sl len by (metis (no_types) add_diff_inverse_nat nth_slice less_diff_conv2 add.commute not_le)
    moreover have "ids ! (p - pos t) \<in> set ids" using that by simp
    then have "ascii_ident (cp (ids ! (p - pos t)))" unfolding ids_def by (rule set_takeWhileD [THEN conjunct2])
    ultimately have b: "ascii_ident (cp (source t ! p))" by simp
    then have "cp (source t ! p) < 128" by (rule ascii_ident_less)
    moreover from this have "d = cp (source t ! p)"
      using ascii_next_char [of p "source t"] that len by (simp add: is_ascii_def)
    ultimately show ?thesis using b by (simp add: is_ident_continue_ascii)
  qed
  then have ids: "chars_all (is_ident_continue u) (source t) (pos t) (pos t + length ids)"
    by (auto simp: chars_all_def)
  have "ok u cs (andthen (while_lx (get ?P) (andthen bump (\<lambda>_. ret ()))) (\<lambda>_.
      andthen (slice_from (pos s)) (\<lambda>text.
      let kind = (case keyword_kind text of Some kind \<Rightarrow> kind
                  | None \<Rightarrow> if text \<noteq> [] \<and> is_ascii_uppercase (cp (hd text))
                          then Lit IdentType else Lit IdentValue)
      in push_from kind (pos s)))) (?f t) (\<lambda>_ r. pos s < pos r)"
  proof (rule ok_quiet [OF q ok_scan_ident [OF since_lwf [OF q]]], goal_cases)
    case (1 y r)
    have "pos s + len_utf8 c \<le> pos r" using 1 2 by simp
    moreover have "chars_all (is_ident_continue u) (source s) (pos s + len_utf8 c) (pos r)"
      using chars_all_trans [OF ids] 1(2) 2(2) since_source [OF 2(1)] by simp
    ultimately show ?case
      by (intro ok_push_word [OF assms 1(1)]) simp_all
  qed
  then show ?case
    unfolding ok_bytes_from [OF w] ok_get backend_scan_identifier_scalar scalar_scan_identifier_spec
      ids_def [symmetric] Let_def
    by (intro ok_bind [OF ok_modify [where g = ?f, OF ad]]) auto
qed

lemma ok_lex_operator_or_punctuation:
  assumes "lwf u cs s" and "\<not> is_at_end s"
  shows "ok u cs lex_operator_or_punctuation s (\<lambda>_ t. pos s < pos t)"
proof (cases "token_kind_from_prefix (drop (pos s) (source s))")
  case None
  obtain c where "peek s = Some c" using peek_None_iff [OF lwf_cursor [OF assms(1)]] assms(2) by blast
  then show ?thesis using None assms
    by (simp add: lex_operator_or_punctuation_def ok_bytes_from ok_bump_error marked_self)
next
  case (Some kn)
  obtain k n where kn: "kn = (k, n)" by (cases kn)
  obtain p where p: "prefix p (drop (pos s) (source s))" "plain p" "n = length p" "0 < n"
    "\<not> is_error k" "k \<noteq> Eof"
    using token_kind_from_prefix_plain Some kn by metis
  have "ok u cs (andthen (bump_ascii n) (\<lambda>_. push_from k (pos s))) s (\<lambda>_ t. pos s < pos t)"
    by (rule ok_quiet [OF since_refl [OF assms(1)] ok_bump_ascii [OF assms(1) p(1-3)]])
      (use p token_kind_from_prefix_text [OF Some [unfolded kn], of u] in
        \<open>auto intro!: ok_push_q simp: slice_def since_source\<close>)
  then show ?thesis using Some kn assms by (simp add: lex_operator_or_punctuation_def ok_bytes_from)
qed

section \<open>Numbers\<close>

lemma peek_is_char:
  "peek_is P t \<Longrightarrow> (\<And>c. P c \<Longrightarrow> c < 128) \<Longrightarrow>
   \<exists>c. peek t = Some c \<and> (unicode_sane u \<longrightarrow> \<not> is_bidi_control c)"
  using bidi_not_ascii by (fastforce simp: peek_is_def split: option.splits)

lemma ascii_classes:
  "is_digit c \<Longrightarrow> c < 128" "is_ascii_hexdigit c \<Longrightarrow> c < 128" "is_ascii_alphanumeric c \<Longrightarrow> c < 128"
  by (auto simp: is_digit_def is_ascii_hexdigit_def is_ascii_alphanumeric_def is_ascii_digit_def
      is_ascii_uppercase_def in_range_def)

lemma ok_bump_digits:
  assumes "lwf u cs s"
  shows "ok u cs bump_digits_or_underscores s
    (\<lambda>_ t. still s t \<and> (peek_is is_digit s \<longrightarrow> pos s < pos t))"
  unfolding bump_digits_or_underscores_def
proof (rule ok_mono [OF ok_scan [OF assms]], goal_cases)
  case (1 t)
  then show ?case by (elim peek_is_char) (auto dest: ascii_classes)
qed (auto simp: peek_is_def split: option.splits)

lemma since_still2: "since u cs z s \<Longrightarrow> since u cs z t \<Longrightarrow> still s t"
  by (simp add: since_def still_def)

lemma ok_check_underscores:
  "since u cs z s \<Longrightarrow> ok u cs (check_underscores (pos z) text) s (\<lambda>_ t. still s t \<and> t = s)"
  by (auto simp: check_underscores_def intro!: ok_error_q intro: ok_ret_q)

lemma ok_check_not_ident:
  "since u cs z s \<Longrightarrow> ok u cs (check_not_ident u (pos z)) s (\<lambda>_ t. still s t \<and> t = s)"
  by (auto simp: check_not_ident_def intro!: ok_error_q intro: ok_ret_q)

lemma ascii_not_bidi: "c < 128 \<Longrightarrow> \<not> is_bidi_control c"
  using bidi_not_ascii by force

lemma ok_bump_ascii_char:
  assumes "since u cs z s" and "peek s = Some c" and "c < 128"
    and "\<And>x t. since u cs z t \<Longrightarrow> pos t = Suc (pos s) \<Longrightarrow> source t = source s \<Longrightarrow> ok u cs (f x) t R"
  shows "ok u cs (andthen bump f) s R"
  by (rule ok_quiet [OF assms(1) ok_bump [OF since_lwf [OF assms(1)] assms(2)]])
    (use assms(3,4) ascii_not_bidi in \<open>auto simp: len_utf8_def adv_source\<close>)

lemma peek_isD: "peek_is P s \<Longrightarrow> \<exists>c. peek s = Some c \<and> P c"
  by (simp add: peek_is_def split: option.splits)

lemma ok_lex_radix_number:
  assumes "lwf u cs s" and "prefix p (drop (pos s) (source s))" and "plain p" and "length p = 2"
  shows "ok u cs (lex_radix_number u (pos s) r) s (\<lambda>_ t. pos s < pos t)"
  unfolding lex_radix_number_def
proof (rule ok_quiet [OF since_refl [OF assms(1)] ok_bump_ascii [OF assms(1-3)]], goal_cases)
  case 1
  then show ?case using assms(4) by simp
next
  case (2 x t)
  let ?P = "peek_is (\<lambda>ch. is_ascii_alphanumeric ch \<or> ch = cp CHR ''_'')"
  have loop: "ok u cs (while_lx (get ?P)
      (andthen (get (peek_is (is_valid_digit r))) (\<lambda>valid.
        if \<not> valid then error_from (pos s) (invalid_digit_code r) ''invalid digit for numeric literal''
        else andthen bump (\<lambda>_. ret ())))) t (\<lambda>_ r. still t r)"
  proof (rule ok_while [where I = "still t", OF since_lwf [OF 2(1)] still_refl], goal_cases)
    case (1 r)
    have q: "since u cs s r" by (rule since_step [OF 2(1) 1])
    show ?case
    proof (cases "?P r")
      case True
      then obtain c where c: "peek r = Some c" "c < 128"
        using peek_isD [OF True] ascii_classes(3) by auto
      have "ok u cs (andthen bump (\<lambda>_. ret (Continue () :: (unit, unit) loop))) r (\<lambda>x t'. case x of
          Continue _ \<Rightarrow> still t t' \<and> pos r < pos t' | Break b \<Rightarrow> still t t')"
        by (rule ok_bump_ascii_char [OF q c]) (use since_still2 [OF 2(1)] in \<open>auto intro!: ok_retI since_lwf\<close>)
      then show ?thesis using True by (simp add: andthen_assoc ok_error_q [OF q])
    next
      case False
      then show ?thesis using 1 by (simp add: ok_retI adv_lwf)
    qed
  qed
  show ?case unfolding ok_get
  proof (rule ok_quiet0 [OF 2(1) loop], goal_cases)
    case (1 y r)
    then have "pos s < pos r" using 2 by simp
    then show ?case using 1
      by (auto simp: ok_slice_from since_lwf since_marked radix_token_kind_def is_error_def
          intro!: ok_error_q ok_quiet [OF _ ok_check_underscores] ok_quiet [OF _ ok_check_not_ident] ok_push_q
          split: radix.splits)
  qed
qed

lemma ok_peek_next:
  "lwf u cs s \<Longrightarrow> (\<And>d. ok u cs (g d) s R) \<Longrightarrow> ok u cs (andthen peek_next g) s R"
proof -
  assume w: "lwf u cs s" and g: "\<And>d. ok u cs (g d) s R"
  have "str_from (pos s) s = (Done (drop (pos s) (source s)), s)"
    using lwf_boundary [OF w] by (simp add: str_from_def)
  then have "\<exists>d. peek_next s = (Done d, s)"
    by (auto simp: peek_next_def andthen_def get_def ret_def split: option.splits)
  then obtain d where "peek_next s = (Done d, s)" by blast
  then show ?thesis using g [of d] by (simp add: ok_def wp_def andthen_def)
qed

lemma ok_digits_then:
  "since u cs z s \<Longrightarrow> (\<And>t. since u cs z t \<Longrightarrow> pos s \<le> pos t \<Longrightarrow> R x t) \<Longrightarrow>
   ok u cs (andthen bump_digits_or_underscores (\<lambda>_. ret x)) s R"
  by (rule ok_quiet [OF _ ok_bump_digits [OF since_lwf]]) (auto intro: ok_ret_q)

lemma ok_lex_fraction:
  assumes "since u cs z s"
  shows "ok u cs (lex_fraction (pos z)) s (\<lambda>_ t. still s t)"
proof (cases "peek s = Some (cp CHR ''.'')")
  case True
  have dot: "ok u cs (andthen bump (\<lambda>_. andthen (get (peek_is is_digit)) (\<lambda>digit.
      if \<not> digit then error_from (pos z) InvalidNumericLiteral ''expected digit after decimal point''
      else andthen bump_digits_or_underscores (\<lambda>_. ret True)))) s (\<lambda>_ t. still s t)"
    by (rule ok_bump_ascii_char [OF assms True])
      (use assms since_still2 in \<open>auto intro!: ok_error_q ok_digits_then\<close>)
  show ?thesis unfolding lex_fraction_def ok_get using True dot assms
    by (auto intro!: ok_peek_next simp: since_lwf ok_retI)
next
  case False
  then show ?thesis unfolding lex_fraction_def using assms by (simp add: ok_retI since_lwf)
qed

lemma ok_lex_exponent:
  assumes "since u cs z s"
  shows "ok u cs (lex_exponent (pos z)) s (\<lambda>_ t. still s t)"
proof (cases "peek_is (\<lambda>c. c = cp CHR ''e'' \<or> c = cp CHR ''E'') s")
  case True
  then obtain c where c: "peek s = Some c" "c < 128" using peek_isD [OF True] by auto
  have tail: "ok u cs (andthen (get (peek_is is_digit)) (\<lambda>digit.
      if \<not> digit then error_from (pos z) InvalidNumericLiteral ''expected digit in float exponent''
      else andthen bump_digits_or_underscores (\<lambda>_. ret True))) t (\<lambda>_ t. still s t)"
    if "since u cs z t" for t
    using that assms since_still2 by (auto intro!: ok_error_q ok_digits_then)
  have body: "ok u cs (andthen (get (peek_is (\<lambda>c. c = cp CHR ''+'' \<or> c = cp CHR ''-''))) (\<lambda>sign.
        andthen (if sign then andthen bump (\<lambda>_. ret ()) else ret ()) (\<lambda>_.
        andthen (get (peek_is is_digit)) (\<lambda>digit.
        if \<not> digit
        then error_from (pos z) InvalidNumericLiteral ''expected digit in float exponent''
        else andthen bump_digits_or_underscores (\<lambda>_. ret True))))) t (\<lambda>_ t. still s t)"
    if t: "since u cs z t" for t
  proof (cases "peek_is (\<lambda>c. c = cp CHR ''+'' \<or> c = cp CHR ''-'') t")
    case True
    then obtain d where "peek t = Some d" "d < 128" using peek_isD [OF True] by auto
    then show ?thesis unfolding ok_get using True
      by (simp only: if_True andthen_assoc andthen_ret) (rule ok_bump_ascii_char [OF t], assumption+, rule tail)
  qed (use tail [OF t] in simp)
  show ?thesis unfolding lex_exponent_def ok_get using True
    by (simp only: if_True) (rule ok_bump_ascii_char [OF assms c], rule body)
next
  case False
  then show ?thesis unfolding lex_exponent_def using assms by (simp add: ok_retI since_lwf)
qed

lemma ok_lex_number:
  assumes "lwf u cs s" and "peek_is is_digit s"
  shows "ok u cs (lex_number u) s (\<lambda>_ t. pos s < pos t)"
proof -
  have dec: "ok u cs (andthen bump_digits_or_underscores (\<lambda>_.
    andthen (lex_fraction (pos s)) (\<lambda>fraction.
    andthen (lex_exponent (pos s)) (\<lambda>exponent.
    let is_float = fraction \<or> exponent in
    andthen (slice_from (pos s)) (\<lambda>text.
    andthen (check_underscores (pos s) text) (\<lambda>_.
    if \<not> is_float \<and> length text > 1 \<and> prefix ''0'' text
    then error_from (pos s) LeadingZero ''decimal literals cannot have leading zeroes''
    else andthen (check_not_ident u (pos s)) (\<lambda>_.
      push_from (if is_float then Lit Float else Lit IntDec) (pos s)))))))) s (\<lambda>_ t. pos s < pos t)"
    apply (rule ok_quiet [OF since_refl [OF assms(1)] ok_bump_digits [OF assms(1)]])
    apply (rule ok_quiet0 [OF _ ok_lex_fraction], assumption+)
    apply (rule ok_quiet0 [OF _ ok_lex_exponent], assumption+)
    unfolding Let_def ok_slice_from [OF since_lwf since_marked]
    apply (rule ok_quiet [OF _ ok_check_underscores], assumption+)
    using assms(2)
    by (auto intro!: ok_error_q ok_quiet [OF _ ok_check_not_ident] ok_push_q simp: is_error_def)
  show ?thesis
    unfolding lex_number_def ok_mark using assms(1) dec
    by (auto simp: ok_starts_with intro!: ok_lex_radix_number)
qed

section \<open>Escapes, characters and byte literals\<close>

lemma ok_bump_hex_digits:
  assumes "lwf u cs s"
  shows "ok u cs bump_hex_digits s
    (\<lambda>_ t. still s t \<and> (pos t \<noteq> pos s \<longrightarrow> peek_is is_ascii_hexdigit s))"
  unfolding bump_hex_digits_def
proof (rule ok_mono [OF ok_scan [OF assms]], goal_cases)
  case (1 t)
  then show ?case by (elim peek_is_char) (auto dest: ascii_classes)
qed auto

lemma peek_byte: "cursor cs s \<Longrightarrow> peek s = Some c \<Longrightarrow> c < 128 \<Longrightarrow>
   pos s < length (source s) \<and> is_ascii (source s ! pos s)"
  using next_char_ascii_iff [of cs "pos s" c] cursorD [of cs s] peek_cursor [of cs s] peek_SomeD [of cs s c]
  by simp

lemma ok_if:
  "(b \<Longrightarrow> ok u cs m s R) \<Longrightarrow> (\<not> b \<Longrightarrow> ok u cs m' s R) \<Longrightarrow> ok u cs (if b then m else m') s R"
  by simp

lemma str_get_inner:
  assumes "z + 3 < v" and "v < length src" and "is_ascii (src ! (z + 3))" and "is_ascii (src ! v)"
  shows "\<exists>h. str_get (slice src z (Suc v)) 3 (length (slice src z (Suc v)) - 1) = Some h"
proof -
  have len: "length (slice src z (Suc v)) = Suc v - z" using assms by (simp add: slice_def)
  have nth: "slice src z (Suc v) ! i = src ! (z + i)" if "i < Suc v - z" for i
    using that assms by (simp add: slice_def)
  have "3 < Suc v - z" "v - z < Suc v - z" using assms(1) by arith+
  then have "is_char_boundary (slice src z (Suc v)) 3" "is_char_boundary (slice src z (Suc v)) (v - z)"
    using assms len nth [of 3] nth [of "v - z"] by (simp_all add: is_char_boundary_def)
  moreover have "length (slice src z (Suc v)) - 1 = v - z" using len assms(1) by simp
  ultimately show ?thesis using assms(1) by (simp add: str_get_def)
qed

lemma ok_consume_unicode_escape:
  assumes "since u cs z s" and "pos s = Suc (pos z)" and "peek s = Some (cp CHR ''u'')"
  shows "ok u cs (consume_unicode_escape (pos z)) s (\<lambda>_ t. still z t \<and> pos z < pos t)"
  unfolding consume_unicode_escape_def
proof (rule ok_bump_ascii_char [OF assms(1,3)], simp, unfold ok_get, rule ok_if, goal_cases)
  case (1 x t)
  then show ?case by (simp add: ok_error_q)
next
  case (2 x t)
  then have p: "peek t = Some (cp CHR ''{'')" by simp
  show ?case
  proof (rule ok_bump_ascii_char [OF 2(1) p], simp, unfold ok_get,
      rule ok_quiet [OF _ ok_bump_hex_digits [OF since_lwf]], assumption, assumption,
      unfold ok_get, rule ok_if, goal_cases)
    case (1 y r w v)
    then show ?case by (simp add: ok_error_q)
  next
    case q: (2 y r w v)
    then have c: "peek v = Some (cp CHR ''}'')" and d: "peek_is is_ascii_hexdigit r" "pos r < pos v" by auto
    note src = since_source [OF q(1)] since_source [OF q(4)]
    have "is_ascii (source z ! pos r)"
      using peek_isD [OF d(1)] peek_byte [OF lwf_cursor [OF since_lwf [OF q(1)]]] ascii_classes(2) src by auto
    moreover have "is_ascii (source z ! pos v)" "pos v < length (source z)"
      using peek_byte [OF lwf_cursor [OF since_lwf [OF q(4)]] c] src by auto
    moreover have "pos r = pos z + 3" using q 2 assms(2) by simp
    ultimately obtain h where h: "str_get (slice (source z) (pos z) (Suc (pos v))) 3
        (length (slice (source z) (pos z) (Suc (pos v))) - 1) = Some h"
      using str_get_inner [of "pos z" "pos v" "source z"] d(2) by auto
    show ?case
    proof (rule ok_bump_ascii_char [OF q(4) c], simp, goal_cases)
      case (1 y' v')
      then show ?case using h src since_pos [OF q(4)]
        by (auto simp: ok_slice_from since_lwf since_marked since_source Let_def
            intro!: ok_if ok_error_q ok_retI dest: since_still)
    qed
  qed
qed

lemma ok_consume_escape_sequence:
  assumes "lwf u cs s" and "peek s = Some (cp BACKSLASH)"
  shows "ok u cs (consume_escape_sequence (pos s)) s (\<lambda>_ t. still s t \<and> pos s < pos t)"
  unfolding consume_escape_sequence_def
proof (rule ok_bump_ascii_char [OF since_refl [OF assms(1)] assms(2)], simp, unfold ok_get, goal_cases)
  case (1 x t)
  show ?case
  proof (cases "peek t")
    case None
    then show ?thesis using 1 by (simp add: ok_error_q)
  next
    case (Some c)
    have simple: "ok u cs (andthen bump (\<lambda>_. ret ())) t (\<lambda>_ r. still s r \<and> pos s < pos r)" if "c < 128"
      by (rule ok_bump_ascii_char [OF 1(1) Some that])
        (use 1 in \<open>auto intro!: ok_retI dest: since_still since_lwf\<close>)
    have "simple_escape c \<or> c = cp CHR ''$'' \<Longrightarrow> c < 128" by (auto simp: simple_escape_def)
    then show ?thesis using Some simple ok_consume_unicode_escape [OF 1(1)] 1
      by (auto simp: ok_error_q intro!: ok_if)
  qed
qed

lemma ok_bump_hex_pair:
  assumes "lwf u cs s"
  shows "ok u cs bump_hex_pair s (\<lambda>_ t. still s t)"
  unfolding bump_hex_pair_def
proof (rule ok_loop [where I = "\<lambda>_. still s", OF assms still_refl], unfold ok_get, rule ok_if, goal_cases)
  case (1 d t)
  then obtain c where c: "peek t = Some c" "c < 128" using peek_isD ascii_classes(2) by blast
  have q: "since u cs s t" by (rule since_step [OF since_refl [OF assms] 1(1,2)])
  show ?case
    by (rule ok_bump_ascii_char [OF q c]) (auto intro!: ok_retI dest: since_lwf since_still)
next
  case (2 d t)
  then show ?case by (auto intro!: ok_retI dest: adv_lwf)
qed

lemma ok_consume_byte_escape_sequence:
  assumes "lwf u cs s" and "peek s = Some (cp BACKSLASH)"
  shows "ok u cs (consume_byte_escape_sequence (pos s)) s (\<lambda>_ t. still s t \<and> pos s < pos t)"
  unfolding consume_byte_escape_sequence_def
proof (rule ok_bump_ascii_char [OF since_refl [OF assms(1)] assms(2)], simp, unfold ok_get, goal_cases)
  case (1 x t)
  show ?case
  proof (cases "peek t")
    case None
    then show ?thesis using 1 by (simp add: ok_error_q)
  next
    case (Some c)
    have simple: "ok u cs (andthen bump (\<lambda>_. ret ())) t (\<lambda>_ r. still s r \<and> pos s < pos r)" if "c < 128"
      by (rule ok_bump_ascii_char [OF 1(1) Some that])
        (use 1 in \<open>auto intro!: ok_retI dest: since_still since_lwf\<close>)
    have hex: "ok u cs (andthen bump (\<lambda>_. andthen bump_hex_pair (\<lambda>digits.
        if digits \<noteq> 2
        then error_from (pos s) InvalidEscape ''hex escape in byte literal must have exactly 2 hex digits''
        else ret ()))) t (\<lambda>_ r. still s r \<and> pos s < pos r)" if "c < 128"
      apply (rule ok_bump_ascii_char [OF 1(1) Some that])
      apply (rule ok_quiet0 [OF _ ok_bump_hex_pair [OF since_lwf]], assumption+)
      using 1 by (auto intro!: ok_if ok_error_q ok_retI dest: since_still since_lwf)
    have "simple_escape c \<or> c = cp CHR ''x'' \<Longrightarrow> c < 128" by (auto simp: simple_escape_def)
    then show ?thesis using Some simple hex 1 by (auto simp: ok_error_q intro!: ok_if)
  qed
qed

lemma ok_reject_non_ascii:
  assumes "lwf u cs s"
  shows "ok u cs (reject_non_ascii msg) s (\<lambda>_ t. t = s)"
  unfolding reject_non_ascii_def ok_get
proof (rule ok_if, unfold ok_mark, goal_cases)
  case 1
  then obtain c where "peek s = Some c" using peek_isD by blast
  then show ?case using ok_bump_error [OF assms _ marked_self [OF assms]] by blast
qed (simp add: ok_retI assms)

lemma ok_quoted_loop:
  assumes "since u cs z s" and "\<And>t. lwf u cs t \<Longrightarrow> ok u cs reject t (\<lambda>_ r. r = t)"
  shows "ok u cs (quoted_loop (pos z) msg reject) s (\<lambda>_ t. still s t)"
  unfolding quoted_loop_def
proof (rule ok_loop [where I = "\<lambda>_. still s", OF since_lwf [OF assms(1)] still_refl], unfold ok_get,
    rule ok_if, goal_cases)
  case (1 n t)
  then show ?case by (auto intro!: ok_retI dest: adv_lwf)
next
  case (2 n t)
  have q: "since u cs z t" by (rule since_step [OF assms(1) 2(1,2)])
  note w = since_lwf [OF q]
  obtain c where c: "peek t = Some c" using 2(3) peek_None_iff [OF lwf_cursor [OF w]] by blast
  show ?case
  proof (unfold ok_get, rule ok_if, goal_cases)
    case 1
    show ?case by (rule ok_error_q [OF q])
  next
    case nl: 2
    show ?case
    proof (rule ok_bind [OF ok_reject_bidi [OF w]], rule ok_bind [OF assms(2)], goal_cases)
      case (1 x r)
      then show ?case using w by simp
    next
      case (2 x r y r')
      then have r: "r' = t" "\<not> is_bidi_control c" using c by auto
      show ?case unfolding r(1)
        by (rule ok_quiet [OF q ok_bump [OF w c]])
          (use r since_still2 [OF assms(1)] in \<open>auto intro!: ok_retI dest: since_lwf\<close>)
    qed
  qed
qed

text \<open>The tail of both kinds of character literals: the closing quote and the token.\<close>

lemma ok_close_quote:
  assumes "since u cs z s" and "pos z < pos s" and "\<not> is_error k" and "k \<noteq> Eof"
    and "\<And>w. kind_text u k w"
  shows "ok u cs (andthen (get (\<lambda>s. is_at_end s \<or> peek s \<noteq> Some (cp APOSTROPHE))) (\<lambda>open.
    if open then error_from (pos z) UnterminatedChar msg
    else if (n :: nat) > 1 then error_from (pos z) CharTooLong msg'
    else andthen bump (\<lambda>_. push_from k (pos z)))) s (\<lambda>_ t. pos z < pos t)"
  unfolding ok_get
  apply (intro ok_if ok_error_q [OF assms(1)])
  apply (rule ok_bump_ascii_char [OF assms(1), of "cp APOSTROPHE"])
  using assms by (auto intro!: ok_push_q)

lemma ok_lex_char:
  assumes "lwf u cs s" and "peek s = Some (cp APOSTROPHE)"
  shows "ok u cs lex_char s (\<lambda>_ t. pos s < pos t)"
  unfolding lex_char_def ok_mark
proof (rule ok_bump_ascii_char [OF since_refl [OF assms(1)] assms(2)], simp, unfold ok_get, rule ok_if, goal_cases)
  case (1 x t)
  then show ?case by (simp add: ok_error_q)
next
  case (2 x t)
  have body: "ok u cs (if peek t = Some (cp BACKSLASH)
       then andthen mark (\<lambda>escape_start. andthen (consume_escape_sequence escape_start) (\<lambda>_. ret (1::nat)))
       else quoted_loop (pos s) ''unterminated char literal'' (ret ())) t (\<lambda>_ r. still t r)"
    apply (rule ok_if, unfold ok_mark)
     apply (rule ok_quiet [OF since_refl ok_consume_escape_sequence])
    using 2 by (auto intro!: ok_retI ok_quoted_loop dest: since_lwf since_still)
  show ?case
    by (rule ok_quiet0 [OF 2(1) body], rule ok_close_quote) (use 2 in \<open>auto simp: is_error_def\<close>)
qed

lemma prefix_drop_Suc: "prefix (b # p) (drop i xs) \<Longrightarrow> prefix p (drop (Suc i) xs)"
proof -
  assume p: "prefix (b # p) (drop i xs)"
  have "drop (Suc i) xs = tl (drop i xs)" by (simp add: drop_Suc tl_drop)
  then show ?thesis using p by (cases "drop i xs") auto
qed

text \<open>Both byte literals start by passing over two ASCII characters.\<close>

lemma ok_bump_two:
  assumes "lwf u cs s" and "prefix [a, b] (drop (pos s) (source s))" and "is_ascii a" and "is_ascii b"
    and "\<And>t. since u cs s t \<Longrightarrow> pos s < pos t \<Longrightarrow> ok u cs m t R"
  shows "ok u cs (andthen bump (\<lambda>_. andthen bump (\<lambda>_. m))) s R"
proof (rule ok_bump_ascii_char [OF since_refl [OF assms(1)], of "cp a"], goal_cases)
  case 1
  show ?case using prefix_peek [OF lwf_cursor [OF assms(1)] assms(2,3)] by simp
next
  case 2
  show ?case using assms(3) by (simp add: is_ascii_def)
next
  case (3 x t)
  have "prefix [b] (drop (pos t) (source t))" using prefix_drop_Suc [OF assms(2)] 3 by simp
  then have p: "peek t = Some (cp b)" using prefix_peek [OF lwf_cursor [OF since_lwf [OF 3(1)]]] assms(4) by simp
  show ?case by (rule ok_bump_ascii_char [OF 3(1) p]) (use assms(4,5) 3 in \<open>auto simp: is_ascii_def\<close>)
qed

lemma ok_lex_byte_char:
  assumes "lwf u cs s" and "prefix [CHR ''b'', APOSTROPHE] (drop (pos s) (source s))"
  shows "ok u cs lex_byte_char s (\<lambda>_ t. pos s < pos t)"
  unfolding lex_byte_char_def ok_mark
proof (rule ok_bump_two [OF assms], simp add: is_ascii_def, simp add: is_ascii_def, unfold ok_get,
    rule ok_if, goal_cases)
  case (1 t)
  then show ?case by (simp add: ok_error_q)
next
  case (2 t)
  have body: "ok u cs (if peek t = Some (cp BACKSLASH)
       then andthen mark (\<lambda>escape_start. andthen (consume_byte_escape_sequence escape_start) (\<lambda>_. ret (1::nat)))
       else quoted_loop (pos s) ''unterminated byte literal''
              (reject_non_ascii ''byte literal must be ASCII'')) t (\<lambda>_ r. still t r)"
    apply (rule ok_if, unfold ok_mark)
     apply (rule ok_quiet [OF since_refl ok_consume_byte_escape_sequence])
    using 2 by (auto intro!: ok_retI ok_quoted_loop ok_reject_non_ascii dest: since_lwf since_still)
  show ?case
    by (rule ok_quiet0 [OF 2(1) body], rule ok_close_quote) (use 2 in \<open>auto simp: is_error_def\<close>)
qed

lemma ok_byte_string_step:
  assumes "since u cs z t" and "\<not> is_at_end t"
  shows "ok u cs (andthen (get at_line_end) (\<lambda>nl.
       if nl then error_from (pos z) UnterminatedString ''unterminated byte string literal''
       else andthen reject_bidi (\<lambda>_. andthen (get peek) (\<lambda>c.
         if c = Some (cp BACKSLASH)
         then andthen mark (\<lambda>escape_start. consume_byte_escape_sequence escape_start)
         else andthen (reject_non_ascii ''byte string literal must be ASCII'') (\<lambda>_.
           andthen bump (\<lambda>_. ret ())))))) t (\<lambda>_ r. still t r \<and> pos t < pos r)"
proof (unfold ok_get, rule ok_if, goal_cases)
  case 1
  show ?case by (rule ok_error_q [OF assms(1)])
next
  case 2
  note w = since_lwf [OF assms(1)]
  obtain c where c: "peek t = Some c" using assms(2) peek_None_iff [OF lwf_cursor [OF w]] by blast
  have step: "ok u cs (andthen bump (\<lambda>_. ret ())) t (\<lambda>_ r. still t r \<and> pos t < pos r)"
    if "\<not> is_bidi_control c"
    by (rule ok_quiet [OF since_refl [OF w] ok_bump [OF w c]])
      (use that in \<open>auto intro!: ok_retI dest: since_lwf since_still\<close>)
  show ?case
    apply (rule ok_bind [OF ok_reject_bidi [OF w]], unfold ok_get, rule ok_if, unfold ok_mark)
     apply (use w in \<open>auto intro: ok_consume_byte_escape_sequence\<close>) [1]
    apply (rule ok_bind [OF ok_reject_non_ascii])
    using w step c by auto
qed

lemma ok_lex_byte_string:
  assumes "lwf u cs s" and "prefix [CHR ''b'', QUOTE] (drop (pos s) (source s))"
  shows "ok u cs lex_byte_string s (\<lambda>_ t. pos s < pos t)"
  unfolding lex_byte_string_def ok_mark
proof (rule ok_bump_two [OF assms], simp add: is_ascii_def, simp add: is_ascii_def, goal_cases)
  case (1 t)
  show ?case
  proof (rule ok_quiet0 [OF 1(1)], rule ok_while [where I = "still t", OF since_lwf [OF 1(1)] still_refl], goal_cases)
    case (1 r)
    have q: "since u cs s r" by (rule since_step [OF \<open>since u cs s t\<close> 1])
    show ?case unfolding ok_get
      by (intro ok_if, rule ok_bind [OF ok_byte_string_step [OF q]])
        (use 1 in \<open>auto intro!: ok_retI intro: still_trans adv_lwf\<close>)
  next
    case (2 x r)
    show ?case unfolding ok_get
      by (rule ok_if, rule ok_error_q [OF 2(1)], rule ok_bump_ascii_char [OF 2(1), of "cp QUOTE"])
        (use 2 \<open>pos s < pos t\<close> in \<open>auto intro!: ok_push_q simp: is_error_def\<close>)
  qed
qed

section \<open>Raw strings\<close>

lemma ok_lex_raw_string:
  assumes "lwf u cs s" and "prefix [CHR ''r'', QUOTE] (drop (pos s) (source s))"
  shows "ok u cs lex_raw_string s (\<lambda>_ t. pos s < pos t)"
  unfolding lex_raw_string_def ok_mark
  apply (rule ok_quiet [OF since_refl [OF assms(1)] ok_bump_ascii [OF assms]], simp, simp)
  apply (rule ok_quiet [OF _ ok_scan_bidi [OF since_lwf]], assumption+, simp)
  unfolding ok_get
  apply (intro ok_if ok_error_q, assumption)
  apply (rule ok_bump_ascii_char [of u cs s _ "cp QUOTE"])
  by (auto intro!: ok_push_q simp: is_error_def)

lemma ok_lex_raw_multiline_string:
  assumes "lwf u cs s" and "prefix (CHR ''r'' # triple_quote) (drop (pos s) (source s))"
  shows "ok u cs lex_raw_multiline_string s (\<lambda>_ t. pos s < pos t)"
  unfolding lex_raw_multiline_string_def ok_mark
proof (rule ok_quiet [OF since_refl [OF assms(1)] ok_bump_ascii [OF assms]], simp,
    simp add: triple_quote_def, goal_cases)
  case (1 x t)
  note w = since_lwf [OF 1(1)]
  have loop: "ok u cs (while_lx (andthen (get is_at_end) (\<lambda>e.
        if e then ret False else andthen (starts_with triple_quote) (\<lambda>q. ret (\<not> q))))
      (andthen reject_bidi (\<lambda>_. andthen bump (\<lambda>_. ret ())))) t
      (\<lambda>_ r. still t r \<and> (is_at_end r \<or> prefix triple_quote (drop (pos r) (source r))))"
  proof (rule ok_while [where I = "still t", OF w still_refl], unfold andthen_assoc ok_get, goal_cases)
    case (1 r)
    note w' = adv_lwf [OF 1(1)]
    show ?case
    proof (cases "is_at_end r \<or> prefix triple_quote (drop (pos r) (source r))")
      case True
      then show ?thesis using 1 w' by (auto simp: andthen_assoc ok_starts_with intro!: ok_retI)
    next
      case False
      have "ok u cs (andthen reject_bidi (\<lambda>_. andthen bump (\<lambda>_. ret (Continue () :: (unit, unit) loop)))) r
          (\<lambda>x t'. case x of Continue _ \<Rightarrow> still t t' \<and> pos r < pos t' | Break b \<Rightarrow>
            still t t' \<and> (is_at_end t' \<or> prefix triple_quote (drop (pos t') (source t'))))"
        by (rule ok_step_bidi [OF w'])
          (use 1 False in \<open>auto intro!: ok_retI intro: still_trans adv_lwf\<close>)
      then show ?thesis using False w' by (simp add: andthen_assoc ok_starts_with)
    qed
  qed
  show ?case
  proof (rule ok_quiet [OF 1(1) loop], unfold ok_get, rule ok_if, goal_cases)
    case (1 y r)
    then show ?case by (simp add: ok_error_q)
  next
    case (2 y r)
    then have p: "prefix triple_quote (drop (pos r) (source r))" by blast
    show ?case
      by (rule ok_quiet [OF 2(1) ok_bump_ascii [OF since_lwf [OF 2(1)] p]])
        (use 2 1 in \<open>auto intro!: ok_push_q simp: is_error_def triple_quote_def\<close>)
  qed
qed

section \<open>Strings and interpolation\<close>

lemma peek_cong: "source r = source t \<Longrightarrow> pos r = pos t \<Longrightarrow> peek r = peek t"
  by (simp add: peek_def Let_def)

lemma ok_push_then:
  assumes "since u cs z t" and "\<not> is_error k" and "k \<noteq> Eof" and "\<And>w. kind_text u k w"
    and "\<And>r. adv u cs t r \<Longrightarrow> lwf u cs r \<Longrightarrow> pos r = pos t \<Longrightarrow> source r = source z \<Longrightarrow> ok u cs (f ()) r R"
  shows "ok u cs (andthen (push_from k (pos z)) f) t R"
  by (rule ok_bind [OF ok_push_at [OF since_lwf [OF assms(1)] since_marked [OF assms(1)] assms(2-4)]])
    (use assms(5) since_source [OF assms(1)] in \<open>auto simp: adv_lwf adv_source\<close>)

lemma ok_flush_text:
  assumes "lwf u cs t" and "marked u a t"
  shows "ok u cs (flush_text a (pos t)) t (\<lambda>_ r. pos r = pos t)"
proof (cases "pos t \<le> a")
  case True
  then show ?thesis using assms(1) by (simp add: flush_text_def ok_retI)
next
  case False
  have "ok u cs (push_token (Lit StringText) (span_new 0 (of_nat a) (of_nat (pos t))) False) t
      (\<lambda>_ r. pos r = pos t \<and> toks_upto u r (pos t))"
    by (rule ok_push_token [OF assms(1)])
      (use assms lwf_boundary [OF assms(1)] in \<open>auto simp: marked_def pushable_def is_error_def\<close>)
  then show ?thesis using False by (auto simp: flush_text_def elim: ok_mono)
qed

lemma ok_lex_escape:
  assumes "lwf u cs s" and "peek s = Some (cp BACKSLASH)"
  shows "ok u cs lex_escape s (\<lambda>_ t. pos s < pos t)"
  unfolding lex_escape_def ok_mark
  by (rule ok_quiet [OF since_refl [OF assms(1)] ok_consume_escape_sequence [OF assms]])
    (auto intro!: ok_push_q simp: is_error_def)

lemma ok_lex_dollar_ident:
  assumes "lwf u cs s" and "prefix ''$'' (drop (pos s) (source s))"
    and "next_char (drop (Suc (pos s)) (source s)) = Some c" and "is_ident_start u c"
  shows "ok u cs (lex_dollar_ident u) s (\<lambda>_ t. pos s < pos t)"
  unfolding lex_dollar_ident_def ok_mark
proof (rule ok_quiet [OF since_refl [OF assms(1)] ok_bump_ascii [OF assms(1,2)]], simp, simp, goal_cases)
  case (1 x t)
  show ?case
  proof (rule ok_push_then [OF 1(1)], simp add: is_error_def, simp, simp, goal_cases)
    case (1 r)
    have r: "source r = source s" "pos r = Suc (pos s)" "lwf u cs r"
      using 1 \<open>pos t = pos s + 1\<close> by auto
    have "peek r = Some c" using peek_cursor [OF lwf_cursor [OF r(3)]] r assms(3) by simp
    show ?case
      apply (rule ok_bind [OF ok_lex_ident_or_keyword [OF r(3) \<open>peek r = Some c\<close> assms(4)]])
      unfolding ok_mark
      apply (rule ok_mono [OF ok_push_at])
      using r(2) by (auto simp: is_error_def adv_lwf intro: marked_self [OF adv_lwf])
  qed
qed

text \<open>
  The five mutually recursive operations, with the fuel each of them needs: four calls for every byte
  that is left, and the calls that are made before a byte is consumed.
\<close>

definition rem_bytes :: "lexer \<Rightarrow> nat" where
  "rem_bytes s = length (source s) - pos s"

definition at_terminator :: "string_terminator \<Rightarrow> lexer \<Rightarrow> bool" where
  "at_terminator t s =
    (case t of Quote \<Rightarrow> peek s = Some (cp QUOTE)
             | TripleQuote \<Rightarrow> prefix triple_quote (drop (pos s) (source s)))"

definition string_ok :: "unicode_ident \<Rightarrow> code_point list \<Rightarrow> nat \<Rightarrow> bool" where
  "string_ok u cs n \<longleftrightarrow> (\<forall>s m. lwf u cs s \<longrightarrow> peek s = Some (cp QUOTE) \<longrightarrow> 4 * rem_bytes s + 3 \<le> n \<longrightarrow>
     ok u cs (lex_string u n m) s (\<lambda>_ t. pos s < pos t))"

definition multiline_ok :: "unicode_ident \<Rightarrow> code_point list \<Rightarrow> nat \<Rightarrow> bool" where
  "multiline_ok u cs n \<longleftrightarrow> (\<forall>s. lwf u cs s \<longrightarrow> prefix triple_quote (drop (pos s) (source s)) \<longrightarrow>
     4 * rem_bytes s + 3 \<le> n \<longrightarrow> ok u cs (lex_multiline_string u n) s (\<lambda>_ t. pos s < pos t))"

definition body_ok :: "unicode_ident \<Rightarrow> code_point list \<Rightarrow> nat \<Rightarrow> bool" where
  "body_ok u cs n \<longleftrightarrow> (\<forall>s t b c. lwf u cs s \<longrightarrow> 4 * rem_bytes s + 2 \<le> n \<longrightarrow>
     ok u cs (lex_string_body u n t b c) s (\<lambda>_ r. at_terminator t r))"

definition interpolation_ok :: "unicode_ident \<Rightarrow> code_point list \<Rightarrow> nat \<Rightarrow> bool" where
  "interpolation_ok u cs n \<longleftrightarrow> (\<forall>s. lwf u cs s \<longrightarrow> 4 * rem_bytes s + 5 \<le> n \<longrightarrow>
     ok u cs (lex_interpolation u n) s (\<lambda>_ _. True))"

definition next_ok :: "unicode_ident \<Rightarrow> code_point list \<Rightarrow> nat \<Rightarrow> bool" where
  "next_ok u cs n \<longleftrightarrow> (\<forall>s. lwf u cs s \<longrightarrow> \<not> is_at_end s \<longrightarrow> 4 * rem_bytes s + 4 \<le> n \<longrightarrow>
     ok u cs (lex_next_token u n) s (\<lambda>_ t. pos s < pos t))"

lemma rem_bytes_adv: "adv u cs s t \<Longrightarrow> rem_bytes t \<le> rem_bytes s"
  by (auto simp: rem_bytes_def adv_def)

lemma string_step: "body_ok u cs n \<Longrightarrow> string_ok u cs (Suc n)"
  unfolding string_ok_def lex_string.simps
proof (intro allI impI, unfold ok_mark, goal_cases)
  case A: (1 s m)
  show ?case
  proof (rule ok_bump_ascii_char [OF since_refl [OF A(2)] A(3)], simp, rule ok_push_then, assumption,
      simp add: is_error_def, simp, simp, goal_cases)
    case (1 x t r)
    have r: "lwf u cs r" "pos s < pos r" "rem_bytes r \<le> rem_bytes s"
      using 1 by (auto simp: rem_bytes_def)
    have "ok u cs (lex_string_body u n Quote m UnterminatedString) r (\<lambda>_ r. at_terminator Quote r)"
      using A(1,4) r by (simp add: body_ok_def)
    then show ?case
    proof (rule ok_bind, unfold ok_mark, goal_cases)
      case (1 z v)
      then have q: "peek v = Some (cp QUOTE)" by (simp add: at_terminator_def)
      show ?case
        by (rule ok_bump_ascii_char [OF since_refl [OF adv_lwf [OF 1(1)]] q])
          (use 1 r in \<open>auto intro!: ok_push_q simp: is_error_def dest: adv_pos\<close>)
    qed
  qed
qed

lemma multiline_step: "body_ok u cs n \<Longrightarrow> multiline_ok u cs (Suc n)"
  unfolding multiline_ok_def lex_multiline_string.simps
proof (intro allI impI, unfold ok_mark, goal_cases)
  case A: (1 s)
  show ?case
  proof (rule ok_quiet [OF since_refl [OF A(2)] ok_bump_ascii [OF A(2,3)]], simp, simp add: triple_quote_def,
      rule ok_push_then, assumption, simp add: is_error_def, simp, simp, goal_cases)
    case (1 x t r)
    have r: "lwf u cs r" "pos s < pos r" "rem_bytes r \<le> rem_bytes s"
      using 1 by (auto simp: rem_bytes_def)
    have "ok u cs (lex_string_body u n TripleQuote True UnterminatedMultilineString) r
        (\<lambda>_ r. at_terminator TripleQuote r)"
      using A(1,4) r by (simp add: body_ok_def)
    then show ?case
    proof (rule ok_bind, unfold ok_mark, goal_cases)
      case (1 z v)
      then have q: "prefix triple_quote (drop (pos v) (source v))" by (simp add: at_terminator_def)
      note w = adv_lwf [OF 1(1)]
      show ?case
        by (rule ok_quiet [OF since_refl [OF w] ok_bump_ascii [OF w q]])
          (use 1 r in \<open>auto intro!: ok_push_q simp: is_error_def triple_quote_def dest: adv_pos\<close>)
    qed
  qed
qed

lemma ok_at_string_terminator:
  "lwf u cs s \<Longrightarrow> ok u cs (andthen (at_string_terminator t) g) s R \<longleftrightarrow> ok u cs (g (at_terminator t s)) s R"
  by (cases t) (simp_all add: at_string_terminator_def at_terminator_def ok_starts_with)

text \<open>The pieces of a string: text up to an interpolation, a name, or an escape.\<close>

lemma ok_flush_then:
  assumes "lwf u cs t" and "marked u a t"
    and "\<And>r. lwf u cs r \<Longrightarrow> adv u cs t r \<Longrightarrow> pos r = pos t \<Longrightarrow> source r = source t \<Longrightarrow> peek r = peek t \<Longrightarrow> ok u cs m r R"
  shows "ok u cs (andthen (get pos) (\<lambda>p. andthen (flush_text a p) (\<lambda>_. m))) t R"
  unfolding ok_get
proof (rule ok_bind [OF ok_flush_text [OF assms(1,2)]], goal_cases)
  case (1 x r)
  then show ?case using assms(3) [of r] peek_cong [of r t] by (simp add: adv_lwf adv_source)
qed

lemma ok_then_mark:
  assumes "ok u cs m r (\<lambda>_ t. pos s < pos t)" and "\<And>t. lwf u cs t \<Longrightarrow> pos s < pos t \<Longrightarrow> R (Continue (pos t)) t"
  shows "ok u cs (andthen m (\<lambda>_. andthen mark (\<lambda>p. ret (Continue p)))) r R"
  by (rule ok_bind [OF assms(1)]) (use assms(2) in \<open>auto intro!: ok_retI dest: adv_lwf\<close>)

lemma ok_dollar_test:
  assumes "lwf u cs s"
  shows "ok u cs (andthen (if peek s = Some (cp CHR ''$'')
               then andthen (get pos) (\<lambda>p. andthen (str_from (p + 1)) (\<lambda>rest.
                      ret (case next_char rest of Some ch \<Rightarrow> is_ident_start u ch | None \<Rightarrow> False)))
               else ret False) g) s R \<longleftrightarrow>
    ok u cs (g (peek s = Some (cp CHR ''$'') \<and>
      (case next_char (drop (Suc (pos s)) (source s)) of Some ch \<Rightarrow> is_ident_start u ch | None \<Rightarrow> False))) s R"
proof (cases "peek s = Some (cp CHR ''$'')")
  case True
  note D = cursorD [OF lwf_cursor [OF assms]]
  have "is_char_boundary (source s) (Suc (pos s))"
    using ascii_boundary(2) [of cs "pos s"] peek_byte [OF lwf_cursor [OF assms] True] D by simp
  then have "str_from (Suc (pos s)) s = (Done (drop (Suc (pos s)) (source s)), s)" by (simp add: str_from_def)
  then show ?thesis using True by (simp add: ok_def wp_def andthen_def get_def ret_def)
qed simp

lemma ok_interpolation_piece:
  assumes ip: "interpolation_ok u cs n" and w: "lwf u cs r" and m: "marked u a r"
    and fuel: "4 * rem_bytes r \<le> n" and p: "prefix ''${'' (drop (pos r) (source r))"
    and R: "\<And>t. lwf u cs t \<Longrightarrow> pos r < pos t \<Longrightarrow> R (Continue (pos t)) t"
  shows "ok u cs (andthen (get pos) (\<lambda>p. andthen (flush_text a p) (\<lambda>_.
      andthen mark (\<lambda>start. andthen (bump_ascii 2) (\<lambda>_.
      andthen (push_from (Lit InterpStart) start) (\<lambda>_.
      andthen (lex_interpolation u n) (\<lambda>_. andthen mark (\<lambda>m. ret (Continue m)))))))))
    r R"
proof (rule ok_flush_then [OF w m], unfold ok_mark, goal_cases)
  case f: (1 z)
  then have pz: "prefix ''${'' (drop (pos z) (source z))" using p by simp
  show ?case
  proof (rule ok_quiet [OF since_refl [OF f(1)] ok_bump_ascii [OF f(1) pz]], simp, simp,
      rule ok_push_then, assumption, simp add: is_error_def, simp, simp, goal_cases)
    case (1 x t v)
    have len: "pos r + 2 \<le> length (source r)" using prefix_length_le [OF p] by simp
    have v: "lwf u cs v" "pos v = pos r + 2" "source v = source r" using 1 f by auto
    then have "4 * rem_bytes v + 5 \<le> n" using fuel len by (simp add: rem_bytes_def)
    then have "ok u cs (lex_interpolation u n) v (\<lambda>_ t. True)"
      using ip v(1) by (simp add: interpolation_ok_def)
    then show ?case
      by (rule ok_then_mark [where s = r, OF ok_mono]) (use v R in \<open>auto dest: adv_pos\<close>)
  qed
qed

lemma string_body_round_split:
  assumes "lwf u cs r" and "\<not> (is_at_end r \<or> at_terminator t r \<or> \<not> b \<and> at_line_end r)"
    and "\<And>v. v = r \<Longrightarrow> \<forall>c. peek r = Some c \<longrightarrow> \<not> is_bidi_control c \<Longrightarrow> ok u cs m r R"
  shows "ok u cs (andthen (get is_at_end) (\<lambda>e. if e then m1 else
    andthen (at_string_terminator t) (\<lambda>q. if q then m2 else
    andthen (get at_line_end) (\<lambda>nl. if \<not> b \<and> nl then m3 else andthen reject_bidi (\<lambda>_. m))))) r R"
proof -
  have "ok u cs (andthen reject_bidi (\<lambda>_. m)) r R"
    by (rule ok_bind [OF ok_reject_bidi [OF assms(1)]]) (use assms(3) in auto)
  then show ?thesis using assms(2) by (auto simp: ok_at_string_terminator [OF assms(1)])
qed

lemma ok_string_body_round:
  assumes ip: "interpolation_ok u cs n" and w: "lwf u cs r" and m: "marked u a r"
    and fuel: "4 * rem_bytes r \<le> n"
  shows "ok u cs (string_body_round u (lex_interpolation u n) t b c a) r
    (\<lambda>x r'. case x of Continue a' \<Rightarrow> marked u a' r' \<and> pos r < pos r'
                    | Break a' \<Rightarrow> marked u a' r' \<and> (is_at_end r' \<or> at_terminator t r'))"
proof (cases "is_at_end r \<or> at_terminator t r \<or> \<not> b \<and> at_line_end r")
  case True
  then show ?thesis unfolding string_body_round_def
    by (auto simp: ok_at_string_terminator [OF w] intro!: ok_if ok_retI [OF w] ok_error_at [OF w] m)
next
  case False
  obtain ch where ch: "peek r = Some ch" using False peek_None_iff [OF lwf_cursor [OF w]] by blast
  let ?R = "\<lambda>x r'. case x of Continue a' \<Rightarrow> marked u a' r' \<and> pos r < pos r'
                    | Break a' \<Rightarrow> marked u a' r' \<and> (is_at_end r' \<or> at_terminator t r')"
  have cont: "lwf u cs v \<Longrightarrow> pos r < pos v \<Longrightarrow> ?R (Continue (pos v)) v" for v by (simp add: marked_self)
  have bump: "ok u cs (andthen bump (\<lambda>_. ret (Continue a))) r ?R" if "\<not> is_bidi_control ch"
    by (rule ok_bind [OF ok_bump [OF w ch that]])
      (auto intro!: ok_retI marked_still [OF m] simp: adv_lwf)
  have esc: "ok u cs (andthen (get pos) (\<lambda>p. andthen (flush_text a p) (\<lambda>_.
      andthen lex_escape (\<lambda>_. andthen mark (\<lambda>m. ret (Continue m)))))) r ?R" if "ch = cp BACKSLASH"
    by (rule ok_flush_then [OF w m], rule ok_then_mark [where s = r, OF ok_mono, OF ok_lex_escape])
      (use that ch cont in auto)
  have name: "ok u cs (andthen (get pos) (\<lambda>p. andthen (flush_text a p) (\<lambda>_.
      andthen (lex_dollar_ident u) (\<lambda>_. andthen mark (\<lambda>m. ret (Continue m)))))) r ?R"
    if "peek r = Some (cp CHR ''$'')" "next_char (drop (Suc (pos r)) (source r)) = Some d" "is_ident_start u d" for d
    by (rule ok_flush_then [OF w m], rule ok_then_mark [where s = r, OF ok_mono, OF ok_lex_dollar_ident])
      (use that peek_ascii [OF lwf_cursor [OF w] that(1)] cont in \<open>auto simp: is_ascii_def\<close>)
  show ?thesis unfolding string_body_round_def
  proof (rule string_body_round_split [OF w False], goal_cases)
    case (1 v)
    show ?case unfolding ok_starts_with [OF w]
      by (rule ok_if, erule ok_interpolation_piece [OF ip w m fuel], erule (1) cont,
          unfold ok_get ok_dollar_test [OF w])
        (use 1 bump esc name ch in \<open>auto split: option.splits\<close>)
  qed
qed

lemma at_terminator_cong:
  "at_terminator t r \<Longrightarrow> source r' = source r \<Longrightarrow> pos r' = pos r \<Longrightarrow> at_terminator t r'"
  using peek_cong [of r' r] by (cases t) (simp_all add: at_terminator_def)

lemma body_step:
  assumes ip: "interpolation_ok u cs n"
  shows "body_ok u cs (Suc n)"
  unfolding body_ok_def lex_string_body.simps ok_mark
proof (intro allI impI, goal_cases)
  case A: (1 s t b c)
  show ?case
  proof (rule ok_bind [where R' = "\<lambda>a r. marked u a r \<and> (is_at_end r \<or> at_terminator t r)"],
      rule ok_loop [where I = "marked u", OF A(1) marked_self [OF A(1)]], goal_cases)
    case (1 a r)
    then show ?case using ok_string_body_round [OF ip adv_lwf [OF 1(1)] 1(2)] rem_bytes_adv [OF 1(1)] A(2)
      by simp
  next
    case (2 a r)
    note w = adv_lwf [OF 2(1)]
    show ?case unfolding ok_get
    proof (rule ok_if, goal_cases)
      case 1
      then show ?case using 2 by (simp add: ok_error_at [OF w])
    next
      case 3: 2
      then have "at_terminator t r" "marked u a r" using 2 by auto
      then show ?case unfolding ok_get
        by (intro ok_mono [OF ok_flush_text [OF w]]) (auto intro: at_terminator_cong dest: adv_source)
    qed
  qed
qed

lemma prefix_not_end: "prefix (b # p) (drop (pos s) (source s)) \<Longrightarrow> \<not> is_at_end s"
  by (auto simp: is_at_end_def)

lemma prefix_not_line_end:
  "cursor cs s \<Longrightarrow> prefix (b # p) (drop (pos s) (source s)) \<Longrightarrow> is_ascii b \<Longrightarrow> cp b \<noteq> cp NL \<Longrightarrow>
   cp b \<noteq> cp CR \<Longrightarrow> \<not> at_line_end s"
  using prefix_peek [of cs s b p] by (auto simp: at_line_end_def)

lemma ok_line_comment_progress:
  assumes "lwf u cs s" and "prefix (CHR ''/'' # p) (drop (pos s) (source s))"
  shows "ok u cs skip_line_comment s (\<lambda>_ t. pos s < pos t)"
  by (rule ok_mono [OF ok_skip_line_comment [OF assms(1)]])
    (use assms prefix_not_end [OF assms(2)] prefix_not_line_end [OF lwf_cursor [OF assms(1)] assms(2)]
     in \<open>auto simp: is_ascii_def\<close>)

lemma ok_then_continue:
  assumes "ok u cs m s (\<lambda>_ t. pos s < pos t)"
  shows "ok u cs (andthen m (\<lambda>_. ret (Continue d))) s (\<lambda>r t'. case r of Continue a' \<Rightarrow> pos s < pos t' | Break b \<Rightarrow> R b t')"
  by (rule ok_bind [OF assms]) (auto intro!: ok_retI simp: adv_lwf)

lemma ok_starts_if:
  assumes "lwf u cs s" and "prefix p (drop (pos s) (source s)) \<Longrightarrow> ok u cs m s R"
    and "\<not> prefix p (drop (pos s) (source s)) \<Longrightarrow> ok u cs m' s R"
  shows "ok u cs (andthen (starts_with p) (\<lambda>b. if b then m else m')) s R"
  using assms by (simp add: ok_starts_with)

lemma ok_unless_moved:
  assumes "lwf u cs s" and "\<And>t. adv u cs s t \<Longrightarrow> pos s < pos t \<Longrightarrow> R x t" and "ok u cs m s R"
  shows "ok u cs (andthen (get pos) (\<lambda>p. andthen (skip_whitespace u b) (\<lambda>_. andthen (get pos) (\<lambda>q.
    if q > p then ret x else m)))) s R"
  unfolding ok_get
proof (rule ok_bind [OF ok_skip_whitespace [OF assms(1)]], unfold ok_get, goal_cases)
  case (1 y t)
  then show ?case using assms(2,3) adv_pos [OF 1(1)]
    by (cases "pos t = pos s") (auto intro!: ok_retI simp: adv_lwf)
qed

lemma ok_interpolation_round:
  assumes st: "string_ok u cs n" and nx: "next_ok u cs n" and w: "lwf u cs s" and fuel: "4 * rem_bytes s + 4 \<le> n"
  shows "ok u cs (interpolation_round u (lex_string u n True) (lex_next_token u n) d) s
    (\<lambda>r t. case r of Continue _ \<Rightarrow> pos s < pos t | Break b \<Rightarrow> is_at_end t \<or> peek t = Some (cp CHR ''}''))"
  (is "ok u cs _ s ?R")
proof (cases "is_at_end s \<or> peek s = Some (cp CHR ''}'')")
  case True
  then show ?thesis unfolding interpolation_round_def ok_get
    by (auto intro!: ok_retI [OF w] ok_then_continue ok_lex_operator_or_punctuation [OF w])
next
  case False
  have rest: "ok u cs (andthen (starts_with ''//'') (\<lambda>lc.
        if lc then andthen skip_line_comment (\<lambda>_. ret (Continue d))
        else andthen (starts_with ''/*'') (\<lambda>bc.
        if bc then andthen skip_block_comment (\<lambda>_. ret (Continue d))
        else andthen (get peek) (\<lambda>c. andthen (starts_with triple_quote) (\<lambda>tq.
        if c = Some (cp QUOTE) \<and> \<not> tq
        then andthen (lex_string u n True) (\<lambda>_. ret (Continue d))
        else (let d = (if c = Some (cp CHR ''{'') then d + 1 else d)
           in andthen (lex_next_token u n) (\<lambda>_. ret (Continue d)))))))) s ?R" (is "ok u cs ?rest s ?R")
  proof -
    have "ok u cs (lex_next_token u n) s (\<lambda>_ t. pos s < pos t)"
      using nx w False fuel by (simp add: next_ok_def)
    moreover have "peek s = Some (cp QUOTE) \<Longrightarrow> ok u cs (lex_string u n True) s (\<lambda>_ t. pos s < pos t)"
      using st w fuel by (simp add: string_ok_def)
    ultimately show ?thesis unfolding Let_def
      by - ((rule ok_starts_if [OF w], rule ok_then_continue), simp add: ok_line_comment_progress [OF w]
            ok_skip_block_comment [OF w],
          auto simp: ok_starts_with [OF w] intro!: ok_if ok_then_continue ok_skip_block_comment [OF w])
  qed
  have "ok u cs (andthen (get pos) (\<lambda>p. andthen (skip_whitespace u (d = 0)) (\<lambda>_. andthen (get pos) (\<lambda>q.
    if q > p then ret (Continue d) else ?rest)))) s ?R"
    by (rule ok_unless_moved [OF w _ rest]) simp
  then show ?thesis using False unfolding interpolation_round_def ok_get by simp
qed

lemma interpolation_step:
  assumes "string_ok u cs n" and "next_ok u cs n"
  shows "interpolation_ok u cs (Suc n)"
  unfolding interpolation_ok_def lex_interpolation.simps
proof (intro allI impI, goal_cases)
  case A: (1 s)
  show ?case
  proof (rule ok_bind [where R' = "\<lambda>_ r. is_at_end r \<or> peek r = Some (cp CHR ''}'')"],
      rule ok_loop [where I = "\<lambda>_ _. True", OF A(1)], simp, goal_cases)
    case (1 d t)
    have "4 * rem_bytes t + 4 \<le> n" using rem_bytes_adv [OF 1(1)] A(2) by simp
    then show ?case
      by (rule ok_mono [OF ok_interpolation_round [OF assms adv_lwf [OF 1(1)]]]) (auto split: loop.splits)
  next
    case (2 x t)
    note w = adv_lwf [OF 2(1)]
    show ?case unfolding ok_get
    proof (rule ok_if, goal_cases)
      case 1
      show ?case unfolding ok_current_span [OF w]
        by (rule ok_fail_span [OF w lwf_upto [OF w] _ lwf_boundary [OF w]]) simp
    next
      case 3: 2
      then have "peek t = Some (cp CHR ''}'')" using 2 by simp
      then show ?case unfolding ok_mark
        by (rule ok_bump_ascii_char [OF since_refl [OF w]]) (auto intro!: ok_push_q simp: is_error_def)
    qed
  qed
qed

lemma dispatch_first:
  assumes "lwf u cs s" and "rest = drop (pos s) (source s)" and "rest \<noteq> []" and "is_ascii (hd rest)"
  shows "peek s = Some (cp (hd rest))"
  using prefix_peek [OF lwf_cursor [OF assms(1)], of "hd rest" "tl rest"] assms(3,4)
  by (simp add: assms(2) [symmetric])

lemma ok_token_dispatch:
  assumes "string_ok u cs n" and "multiline_ok u cs n" and w: "lwf u cs s" and ne: "\<not> is_at_end s"
    and fuel: "4 * rem_bytes s + 3 \<le> n" and rest: "rest = drop (pos s) (source s)"
  shows "ok u cs (token_dispatch u (lex_multiline_string u n) (lex_string u n False) rest) s (\<lambda>_ t. pos s < pos t)"
proof -
  have rest_ne: "rest \<noteq> []" using ne rest by (simp add: is_at_end_def)
  obtain c where c: "peek s = Some c" using ne peek_None_iff [OF lwf_cursor [OF w]] by blast
  note first = dispatch_first [OF w rest rest_ne]
  have doc: "ok u cs lex_line_doc_comment s (\<lambda>_ t. pos s < pos t)" if "prefix (CHR ''/'' # p) rest" for p
    by (rule ok_lex_line_doc_comment [OF w ne])
      (use prefix_not_line_end [OF lwf_cursor [OF w]] that rest in \<open>auto simp: is_ascii_def\<close>)
  have str: "ok u cs (lex_string u n False) s (\<lambda>_ t. pos s < pos t)" if "hd rest = QUOTE"
    using assms(1) w fuel first that by (simp add: string_ok_def is_ascii_def)
  have tq: "ok u cs (lex_multiline_string u n) s (\<lambda>_ t. pos s < pos t)" if "prefix triple_quote rest"
    using assms(2) w fuel that rest by (simp add: multiline_ok_def)
  have chr: "ok u cs lex_char s (\<lambda>_ t. pos s < pos t)" if "hd rest = APOSTROPHE"
    using ok_lex_char [OF w] first that by (simp add: is_ascii_def)
  have num: "ok u cs (lex_number u) s (\<lambda>_ t. pos s < pos t)" if "in_range CHR ''0'' CHR ''9'' (cp (hd rest))"
    using ok_lex_number [OF w] first that by (simp add: is_ascii_def in_range_def peek_is_def is_digit_iff is_ascii_digit_def)
  note bidi = ok_bump_error [OF w c marked_self [OF w]]
  have idn: "ok u cs (lex_ident_or_keyword u) s (\<lambda>_ t. pos s < pos t)"
    if "cp (hd rest) < 128 \<and> is_ident_start u (cp (hd rest)) \<or> is_ident_start u c"
    using ok_lex_ident_or_keyword [OF w c] first that c by (auto simp: is_ascii_def)
  show ?thesis unfolding token_dispatch_def Let_def
    using rest_ne
    by (intro ok_if)
      (auto simp: rest [symmetric] c intro: doc str tq chr num bidi idn ok_line_comment_progress [OF w]
        ok_skip_block_comment [OF w] ok_lex_block_doc_comment [OF w] ok_lex_byte_char [OF w]
        ok_lex_byte_string [OF w] ok_lex_raw_string [OF w] ok_lex_raw_multiline_string [OF w]
        ok_lex_operator_or_punctuation [OF w ne])
qed

lemma next_step:
  assumes "string_ok u cs n" and "multiline_ok u cs n"
  shows "next_ok u cs (Suc n)"
  unfolding next_ok_def lex_next_token.simps
proof (intro allI impI, rule ok_unless_moved, assumption, simp, goal_cases)
  case (1 s)
  then show ?case unfolding ok_bytes_from [OF 1(1)] by (intro ok_token_dispatch [OF assms]) simp_all
qed

lemma all_ok: "string_ok u cs n \<and> multiline_ok u cs n \<and> body_ok u cs n \<and> interpolation_ok u cs n \<and> next_ok u cs n"
proof (induction n)
  case 0
  then show ?case
    by (simp add: string_ok_def multiline_ok_def body_ok_def interpolation_ok_def next_ok_def)
next
  case (Suc n)
  then show ?case
    by (simp add: string_step multiline_step body_step interpolation_step next_step)
qed

lemma ok_lex_next_token:
  "lwf u cs s \<Longrightarrow> \<not> is_at_end s \<Longrightarrow> 4 * rem_bytes s + 4 \<le> n \<Longrightarrow> ok u cs (lex_next_token u n) s (\<lambda>_ t. pos s < pos t)"
  using all_ok [of u cs n] by (simp add: next_ok_def)

end
