(* ===== verification/LexerCorrect.thy ===== *)
theory LexerCorrect
  imports LexerSafe
begin

text \<open>
  The lexer as a whole. For every Rust string the driver returns: it does not panic, and its loop and
  the recursion of its operations end. The theory proves what the tokens and the diagnostics of the
  result are.
\<close>

section \<open>The driver\<close>

text \<open>The invariant of the driver: while there is no diagnostic, no bidirectional control has been passed.\<close>

definition driving :: "unicode_ident \<Rightarrow> code_point list \<Rightarrow> lexer \<Rightarrow> bool" where
  "driving u cs s \<longleftrightarrow> lwf u cs s \<and> (diagnostics s = [] \<longrightarrow> clean u (utf8 cs) 0 (pos s))"

lemma lexer_new_driving:
  "scalars cs \<Longrightarrow> length (utf8 cs) \<le> u32_max \<Longrightarrow> driving u cs (lexer_new k (utf8 cs))"
  by (simp add: driving_def lwf_def cursor_def toks_upto_def lexer_new_def error_tokens_def is_char_boundary_def)

lemma driving_adv: "driving u cs s \<Longrightarrow> adv u cs s t \<Longrightarrow> driving u cs t"
  by (auto simp: driving_def adv_def lwf_def cursor_def intro: clean_trans)

lemma lwf_no_diagnostics: "lwf u cs s \<Longrightarrow> diagnostics s \<noteq> [] \<Longrightarrow> driving u cs s"
  by (simp add: driving_def)

lemma token_text_error [simp]: "tok_kind t = Error c \<Longrightarrow> token_text u src t"
  and token_text_eof [simp]: "tok_kind t = Eof \<Longrightarrow> token_text u src t"
  by (simp_all add: token_text_def)

lemma toks_upto_error:
  assumes "toks_upto u s a" and "a \<le> b" and "b \<le> length (source s)" and "length (source s) \<le> u32_max"
    and "is_char_boundary (source s) a" and "is_char_boundary (source s) b"
    and "err_span e = span_new 0 (of_nat a) (of_nat b)"
    and "source t = source s" and "diagnostics t = diagnostics s @ [e]"
    and "tokens t = tokens s @ [\<lparr>tok_start = of_nat a, tok_len = of_nat b - of_nat a,
                                tok_kind = Error (err_code e), inserted = False\<rparr>]"
    and "prev_significant t = Some (Error (err_code e))"
  shows "toks_upto u t b"
proof -
  let ?tok = "\<lparr>tok_start = of_nat a, tok_len = of_nat b - of_nat a, tok_kind = Error (err_code e),
               inserted = False\<rparr>"
  have st: "tstart ?tok = a" "tstop ?tok = b"
    using span_len [OF assms(2)] assms(2-4) by (simp_all add: tstart_def tstop_def unat_u32)
  have tok: "spans_ok (source s) 0 (tokens s) a" "asi_ok None (tokens s)"
    using assms(1) by (simp_all add: toks_upto_def)
  have "spans_ok (source s) 0 (tokens s @ [?tok]) b" unfolding spans_ok_snoc st using tok assms by simp
  moreover have "asi_ok None (tokens s @ [?tok])" unfolding asi_ok_snoc using tok by simp
  moreover have "prev_significant t = sig_after None (tokens s @ [?tok])"
    unfolding sig_after_snoc using assms(11) by simp
  moreover have "error_view ?tok = diagnostic_view e"
    using assms(7) by (simp add: error_view_def diagnostic_view_def span_new_def)
  ultimately show ?thesis
    using assms(1,8-10) by (auto simp: toks_upto_def error_tokens_def is_error_def)
qed

lemma wp_run: "m s = (Done x, t) \<Longrightarrow> wp m Q E s = Q x t"
  by (simp add: wp_def)

lemma wp_get_bind: "wp (andthen (get f) g) Q E s = wp (g (f s)) Q E s"
  by (simp add: wp_andthen)

text \<open>Recovery: the error becomes a diagnostic and an error token, and the cursor moves.\<close>

lemma recovery:
  assumes "failed u cs s e t" and "lwf u cs s" and "\<not> is_at_end s"
  shows "wp (andthen (push_diagnostic e) (\<lambda>_.
      andthen (push_token (Error (err_code e)) (err_span e) False) (\<lambda>_.
      andthen (get pos) (\<lambda>p. if p = pos s then andthen bump (\<lambda>_. ret ()) else ret ()))))
    (\<lambda>_ r. driving u cs r \<and> pos s < pos r) (\<lambda>_ _. False) t"
proof -
  have t: "cursor cs t" "source t = source s" "pos s \<le> pos t" "span_after u t e"
    using assms(1) by (simp_all add: failed_def)
  note D = cursorD [OF t(1)]
  obtain a b where ab: "err_span e = span_new 0 (of_nat a) (of_nat b)" "toks_upto u t a" "a \<le> b" "b \<le> pos t"
    "is_char_boundary (source t) a" "is_char_boundary (source t) b"
    using t(4) unfolding span_after_def by blast
  define r where "r = t\<lparr>diagnostics := diagnostics t @ [e], prev_significant := Some (Error (err_code e)),
      tokens := tokens t @ [\<lparr>tok_start = of_nat a, tok_len = of_nat b - of_nat a,
                            tok_kind = Error (err_code e), inserted = False\<rparr>]\<rparr>"
  have "b \<le> length (source t)" "length (source t) \<le> u32_max" using D ab(4) by auto
  then have up: "toks_upto u r b"
    by (rule toks_upto_error [OF ab(2,3) _ _ ab(5,6,1)]) (simp_all add: r_def)
  have "cursor cs r" using t(1) by (simp add: cursor_def r_def)
  then have w: "lwf u cs r" using up ab(4) by (intro lwfI [where a = b]) (simp_all add: r_def)
  have run: "push_token (Error (err_code e)) (err_span e) False (t\<lparr>diagnostics := diagnostics t @ [e]\<rparr>) =
      (Done (), r)"
    using span_len(2) [OF ab(3)] D ab(4) by (simp add: push_token_def ab(1) span_new_def r_def)
  have bump: "wp (andthen bump (\<lambda>_. ret ())) (\<lambda>_ v. driving u cs v \<and> pos s < pos v) (\<lambda>_ _. False) r" if "pos t = pos s"
  proof -
    have "\<not> is_at_end r" using assms(3) that t(2) by (simp add: is_at_end_def r_def)
    then obtain c where "peek r = Some c" using peek_None_iff [OF lwf_cursor [OF w]] by blast
    then obtain v where v: "bump r = (Done (Some c), v)" "cursor cs v" "still r v" "pos v = pos r + len_utf8 c"
      by (rule bump_cursor [OF lwf_cursor [OF w]])
    have "lwf u cs v"
      using upto_still [OF v(3)] up v(2,4) ab(4) by (intro lwfI [where a = b]) (auto simp: r_def)
    moreover have "diagnostics v \<noteq> []" using v(3) by (simp add: still_def r_def)
    moreover have "pos s < pos v" using v(4) that by (simp add: r_def)
    ultimately show ?thesis using v(1) by (simp add: wp_def andthen_def ret_def driving_def)
  qed
  have "driving u cs r" using w by (intro lwf_no_diagnostics) (simp_all add: r_def)
  then have "wp (andthen (get pos) (\<lambda>p. if p = pos s then andthen bump (\<lambda>_. ret ()) else ret ()))
    (\<lambda>_ r. driving u cs r \<and> pos s < pos r) (\<lambda>_ _. False) r"
    using bump t(3) by (simp add: wp_get_bind) (simp add: r_def)
  then show ?thesis
    unfolding push_diagnostic_def wp_andthen [of "modify _"] wp_andthen [of "push_token _ _ _"]
    by (simp add: wp_run [of "push_token (Error (err_code e)) (err_span e) False", OF run])
qed

lemma token_step:
  assumes "driving u cs s" and "\<not> is_at_end s"
  shows "wp (catch (lex_next_token u (token_fuel s)) (\<lambda>e.
      andthen (push_diagnostic e) (\<lambda>_.
      andthen (push_token (Error (err_code e)) (err_span e) False) (\<lambda>_.
      andthen (get pos) (\<lambda>p. if p = pos s then andthen bump (\<lambda>_. ret ()) else ret ())))))
    (\<lambda>_ r. driving u cs r \<and> pos s < pos r) (\<lambda>_ _. False) s"
proof -
  have w: "lwf u cs s" using assms(1) by (simp add: driving_def)
  have "4 * rem_bytes s + 4 \<le> token_fuel s" by (simp add: token_fuel_def rem_bytes_def)
  then have "wp (lex_next_token u (token_fuel s)) (\<lambda>_ t. adv u cs s t \<and> pos s < pos t) (failed u cs s) s"
    using ok_lex_next_token [OF w assms(2)] by (simp add: ok_def)
  then show ?thesis unfolding wp_catch
    by (rule wp_mono) (use recovery [OF _ w assms(2)] driving_adv [OF assms(1)] in auto)
qed

lemma lex_tokens_end:
  assumes "driving u cs s"
  shows "wp (lex_tokens u) (\<lambda>_ r. driving u cs r \<and> is_at_end r) (\<lambda>_ _. False) s"
  unfolding lex_tokens_def while_lx_def
proof (rule wp_loop [where I = "\<lambda>_. driving u cs"], rule assms, rule conjI, goal_cases)
  case (1 a t)
  then have "cursor cs s" "cursor cs t" using assms by (simp_all add: driving_def lwf_def)
  then show ?case using cursorD(2) [of cs s] cursorD(4) [of cs t] by simp
next
  case (2 a t)
  show ?case
  proof (cases "is_at_end t")
    case True
    then show ?thesis using 2 by (simp add: wp_get_bind)
  next
    case False
    have "wp (catch (lex_next_token u (token_fuel t)) (\<lambda>e.
      andthen (push_diagnostic e) (\<lambda>_.
      andthen (push_token (Error (err_code e)) (err_span e) False) (\<lambda>_.
      andthen (get pos) (\<lambda>p. if p = pos t then andthen bump (\<lambda>_. ret ()) else ret ())))))
      (\<lambda>x. wp (ret (Continue ())) (\<lambda>r t'. case r of Continue a' \<Rightarrow> driving u cs t' \<and> pos t < pos t'
        | Break b \<Rightarrow> driving u cs t' \<and> is_at_end t') (\<lambda>_ _. False)) (\<lambda>_ _. False) t"
      by (rule wp_mono [OF token_step [OF 2 False]]) simp_all
    then show ?thesis using False
      by (simp only: wp_get_bind if_True simp_thms) (simp only: wp_andthen [of "andthen (get pos) _"] wp_get_bind)
  qed
qed

text \<open>The result of a run: all tokens but the last one satisfy the invariant, and the last one is \<open>Eof\<close>.\<close>

definition eof_token :: "string \<Rightarrow> token" where
  "eof_token src = \<lparr>tok_start = of_nat (length src), tok_len = 0, tok_kind = Eof, inserted = False\<rparr>"

definition well_lexed :: "unicode_ident \<Rightarrow> code_point list \<Rightarrow> lexer \<Rightarrow> bool" where
  "well_lexed u cs s \<longleftrightarrow>
     (\<exists>r. driving u cs r \<and> is_at_end r \<and> source s = source r \<and> diagnostics s = diagnostics r \<and>
        tokens s = tokens r @ [eof_token (source r)])"

lemma at_end_pos: "cursor cs s \<Longrightarrow> is_at_end s \<Longrightarrow> pos s = length (source s)"
  using cursorD(2,4) [of cs s] by (simp add: is_at_end_def)

lemma wp_can_insert: "wp (andthen can_insert g) Q E s = wp (g (may_insert s)) Q E s"
  by (cases "prev_significant s")
    (simp_all add: can_insert_def may_insert_def andthen_assoc can_end_statement_eq wp_get_bind)

lemma final_semicolon:
  assumes "driving u cs s" and "is_at_end s"
  shows "wp insert_semicolon_if_needed (\<lambda>_ r. driving u cs r \<and> is_at_end r) (\<lambda>_ _. False) s"
proof -
  have w: "lwf u cs s" using assms(1) by (simp add: driving_def)
  let ?sp = "span_new 0 (of_nat (pos s)) (of_nat (pos s))"
  have "ok u cs (push_token (Pn Semicolon) ?sp True) s (\<lambda>_ t. pos t = pos s \<and> toks_upto u t (pos s))" if "may_insert s"
    by (rule ok_push_token [OF w lwf_upto [OF w] _ _ lwf_boundary [OF w] lwf_boundary [OF w]])
      (use that in \<open>auto simp: pushable_def may_insert_def is_error_def\<close>)
  then have "wp (push_token (Pn Semicolon) ?sp True) (\<lambda>_ r. driving u cs r \<and> is_at_end r) (\<lambda>_ _. False) s"
    if "may_insert s"
    using that driving_adv [OF assms(1)] assms(2)
    by (auto simp: ok_def wp_def push_token_def span_new_def is_at_end_def split: if_splits)
  moreover have "\<not> source_exceeds_span_limit (pos s)"
    using cursorD [OF lwf_cursor [OF w]] by (simp add: source_exceeds_span_limit_def)
  then have "current_span s = (Done ?sp, s)" by (simp add: current_span_def)
  ultimately show ?thesis using assms
    by (simp add: insert_semicolon_if_needed_def wp_can_insert wp_andthen [of current_span]
        wp_run [of current_span])
qed

lemma push_eof:
  assumes "driving u cs s" and "is_at_end s"
  shows "wp (andthen current_span (\<lambda>sp. push_token Eof sp False)) (\<lambda>_ r. well_lexed u cs r) (\<lambda>_ _. False) s"
proof -
  have c: "cursor cs s" using assms(1) by (simp add: driving_def lwf_def)
  have "\<not> source_exceeds_span_limit (pos s)"
    using cursorD [OF c] by (simp add: source_exceeds_span_limit_def)
  then have "andthen current_span (\<lambda>sp. push_token Eof sp False) s =
      (Done (), s\<lparr>prev_significant := Some Eof, tokens := tokens s @ [eof_token (source s)]\<rparr>)"
    using at_end_pos [OF c assms(2)]
    by (simp add: current_span_def andthen_def push_token_def span_new_def eof_token_def)
  then show ?thesis using assms by (auto simp: wp_def well_lexed_def)
qed

lemma lex_all_wp:
  assumes "scalars cs" and "length (utf8 cs) \<le> u32_max"
  shows "wp (lex_all u) (\<lambda>_ s. well_lexed u cs s) (\<lambda>_ _. False) (lexer_new k (utf8 cs))"
proof -
  have small: "\<not> source_exceeds_span_limit (length (source (lexer_new k (utf8 cs))))"
    using assms(2) by (simp add: lexer_new_def source_exceeds_span_limit_def)
  have "wp (lex_tokens u) (\<lambda>_. wp (andthen insert_semicolon_if_needed (\<lambda>_.
      andthen current_span (\<lambda>sp. push_token Eof sp False))) (\<lambda>_ s. well_lexed u cs s) (\<lambda>_ _. False))
    (\<lambda>_ _. False) (lexer_new k (utf8 cs))"
  proof (rule wp_mono [OF lex_tokens_end [OF lexer_new_driving [OF assms]]])
    fix x s
    assume "driving u cs s \<and> is_at_end s"
    then show "wp (andthen insert_semicolon_if_needed (\<lambda>_. andthen current_span (\<lambda>sp. push_token Eof sp False)))
        (\<lambda>_ s. well_lexed u cs s) (\<lambda>_ _. False) s"
      unfolding wp_andthen [of insert_semicolon_if_needed]
      by (intro wp_mono [OF final_semicolon]) (auto intro: push_eof)
  qed
  then show ?thesis using small
    unfolding lex_all_def wp_get_bind by (simp add: wp_andthen [of "lex_tokens u"])
qed

lemma lex_recovering_cases:
  assumes "scalars cs" and "length (utf8 cs) \<le> u32_max"
  obtains s where "lex_recovering u k (utf8 cs) = Some (into_lexed s)" and "well_lexed u cs s"
  using lex_all_wp [OF assms, of u k]
  by (auto simp: wp_def lex_recovering_def split: prod.splits outcome.splits)

lemma lex_recovering_too_large:
  assumes "u32_max < length src"
  shows "lex_recovering u k src = Some
    \<lparr>lexed_source = src,
     lexed_tokens = [\<lparr>tok_start = 0, tok_len = 0, tok_kind = Error SourceTooLarge, inserted = False\<rparr>,
                     \<lparr>tok_start = 0, tok_len = 0, tok_kind = Eof, inserted = False\<rparr>],
     lexed_diagnostics = [lex_error_new SourceTooLarge ''source exceeds 4 GiB'' (span_new 0 0 0)]\<rparr>"
proof -
  have "source_exceeds_span_limit (length src)" using assms by (simp add: source_exceeds_span_limit_def)
  then show ?thesis
    by (simp add: lex_recovering_def lex_all_def reject_source_def andthen_def get_def lexer_new_def
        push_diagnostic_def modify_def push_token_def span_new_def into_lexed_def Let_def)
qed

section \<open>Results\<close>

text \<open>What every result of the lexer satisfies, with the source too large or not.\<close>

definition lexed_ok :: "unicode_ident \<Rightarrow> code_point list \<Rightarrow> lexed \<Rightarrow> bool" where
  "lexed_ok u cs l \<longleftrightarrow>
     (\<exists>ts e. lexed_tokens l = ts @ [e] \<and> tok_kind e = Eof \<and> \<not> inserted e \<and> tok_len e = 0 \<and>
        (length (utf8 cs) \<le> u32_max \<longrightarrow> tstart e = length (utf8 cs)) \<and>
        spans_ok (utf8 cs) 0 (ts @ [e]) (length (utf8 cs)) \<and> asi_ok None ts \<and>
        map error_view (error_tokens ts) = map diagnostic_view (lexed_diagnostics l) \<and>
        (\<forall>t\<in>set ts. tok_kind t \<noteq> Eof \<and> token_text u (utf8 cs) t)) \<and>
     (lexed_diagnostics l = [] \<longrightarrow> clean u (utf8 cs) 0 (length (utf8 cs)))"

lemma well_lexed_ok:
  assumes "well_lexed u cs s"
  shows "lexed_ok u cs (into_lexed s)"
proof -
  obtain r where r: "driving u cs r" "is_at_end r" "diagnostics s = diagnostics r"
    "tokens s = tokens r @ [eof_token (source r)]"
    using assms by (auto simp: well_lexed_def)
  have c: "cursor cs r" and up: "toks_upto u r (pos r)" using r(1) by (simp_all add: driving_def lwf_def)
  note D = cursorD [OF c]
  have p: "pos r = length (utf8 cs)" using at_end_pos [OF c r(2)] D(2) by simp
  have e: "tstart (eof_token (source r)) = length (utf8 cs)" "tstop (eof_token (source r)) = length (utf8 cs)"
    using D(2,3) by (simp_all add: tstart_def tstop_def eof_token_def unat_u32)
  have "spans_ok (utf8 cs) 0 (tokens r @ [eof_token (source r)]) (length (utf8 cs))"
    unfolding spans_ok_snoc e using up p D by (simp add: toks_upto_def)
  moreover have "diagnostics s = [] \<longrightarrow> clean u (utf8 cs) 0 (length (utf8 cs))"
    using r(1,3) p by (simp add: driving_def)
  ultimately show ?thesis
    using up r(3,4) e D(2) unfolding lexed_ok_def into_lexed_def toks_upto_def
    by (auto simp: eof_token_def)
qed

lemma lexer_result:
  assumes "scalars cs"
  shows "\<exists>l. lex_recovering u k (utf8 cs) = Some l \<and> lexed_ok u cs l"
proof (cases "length (utf8 cs) \<le> u32_max")
  case True
  show ?thesis using lex_recovering_cases [OF assms True, of u k] well_lexed_ok by metis
next
  case False
  then have "u32_max < length (utf8 cs)" by simp
  moreover have "is_char_boundary (utf8 cs) 0" by (simp add: is_char_boundary_def)
  ultimately show ?thesis
    using False lex_recovering_too_large [of "utf8 cs" u k]
    by (auto simp: lexed_ok_def tstart_def tstop_def error_tokens_def is_error_def error_view_def
        diagnostic_view_def lex_error_new_def span_new_def
        intro!: exI [of _ "[\<lparr>tok_start = 0, tok_len = 0, tok_kind = Error SourceTooLarge, inserted = False\<rparr>]"])
qed

text \<open>The invariants of the state, read on the list of tokens.\<close>

lemma spans_ok_sorted: "spans_ok src a ts b \<Longrightarrow> sorted_wrt (\<lambda>x y. tstop x \<le> tstart y) ts \<and>
   (\<forall>t\<in>set ts. a \<le> tstart t \<and> tstop t \<le> b \<and> is_char_boundary src (tstart t) \<and> is_char_boundary src (tstop t))"
proof (induction src a ts b rule: spans_ok.induct)
  case (2 src a t ts b)
  then have "tstart t \<le> tstop t" "tstop t \<le> b" using spans_ok_le by (auto simp: tstart_def tstop_def)
  then show ?case using 2 by fastforce
qed simp

lemma sig_after_find:
  "sig_after p ts = (case find (\<lambda>t. tok_kind t \<noteq> Lit DocComment) (rev ts) of
     Some t \<Rightarrow> Some (tok_kind t) | None \<Rightarrow> p)"
  by (induction ts rule: rev_induct) (simp_all add: sig_after_snoc)

lemma asi_ok_append: "asi_ok p (xs @ ys) \<longleftrightarrow> asi_ok p xs \<and> asi_ok (sig_after p xs) ys"
  by (induction xs arbitrary: p) auto

lemma asi_ok_nth:
  assumes "asi_ok None ts" and "i < length ts" and "inserted (ts ! i)"
  shows "tok_kind (ts ! i) = Pn Semicolon \<and> tok_len (ts ! i) = 0 \<and>
    (\<exists>t. find (\<lambda>t. tok_kind t \<noteq> Lit DocComment) (rev (take i ts)) = Some t \<and> flag_can_end (tok_kind t))"
proof -
  have "asi_ok None (take i ts @ ts ! i # drop (Suc i) ts)" using assms(1,2) by (simp add: id_take_nth_drop [symmetric])
  then show ?thesis using assms(3)
    by (auto simp: asi_ok_append sig_after_find split: option.splits)
qed

lemma clean_no_bidi:
  assumes "scalars cs" and "unicode_sane u" and "clean u (utf8 cs) 0 (length (utf8 cs))" and "c \<in> set cs"
  shows "\<not> is_bidi_control c"
proof -
  obtain as bs where cs: "cs = as @ c # bs" using assms(4) by (meson split_list)
  have "next_char (drop (length (utf8 as)) (utf8 cs)) = Some c"
    using cs assms(1) next_char_utf8_char [of c] by simp
  moreover have "is_char_boundary (utf8 cs) (length (utf8 as))"
    using is_char_boundary_prefix [of as "c # bs"] cs assms(1) by simp
  moreover have "length (utf8 as) < length (utf8 cs)" using cs by (simp add: length_utf8_char)
  ultimately show ?thesis using assms(2,3) by (auto simp: clean_def chars_all_def)
qed

lemma tok_end_tstop: "tstop t \<le> u32_max \<Longrightarrow> unat (tok_end t) = tstop t"
  by (simp add: tok_end_def tstop_def u32_max_def unat_word_ariths)

lemma lexeme_slice:
  assumes "is_char_boundary src (tstart t)" and "is_char_boundary src (tstop t)" and "tstop t \<le> length src"
    and "length src \<le> u32_max" and "\<not> inserted t"
  shows "lexeme t src = (if is_error (tok_kind t) \<or> tok_kind t = Eof then [] else slice src (tstart t) (tstop t))"
  using assms tok_end_tstop [of t]
  by (auto simp: lexeme_def str_get_def min_def tstart_def tstop_def split: option.splits)

lemma kind_textD:
  assumes "kind_text u k w"
  shows "is_keyword k \<or> is_primitive_type k \<longrightarrow> keyword_kind w = Some k"
    and "k = Lit IdentValue \<or> k = Lit IdentType \<longrightarrow> identifier_kind u w = Some k"
    and "(\<exists>q. k = Pn q) \<or> (\<exists>q. k = Op q) \<longrightarrow> token_kind_from_prefix w = Some (k, length w)"
  using assms by (cases k; auto simp: is_keyword_def is_primitive_type_def)+

text \<open>A table of Unicode identifiers with no characters outside ASCII, for concrete runs.\<close>

definition no_unicode :: unicode_ident where
  "no_unicode = \<lparr>is_xid_start = (\<lambda>_. False), is_xid_continue = (\<lambda>_. False)\<rparr>"

section \<open>Properties of the lexer\<close>



text \<open>C18: the spans of the tokens are in source order, do not overlap and stay inside the source, and both ends of each
  are character boundaries, so cutting a token out of the source never fails.\<close>

theorem token_spans_ordered:
  assumes "scalars cs" and "length (utf8 cs) \<le> u32_max"
  shows "\<exists>l. lex_recovering u k (utf8 cs) = Some l \<and>
    sorted_wrt (\<lambda>x y. unat (tok_end x) \<le> unat (tok_start y)) (lexed_tokens l) \<and>
    (\<forall>t\<in>set (lexed_tokens l). unat (tok_start t) \<le> unat (tok_end t) \<and> unat (tok_end t) \<le> length (utf8 cs) \<and>
       (\<exists>w. str_get (utf8 cs) (unat (tok_start t)) (unat (tok_end t)) = Some w))"
proof -
  obtain l where l: "lex_recovering u k (utf8 cs) = Some l" "lexed_ok u cs l"
    using lexer_result [OF assms(1)] by blast
  have s: "spans_ok (utf8 cs) 0 (lexed_tokens l) (length (utf8 cs))" using l(2) by (auto simp: lexed_ok_def)
  note S = spans_ok_sorted [OF s]
  have e: "unat (tok_end t) = tstop t" if "t \<in> set (lexed_tokens l)" for t
    using S that assms(2) tok_end_tstop [of t] by fastforce
  have "sorted_wrt (\<lambda>x y. unat (tok_end x) \<le> unat (tok_start y)) (lexed_tokens l)"
    by (rule sorted_wrt_mono_rel [OF _ conjunct1 [OF S]]) (simp add: e tstart_def)
  then show ?thesis
    using l(1) S e by (auto simp: str_get_def tstart_def tstop_def)
qed

theorem token_spans_ordered_witness:
  "\<exists>l. lex_recovering no_unicode Scalar (utf8 [0x61, 0x3D, 0x31, 0x0A]) = Some l \<and>
    sorted_wrt (\<lambda>x y. unat (tok_end x) \<le> unat (tok_start y)) (lexed_tokens l) \<and>
    (\<forall>t\<in>set (lexed_tokens l). unat (tok_start t) \<le> unat (tok_end t) \<and>
       unat (tok_end t) \<le> length (utf8 [0x61, 0x3D, 0x31, 0x0A]) \<and>
       (\<exists>w. str_get (utf8 [0x61, 0x3D, 0x31, 0x0A]) (unat (tok_start t)) (unat (tok_end t)) = Some w))"
  by (rule token_spans_ordered) (simp_all add: is_scalar_def utf8_char_def u32_max_def)

text \<open>C34: the last token, and no other, is \<open>Eof\<close>; it is empty and, unless the source is too large for a span,
  stands at the end of the source.\<close>

theorem eof_closes_tokens:
  assumes "scalars cs"
  shows "\<exists>l ts e. lex_recovering u k (utf8 cs) = Some l \<and> lexed_tokens l = ts @ [e] \<and> tok_kind e = Eof \<and>
    tok_len e = 0 \<and> Eof \<notin> tok_kind ` set ts \<and>
    (length (utf8 cs) > u32_max \<or> unat (tok_start e) = length (utf8 cs))"
proof -
  obtain l where l: "lex_recovering u k (utf8 cs) = Some l" "lexed_ok u cs l"
    using lexer_result [OF assms] by blast
  then obtain ts e where "lexed_tokens l = ts @ [e]" "tok_kind e = Eof" "tok_len e = 0"
    "length (utf8 cs) \<le> u32_max \<longrightarrow> tstart e = length (utf8 cs)" "\<forall>t\<in>set ts. tok_kind t \<noteq> Eof"
    unfolding lexed_ok_def by blast
  then show ?thesis
    using l(1) by (intro exI [of _ l] exI [of _ ts] exI [of _ e]) (force simp: tstart_def)
qed

theorem eof_closes_tokens_witness:
  "\<exists>l ts e. lex_recovering no_unicode Avx2 (utf8 [0x61]) = Some l \<and> lexed_tokens l = ts @ [e] \<and> tok_kind e = Eof \<and>
    tok_len e = 0 \<and> Eof \<notin> tok_kind ` set ts \<and>
    (length (utf8 [0x61]) > u32_max \<or> unat (tok_start e) = length (utf8 [0x61]))"
  by (rule eof_closes_tokens) (simp add: is_scalar_def)

text \<open>C21: automatic semicolon insertion only ever inserts an empty \<open>Semicolon\<close>, and only where the last token before it
  that is not a doc comment can end a statement.\<close>

theorem inserted_semicolons_end_statements:
  assumes "scalars cs"
  shows "\<exists>l. lex_recovering u k (utf8 cs) = Some l \<and>
    (\<forall>i < length (lexed_tokens l). inserted (lexed_tokens l ! i) \<longrightarrow>
       tok_kind (lexed_tokens l ! i) = Pn Semicolon \<and> tok_len (lexed_tokens l ! i) = 0 \<and>
       (\<exists>t. find (\<lambda>t. tok_kind t \<noteq> Lit DocComment) (rev (take i (lexed_tokens l))) = Some t \<and>
          can_end_statement (tok_kind t) = Some True))"
proof -
  obtain l where l: "lex_recovering u k (utf8 cs) = Some l" "lexed_ok u cs l"
    using lexer_result [OF assms] by blast
  then obtain ts e where t: "lexed_tokens l = ts @ [e]" "\<not> inserted e" "asi_ok None ts"
    unfolding lexed_ok_def by blast
  then have "asi_ok None (lexed_tokens l)" by (simp add: asi_ok_snoc)
  then show ?thesis using l(1) asi_ok_nth by (fastforce simp: can_end_statement_eq)
qed

theorem inserted_semicolons_end_statements_witness:
  "\<exists>l. lex_recovering no_unicode Scalar (utf8 [0x61, 0x0A]) = Some l \<and>
    (\<forall>i < length (lexed_tokens l). inserted (lexed_tokens l ! i) \<longrightarrow>
       tok_kind (lexed_tokens l ! i) = Pn Semicolon \<and> tok_len (lexed_tokens l ! i) = 0 \<and>
       (\<exists>t. find (\<lambda>t. tok_kind t \<noteq> Lit DocComment) (rev (take i (lexed_tokens l))) = Some t \<and>
          can_end_statement (tok_kind t) = Some True))"
  by (rule inserted_semicolons_end_statements) (simp add: is_scalar_def)

text \<open>C28: the error tokens are the diagnostics, in the same order with the same code and span; and \<open>lex\<close> succeeds exactly
  when there is no error token, with the same result.\<close>

theorem error_tokens_are_diagnostics:
  assumes "scalars cs"
  shows "\<exists>l. lex_recovering u k (utf8 cs) = Some l \<and>
    map error_view (error_tokens (lexed_tokens l)) = map diagnostic_view (lexed_diagnostics l) \<and>
    lex u k (utf8 cs) =
      Some (case error_tokens (lexed_tokens l) of [] \<Rightarrow> Ok l | _ # _ \<Rightarrow> Err (hd (lexed_diagnostics l)))"
proof -
  obtain l where l: "lex_recovering u k (utf8 cs) = Some l" "lexed_ok u cs l"
    using lexer_result [OF assms] by blast
  then obtain ts e where "lexed_tokens l = ts @ [e]" "tok_kind e = Eof"
    "map error_view (error_tokens ts) = map diagnostic_view (lexed_diagnostics l)"
    unfolding lexed_ok_def by blast
  then have m: "map error_view (error_tokens (lexed_tokens l)) = map diagnostic_view (lexed_diagnostics l)"
    by (simp add: error_tokens_def is_error_def)
  then have "length (error_tokens (lexed_tokens l)) = length (lexed_diagnostics l)"
    by (metis length_map)
  then show ?thesis using l(1) m
    by (auto simp: lex_def split: list.splits)
qed

theorem error_tokens_are_diagnostics_witness:
  "\<exists>l. lex_recovering no_unicode Scalar (utf8 [0x22, 0x0A]) = Some l \<and>
    map error_view (error_tokens (lexed_tokens l)) = map diagnostic_view (lexed_diagnostics l) \<and>
    lex no_unicode Scalar (utf8 [0x22, 0x0A]) =
      Some (case error_tokens (lexed_tokens l) of [] \<Rightarrow> Ok l | _ # _ \<Rightarrow> Err (hd (lexed_diagnostics l)))"
  by (rule error_tokens_are_diagnostics) (simp add: is_scalar_def)

text \<open>C12: a source with a bidirectional control character anywhere, in code, in a comment or in any kind of literal, is
  rejected (Trojan Source), when the Unicode tables do not count such a character as part of an identifier.\<close>

theorem bidi_controls_rejected:
  assumes "scalars cs" and "unicode_sane u" and "c \<in> set cs" and "is_bidi_control c"
  shows "\<exists>e. lex u k (utf8 cs) = Some (Err e)"
proof -
  obtain l where l: "lex_recovering u k (utf8 cs) = Some l" "lexed_ok u cs l"
    using lexer_result [OF assms(1)] by blast
  have "lexed_diagnostics l \<noteq> []"
    using l(2) clean_no_bidi [OF assms(1,2) _ assms(3)] assms(4) by (auto simp: lexed_ok_def)
  then show ?thesis using l(1) by (cases "lexed_diagnostics l") (simp_all add: lex_def)
qed

theorem bidi_controls_rejected_witness:
  "\<exists>e. lex no_unicode Scalar (utf8 [0x2F, 0x2F, 0x202E]) = Some (Err e)"
  by (rule bidi_controls_rejected [where c = "0x202E"])
    (simp_all add: is_scalar_def unicode_sane_def no_unicode_def is_bidi_control_def)

text \<open>C11: the kind of a token is what its text says: a keyword or primitive type is the keyword table's entry for its
  text, an identifier is what \<open>identifier_kind\<close> answers for it, and an operator or punctuation mark is the
  operator table's match for exactly its text.\<close>

theorem token_kind_of_text:
  assumes "scalars cs" and "length (utf8 cs) \<le> u32_max"
  shows "\<exists>l. lex_recovering u k (utf8 cs) = Some l \<and>
    (\<forall>t\<in>set (lexed_tokens l). let w = lexeme t (utf8 cs); kd = tok_kind t in inserted t \<or>
      (is_keyword kd \<or> is_primitive_type kd \<longrightarrow> keyword_kind w = Some kd) \<and>
      (kd = Lit IdentValue \<or> kd = Lit IdentType \<longrightarrow> identifier_kind u w = Some kd) \<and>
      ((\<exists>q. kd = Pn q) \<or> (\<exists>q. kd = Op q) \<longrightarrow> token_kind_from_prefix w = Some (kd, length w)))"
proof -
  obtain l where l: "lex_recovering u k (utf8 cs) = Some l" "lexed_ok u cs l"
    using lexer_result [OF assms(1)] by blast
  have s: "spans_ok (utf8 cs) 0 (lexed_tokens l) (length (utf8 cs))" using l(2) by (auto simp: lexed_ok_def)
  have kt: "kind_text u (tok_kind t) (lexeme t (utf8 cs))" if t: "t \<in> set (lexed_tokens l)" "\<not> inserted t" for t
  proof -
    have "token_text u (utf8 cs) t" using l(2) t(1) by (auto simp: lexed_ok_def)
    then have "kind_text u (tok_kind t) (slice (utf8 cs) (tstart t) (tstop t))"
      using t(2) by (simp add: token_text_def)
    moreover have "lexeme t (utf8 cs) =
        (if is_error (tok_kind t) \<or> tok_kind t = Eof then [] else slice (utf8 cs) (tstart t) (tstop t))"
      using spans_ok_sorted [OF s] t assms(2) by (intro lexeme_slice) auto
    ultimately show ?thesis by (cases "tok_kind t") (simp_all add: is_error_def)
  qed
  show ?thesis
    by (rule exI [of _ l]) (use l(1) kind_textD [OF kt] in \<open>auto simp: Let_def\<close>)
qed

theorem token_kind_of_text_witness:
  "\<exists>l. lex_recovering no_unicode Scalar (utf8 [0x69, 0x66, 0x2B]) = Some l \<and>
    (\<forall>t\<in>set (lexed_tokens l). let w = lexeme t (utf8 [0x69, 0x66, 0x2B]); kd = tok_kind t in inserted t \<or>
      (is_keyword kd \<or> is_primitive_type kd \<longrightarrow> keyword_kind w = Some kd) \<and>
      (kd = Lit IdentValue \<or> kd = Lit IdentType \<longrightarrow> identifier_kind no_unicode w = Some kd) \<and>
      ((\<exists>q. kd = Pn q) \<or> (\<exists>q. kd = Op q) \<longrightarrow> token_kind_from_prefix w = Some (kd, length w)))"
  by (rule token_kind_of_text) (simp_all add: is_scalar_def utf8_char_def u32_max_def)

text \<open>A source that is too long for 32-bit spans is refused with one error, before any of it is read.\<close>

theorem oversized_source_refused:
  assumes "u32_max < length src"
  shows "lex u k src = Some (Err (lex_error_new SourceTooLarge ''source exceeds 4 GiB'' (span_new 0 0 0)))"
  by (simp add: lex_def lex_recovering_too_large [OF assms])

theorem oversized_source_refused_witness:
  "lex no_unicode Scalar (replicate (Suc u32_max) CHR ''a'') =
    Some (Err (lex_error_new SourceTooLarge ''source exceeds 4 GiB'' (span_new 0 0 0)))"
  by (rule oversized_source_refused) (simp only: length_replicate lessI)

end
