(* ===== verification/LineIndex.thy ===== *)
theory LineIndex
  imports Utf8
begin

text \<open>
  The line index of a source file (\<open>arandu_base/src/line_index.rs\<close>): the byte offsets at which lines
  start, and the search that turns an offset into a line and a column in UTF-16 units. The theory
  proves that the search never panics and what it answers for every offset, also for one in the
  middle of a character or behind the end of the source.
\<close>

section \<open>The index\<close>

record line_index =
  line_starts :: "u32 list"
  li_source :: string

definition line_index_default :: line_index where
  "line_index_default = \<lparr>line_starts = [0], li_source = []\<rparr>"

definition line_starts_of :: "string \<Rightarrow> nat list" where
  "line_starts_of src =
    concat (map (\<lambda>(offset, byte). if byte = NL then [offset + 1] else []) (enumerate 0 src))"

definition from_arc :: "string \<Rightarrow> line_index" where
  "from_arc src = \<lparr>line_starts = 0 # map of_nat (line_starts_of src), li_source = src\<rparr>"

definition line_index_new :: "string \<Rightarrow> line_index" where
  "line_index_new src = from_arc src"

text \<open>\<open>partition_point\<close>: the length of the part in front of which the predicate holds.\<close>

definition partition_point :: "('a \<Rightarrow> bool) \<Rightarrow> 'a list \<Rightarrow> nat" where
  "partition_point P xs = length (takeWhile P xs)"

text \<open>The loop that moves an offset back to a character boundary.\<close>

function back_to_boundary :: "string \<Rightarrow> nat \<Rightarrow> nat \<Rightarrow> nat" where
  "back_to_boundary src start offset_byte =
    (if offset_byte > start \<and> \<not> is_char_boundary src offset_byte
     then back_to_boundary src start (offset_byte - 1) else offset_byte)"
  by pat_completeness auto
termination by (relation "measure (\<lambda>(src, start, o'). o')") auto

declare back_to_boundary.simps [simp del]

text \<open>\<open>chars()\<close>.\<close>

function str_chars :: "string \<Rightarrow> code_point list" where
  "str_chars bs = (case next_char bs of None \<Rightarrow> [] | Some c \<Rightarrow> c # str_chars (drop (len_utf8 c) bs))"
  by pat_completeness auto
termination
  by (relation "measure length") (auto simp: next_char_def split: if_splits)

declare str_chars.simps [simp del]

definition line_col :: "line_index \<Rightarrow> u32 \<Rightarrow> (u32 \<times> u32) option" where
  "line_col idx offset =
    (let line = partition_point (\<lambda>s. s \<le> offset) (line_starts idx) - 1 in
     if \<not> line < length (line_starts idx) then None
     else
       let line_start_byte = unat (line_starts idx ! line);
           original_offset = unat offset;
           capped_offset = min original_offset (length (li_source idx));
           offset_byte = back_to_boundary (li_source idx) line_start_byte capped_offset
       in map_option (\<lambda>col.
            let col = (if original_offset > length (li_source idx)
                       then col + (original_offset - length (li_source idx)) else col)
            in (of_nat (line + 1), of_nat (col + 1)))
          (if offset_byte > line_start_byte
           then map_option (\<lambda>line_slice. sum_list (map len_utf16 (str_chars line_slice)))
                  (str_get (li_source idx) line_start_byte offset_byte)
           else Some 0))"

section \<open>What a position is\<close>

text \<open>The characters that end at or before an offset, and those of them on the last line.\<close>

fun chars_before :: "nat \<Rightarrow> code_point list \<Rightarrow> code_point list" where
  "chars_before n [] = []"
| "chars_before n (c # cs) = (if len_utf8 c \<le> n then c # chars_before (n - len_utf8 c) cs else [])"

definition last_line :: "code_point list \<Rightarrow> code_point list" where
  "last_line xs = rev (takeWhile (\<lambda>c. c \<noteq> cp NL) (rev xs))"

section \<open>Decoding, line starts and boundaries\<close>

lemma str_chars_utf8: "scalars cs \<Longrightarrow> str_chars (utf8 cs) = cs"
proof (induction cs)
  case Nil
  then show ?case by (simp add: str_chars.simps next_char_def)
next
  case (Cons c cs)
  then show ?case
    by (simp add: str_chars.simps [of "utf8_char c @ utf8 cs"] next_char_utf8_char length_utf8_char)
qed

lemma line_starts_append:
  "line_starts_of (xs @ ys) = line_starts_of xs @ map (\<lambda>i. i + length xs) (line_starts_of ys)"
proof -
  have "concat (map (\<lambda>(i, b). if b = NL then [i + 1] else []) (enumerate (n + k) ys)) =
      map (\<lambda>i. i + n) (concat (map (\<lambda>(i, b). if b = NL then [i + 1] else []) (enumerate k ys)))" for n k
    by (induction ys arbitrary: k) (simp_all flip: add_Suc_right)
  from this [of "length xs" 0] show ?thesis
    by (simp add: line_starts_of_def enumerate_append_eq)
qed

lemma line_starts_Nil [simp]: "line_starts_of [] = []"
  and line_starts_one [simp]: "line_starts_of [b] = (if b = NL then [1] else [])"
  by (simp_all add: line_starts_of_def)

lemma line_starts_none: "NL \<notin> set bs \<Longrightarrow> line_starts_of bs = []"
  by (auto simp: line_starts_of_def enumerate_eq_zip dest: set_zip_rightD)

lemma line_starts_bounds: "s \<in> set (line_starts_of bs) \<Longrightarrow> 0 < s \<and> s \<le> length bs"
  by (auto simp: line_starts_of_def in_set_enumerate_eq split: if_splits)

lemma line_starts_count: "length (line_starts_of bs) = count_list bs NL"
  by (induction bs rule: rev_induct) (simp_all add: line_starts_append)

lemma line_starts_sorted: "sorted (line_starts_of bs)"
proof (induction bs rule: rev_induct)
  case (snoc b bs)
  then show ?case using line_starts_bounds [of _ bs] by (fastforce simp: line_starts_append sorted_append)
qed simp

lemma line_starts_char:
  assumes "scalars (c # cs)" and "s \<in> set (line_starts_of (utf8 (c # cs)))"
  shows "len_utf8 c \<le> s"
proof (cases "c = cp NL")
  case True
  then show ?thesis using line_starts_bounds [OF assms(2)] by (simp add: len_utf8_def)
next
  case False
  then have "NL \<notin> set (utf8_char c)"
    using NL_utf8_char [of c] assms(1) by (simp add: count_list_0_iff)
  then show ?thesis using assms(2)
    by (auto simp: line_starts_append line_starts_none length_utf8_char)
qed

lemma chars_before_split:
  obtains ys where "cs = chars_before n cs @ ys" and "length (utf8 (chars_before n cs)) \<le> n"
    and "ys = [] \<or> n < length (utf8 (chars_before n cs)) + len_utf8 (hd ys)"
proof -
  have "\<exists>ys. cs = chars_before n cs @ ys \<and> length (utf8 (chars_before n cs)) \<le> n \<and>
      (ys = [] \<or> n < length (utf8 (chars_before n cs)) + len_utf8 (hd ys))"
  proof (induction n cs rule: chars_before.induct)
    case (2 n c cs)
    then show ?case by (fastforce simp: length_utf8_char)
  qed simp
  then show ?thesis using that by blast
qed

lemma last_line_split: "\<exists>as. xs = as @ last_line xs \<and> cp NL \<notin> set (last_line xs) \<and> (as = [] \<or> last as = cp NL)"
proof -
  let ?r = "rev xs"
  have "xs = rev (dropWhile (\<lambda>c. c \<noteq> cp NL) ?r) @ last_line xs"
    unfolding last_line_def by (metis rev_append rev_rev_ident takeWhile_dropWhile_id)
  moreover have "cp NL \<notin> set (last_line xs)"
    by (auto simp: last_line_def dest: set_takeWhileD)
  moreover have "dropWhile (\<lambda>c. c \<noteq> cp NL) ?r = [] \<or> hd (dropWhile (\<lambda>c. c \<noteq> cp NL) ?r) = cp NL"
    using hd_dropWhile [of "\<lambda>c. c \<noteq> cp NL" ?r] by blast
  ultimately show ?thesis by (metis hd_rev rev_is_Nil_conv rev_rev_ident)
qed

lemma utf8_char_NL: "utf8_char (cp NL) = [NL]"
proof -
  have "cp NL < 0x80" by simp
  then show ?thesis by (simp only: utf8_char_def if_True char_of_char)
qed

text \<open>The start of the line of an offset: behind the last newline before it.\<close>

lemma last_line_start:
  assumes "scalars xs"
  shows "slice (utf8 xs) (last (0 # line_starts_of (utf8 xs))) (length (utf8 xs)) = utf8 (last_line xs)"
    and "last (0 # line_starts_of (utf8 xs)) + length (utf8 (last_line xs)) = length (utf8 xs)"
    and "scalars ys \<Longrightarrow> is_char_boundary (utf8 (xs @ ys)) (last (0 # line_starts_of (utf8 xs)))"
proof -
  obtain as where as: "xs = as @ last_line xs" "cp NL \<notin> set (last_line xs)" "as = [] \<or> last as = cp NL"
    using last_line_split by blast
  have sc: "scalars as" "scalars (last_line xs)" using assms as(1) by (metis list_all_append)+
  have "NL \<notin> set (utf8 (last_line xs))"
    using count_NL_utf8 [OF sc(2)] as(2) by (simp add: count_list_0_iff)
  then have "line_starts_of (utf8 xs) = line_starts_of (utf8 as)"
    by (subst as(1)) (simp add: line_starts_append line_starts_none)
  moreover have "last (0 # line_starts_of (utf8 as)) = length (utf8 as)"
  proof (cases as rule: rev_cases)
    case (snoc bs b)
    then have "b = cp NL" using as(3) by simp
    then show ?thesis using snoc by (simp only: utf8_append utf8_Cons utf8_Nil utf8_char_NL)
        (simp add: line_starts_append)
  qed simp
  ultimately have L: "last (0 # line_starts_of (utf8 xs)) = length (utf8 as)" by simp
  have u: "utf8 xs = utf8 as @ utf8 (last_line xs)" by (subst as(1)) simp
  show "slice (utf8 xs) (last (0 # line_starts_of (utf8 xs))) (length (utf8 xs)) = utf8 (last_line xs)"
    unfolding L by (simp add: u slice_def)
  show "last (0 # line_starts_of (utf8 xs)) + length (utf8 (last_line xs)) = length (utf8 xs)"
    unfolding L by (simp add: u)
  show "is_char_boundary (utf8 (xs @ ys)) (last (0 # line_starts_of (utf8 xs)))" if "scalars ys"
    unfolding L using is_char_boundary_prefix [of as "last_line xs @ ys"] sc that u by simp
qed

lemma line_starts_upto:
  assumes "scalars (xs @ ys)" and "length (utf8 xs) \<le> n" and "ys = [] \<or> n < length (utf8 xs) + len_utf8 (hd ys)"
  shows "takeWhile (\<lambda>s. s \<le> n) (line_starts_of (utf8 (xs @ ys))) = line_starts_of (utf8 xs)"
proof -
  have "\<forall>s\<in>set (line_starts_of (utf8 xs)). s \<le> n"
    using line_starts_bounds assms(2) by fastforce
  moreover have "\<forall>s\<in>set (line_starts_of (utf8 ys)). \<not> s + length (utf8 xs) \<le> n"
  proof (cases ys)
    case (Cons c cs)
    then show ?thesis using line_starts_char [of c cs] assms(1,3) by fastforce
  qed simp
  ultimately show ?thesis
    by (simp add: line_starts_append takeWhile_append2 takeWhile_eq_Nil_iff hd_map)
      (cases "line_starts_of (utf8 ys)"; auto)
qed

text \<open>The loop stops at the start of the character the offset is in.\<close>

lemma back_to_boundary_char:
  assumes "scalars (xs @ ys)" and "start \<le> length (utf8 xs)" and "length (utf8 xs) \<le> n"
    and "ys = [] \<or> n < length (utf8 xs) + len_utf8 (hd ys)" and "n \<le> length (utf8 (xs @ ys))"
  shows "back_to_boundary (utf8 (xs @ ys)) start n = length (utf8 xs)"
  using assms(3-5)
proof (induction "n - length (utf8 xs)" arbitrary: n)
  case 0
  then have "n = length (utf8 xs)" by simp
  then show ?case using is_char_boundary_prefix [OF assms(1)] by (subst back_to_boundary.simps) simp
next
  case (Suc k)
  then have less: "length (utf8 xs) < n" by simp
  then obtain c cs where ys: "ys = c # cs" using Suc.prems by (cases ys) auto
  have nc: "next_char (drop (length (utf8 xs)) (utf8 (xs @ ys))) = Some c"
    using assms(1) ys next_char_utf8_char [of c] by simp
  have "\<not> is_char_boundary (utf8 (xs @ ys)) n"
    using no_boundary_inside [OF assms(1) is_char_boundary_prefix [OF assms(1)] nc less] Suc.prems ys by simp
  moreover have "back_to_boundary (utf8 (xs @ ys)) start (n - 1) = length (utf8 xs)"
    using Suc less by (intro Suc.hyps(1)) auto
  ultimately show ?case using less assms(2) by (subst back_to_boundary.simps) simp
qed

lemma u32_le_iff: "a \<le> u32_max \<Longrightarrow> (of_nat a :: u32) \<le> w \<longleftrightarrow> a \<le> unat w"
  by (simp add: word_le_nat_alt unat_of_nat u32_max_def)

lemma takeWhile_starts:
  assumes "length src \<le> u32_max"
  shows "takeWhile (\<lambda>s. s \<le> w) (map of_nat (line_starts_of src) :: u32 list) =
    map of_nat (takeWhile (\<lambda>s. s \<le> unat w) (line_starts_of src))"
proof -
  have "takeWhile (\<lambda>s. (of_nat s :: u32) \<le> w) (line_starts_of src) = takeWhile (\<lambda>s. s \<le> unat w) (line_starts_of src)"
    by (rule takeWhile_cong) (use line_starts_bounds [of _ src] u32_le_iff assms in fastforce)+
  then show ?thesis by (simp add: takeWhile_map comp_def)
qed

text \<open>C19: for every 32-bit offset the index answers the line and the column of the character the offset is in: one more
  than the number of newlines before it, and one more than the UTF-16 length of what is between the last of
  them and the character; an offset behind the end counts on from the end. The search never panics.\<close>

theorem line_col_exact:
  assumes "scalars cs" and "length (utf8 cs) \<le> u32_max"
  shows "line_col (line_index_new (utf8 cs)) offset =
    (let xs = chars_before (unat offset) cs in
     Some (of_nat (1 + count_list xs (cp NL)),
           of_nat (1 + sum_list (map len_utf16 (last_line xs)) + (unat offset - length (utf8 cs)))))"
proof -
  define xs where "xs = chars_before (unat offset) cs"
  obtain ys where ys: "cs = xs @ ys" "length (utf8 xs) \<le> unat offset"
    "ys = [] \<or> unat offset < length (utf8 xs) + len_utf8 (hd ys)"
    using chars_before_split [of cs "unat offset"] xs_def by metis
  have sc: "scalars xs" "scalars ys" "scalars (xs @ ys)" using assms(1) ys(1) by auto
  define L where "L = last (0 # line_starts_of (utf8 xs))"
  have tw: "takeWhile (\<lambda>s. s \<le> offset) (line_starts (line_index_new (utf8 cs))) =
      0 # map of_nat (line_starts_of (utf8 xs))"
    using takeWhile_starts [OF assms(2)] line_starts_upto [OF sc(3) ys(2,3)] ys(1)
    by (simp add: line_index_new_def from_arc_def)
  then have pp: "partition_point (\<lambda>s. s \<le> offset) (line_starts (line_index_new (utf8 cs))) - 1 =
      count_list xs (cp NL)"
    using count_NL_utf8 [OF sc(1)] by (simp add: partition_point_def line_starts_count)
  have k: "count_list xs (cp NL) = length (line_starts_of (utf8 xs))"
    using count_NL_utf8 [OF sc(1)] by (simp add: line_starts_count)
  have lt: "count_list xs (cp NL) < length (line_starts (line_index_new (utf8 cs)))"
    using length_takeWhile_le [of "\<lambda>s. s \<le> offset" "line_starts (line_index_new (utf8 cs))"] tw k by simp
  have "line_starts (line_index_new (utf8 cs)) ! count_list xs (cp NL) =
      (0 # map of_nat (line_starts_of (utf8 xs))) ! length (line_starts_of (utf8 xs))"
    using takeWhile_nth [of "count_list xs (cp NL)" "\<lambda>s. s \<le> offset" "line_starts (line_index_new (utf8 cs))"]
      tw k by simp
  also have "\<dots> = last (map of_nat (0 # line_starts_of (utf8 xs)))"
    by (simp add: last_conv_nth)
  finally have st: "line_starts (line_index_new (utf8 cs)) ! count_list xs (cp NL) = of_nat L"
    by (simp only: L_def last_map list.distinct not_False_eq_True)
  have len: "L + length (utf8 (last_line xs)) = length (utf8 xs)"
    unfolding L_def by (rule last_line_start(2) [OF sc(1)])
  then have uL: "unat (of_nat L :: u32) = L"
    using assms(2) ys(1) by (simp add: unat_of_nat u32_max_def)
  have bk: "back_to_boundary (utf8 cs) L (min (unat offset) (length (utf8 cs))) = length (utf8 xs)"
    unfolding ys(1) using ys(2,3) len by (intro back_to_boundary_char [OF sc(3)]) auto
  have "is_char_boundary (utf8 cs) L" unfolding ys(1) L_def by (rule last_line_start(3) [OF sc(1,2)])
  moreover have "is_char_boundary (utf8 cs) (length (utf8 xs))"
    unfolding ys(1) by (rule is_char_boundary_prefix [OF sc(3)])
  moreover have "slice (utf8 cs) L (length (utf8 xs)) = utf8 (last_line xs)"
    using last_line_start(1) [OF sc(1)] len unfolding L_def [symmetric] ys(1) by (simp add: slice_def)
  ultimately have got: "str_get (utf8 cs) L (length (utf8 xs)) = Some (utf8 (last_line xs))"
    using len by (simp add: str_get_def)
  have "scalars (last_line xs)" using sc(1) last_line_split [of xs] by (metis list_all_append)
  then have "str_chars (utf8 (last_line xs)) = last_line xs" by (rule str_chars_utf8)
  moreover have "\<not> L < length (utf8 xs) \<Longrightarrow> last_line xs = []"
  proof -
    assume "\<not> L < length (utf8 xs)"
    then have "length (utf8 (last_line xs)) = 0" using len by linarith
    then have "utf8 (last_line xs) = []" by (simp only: length_0_conv)
    then show ?thesis by (cases "last_line xs") simp_all
  qed
  moreover have "li_source (line_index_new (utf8 cs)) = utf8 cs"
    by (simp add: line_index_new_def from_arc_def)
  ultimately show ?thesis
    unfolding line_col_def Let_def pp st uL xs_def [symmetric] using lt bk got by auto
qed

theorem line_col_exact_witness:
  "line_col (line_index_new (utf8 [0x61, 0x0A, 0x1F600, 0x62])) 6 =
    (let xs = chars_before (unat (6 :: u32)) [0x61, 0x0A, 0x1F600, 0x62] in
     Some (of_nat (1 + count_list xs (cp NL)),
           of_nat (1 + sum_list (map len_utf16 (last_line xs)) +
             (unat (6 :: u32) - length (utf8 [0x61, 0x0A, 0x1F600, 0x62])))))"
  by (rule line_col_exact) (simp_all add: is_scalar_def utf8_char_def u32_max_def)

end
