(* ===== verification/SourceRegistry.thy ===== *)
theory SourceRegistry
  imports LineIndex
begin

text \<open>
  The registry of source files (\<open>arandu_base/src/source_registry.rs\<close>): files in the order of their
  registration, numbered by their position, and a hash map from paths to numbers. The theory shows that
  after any sequence of registrations every path has one number, which leads to the text that was
  registered first for it.
\<close>

record source_file =
  sf_path :: string
  sf_source :: string
  sf_line_index :: line_index

record source_registry =
  files :: "source_file list"
  path_to_id :: "string \<rightharpoonup> u32"

definition registry_new :: source_registry where
  "registry_new = \<lparr>files = [], path_to_id = (\<lambda>_. None)\<rparr>"

definition register :: "source_registry \<Rightarrow> string \<Rightarrow> string \<Rightarrow> source_registry \<times> u32" where
  "register r path src =
    (case path_to_id r path of
       Some fid \<Rightarrow> (r, fid)
     | None \<Rightarrow>
         let fid = of_nat (length (files r));
             file = \<lparr>sf_path = path, sf_source = src, sf_line_index = from_arc src\<rparr>
         in (r\<lparr>files := files r @ [file], path_to_id := (path_to_id r)(path \<mapsto> fid)\<rparr>, fid))"

definition get_file :: "source_registry \<Rightarrow> u32 \<Rightarrow> source_file option" where
  "get_file r fid = (if unat fid < length (files r) then Some (files r ! unat fid) else None)"

definition get_id_by_path :: "source_registry \<Rightarrow> string \<Rightarrow> u32 option" where
  "get_id_by_path r path = path_to_id r path"

text \<open>A sequence of registrations, and what the registry stands for: a map from paths to texts.\<close>

definition register_all :: "(string \<times> string) list \<Rightarrow> source_registry" where
  "register_all regs = fold (\<lambda>(path, src) r. fst (register r path src)) regs registry_new"

definition registry_wf :: "source_registry \<Rightarrow> bool" where
  "registry_wf r \<longleftrightarrow>
     (\<forall>path fid. path_to_id r path = Some fid \<longleftrightarrow>
        (\<exists>i < length (files r). fid = of_nat i \<and> sf_path (files r ! i) = path)) \<and>
     distinct (map sf_path (files r)) \<and>
     (\<forall>f\<in>set (files r). sf_line_index f = from_arc (sf_source f))"

definition sources :: "source_registry \<Rightarrow> string \<rightharpoonup> string" where
  "sources r = map_of (map (\<lambda>f. (sf_path f, sf_source f)) (files r))"

lemma registry_new_wf: "registry_wf registry_new"
  by (simp add: registry_wf_def registry_new_def)

lemma registered_iff:
  assumes "registry_wf r"
  shows "path_to_id r path = None \<longleftrightarrow> path \<notin> sf_path ` set (files r)"
proof -
  have "(\<exists>fid. path_to_id r path = Some fid) \<longleftrightarrow> (\<exists>i < length (files r). sf_path (files r ! i) = path)"
    using assms by (auto simp: registry_wf_def)
  moreover have "path \<in> sf_path ` set (files r) \<longleftrightarrow> (\<exists>i < length (files r). sf_path (files r ! i) = path)"
    using nth_mem by (fastforce simp: image_iff in_set_conv_nth)
  ultimately show ?thesis by auto
qed

lemma register_known: "path_to_id r path = Some fid \<Longrightarrow> register r path src = (r, fid)"
  by (simp add: register_def)

lemma register_new_wf:
  assumes "registry_wf r" and "path_to_id r path = None"
  shows "registry_wf (fst (register r path src))"
proof -
  have new: "path \<notin> sf_path ` set (files r)" using assms registered_iff by blast
  then have "sf_path (files r ! i) \<noteq> path" if "i < length (files r)" for i using that by auto
  then show ?thesis using assms new
    by (auto simp: registry_wf_def register_def Let_def nth_append less_Suc_eq)
qed

lemma register_wf: "registry_wf r \<Longrightarrow> registry_wf (fst (register r path src))"
  using register_new_wf [of r path src] by (cases "path_to_id r path") (simp_all add: register_known)

lemma sources_dom: "registry_wf r \<Longrightarrow> path_to_id r path = None \<longleftrightarrow> sources r path = None"
  by (auto simp: registered_iff sources_def map_of_eq_None_iff image_image)

lemma sources_register:
  assumes "registry_wf r"
  shows "sources (fst (register r path src)) = (if path \<in> dom (sources r) then sources r else (sources r)(path \<mapsto> src))"
proof (cases "path_to_id r path")
  case None
  then have n: "sources r path = None" using sources_dom [OF assms] by blast
  have "sources (fst (register r path src)) = [path \<mapsto> src] ++ sources r"
    using None by (simp add: register_def sources_def Let_def)
  then show ?thesis using n by (auto simp: domIff map_add_def split: option.splits)
next
  case (Some fid)
  then show ?thesis using sources_dom [OF assms, of path] by (auto simp: register_known domIff)
qed

text \<open>The invariant and the abstract map along a sequence of registrations: the first text of a path stays.\<close>

lemma register_all_refines:
  "registry_wf (register_all regs) \<and> sources (register_all regs) = map_of regs"
proof (induction regs rule: rev_induct)
  case Nil
  then show ?case using registry_new_wf by (simp add: register_all_def sources_def registry_new_def)
next
  case (snoc x regs)
  obtain path src where x: "x = (path, src)" by (cases x)
  have step: "register_all (regs @ [x]) = fst (register (register_all regs) path src)"
    by (simp add: register_all_def x)
  have "sources (register_all (regs @ [x])) = [path \<mapsto> src] ++ map_of regs"
    unfolding step using snoc sources_register [of "register_all regs" path src]
    by (auto simp: domIff map_add_def split: option.splits)
  then show ?case using snoc register_wf step by (simp add: x)
qed

lemma register_all_files: "length (files (register_all regs)) \<le> length regs"
proof (induction regs rule: rev_induct)
  case (snoc x regs)
  then show ?case
    by (cases x) (auto simp: register_all_def register_def Let_def split: option.splits)
qed (simp add: register_all_def registry_new_def)

lemma get_file_of_path:
  assumes "registry_wf r" and "length (files r) \<le> u32_max" and "sources r path = Some src"
  obtains fid where "get_id_by_path r path = Some fid"
    and "get_file r fid = Some \<lparr>sf_path = path, sf_source = src, sf_line_index = from_arc src\<rparr>"
proof -
  obtain fid where fid: "path_to_id r path = Some fid"
    using assms(1,3) sources_dom [OF assms(1), of path] by auto
  then obtain i where i: "i < length (files r)" "fid = of_nat i" "sf_path (files r ! i) = path"
    using assms(1) by (auto simp: registry_wf_def)
  have u: "unat fid = i" using i(1,2) assms(2) by (simp add: unat_of_nat u32_max_def)
  have "distinct (map fst (map (\<lambda>f. (sf_path f, sf_source f)) (files r)))"
    using assms(1) by (simp add: registry_wf_def comp_def)
  moreover have "(path, sf_source (files r ! i)) \<in> set (map (\<lambda>f. (sf_path f, sf_source f)) (files r))"
    using i by (force simp: in_set_conv_nth)
  ultimately have "sf_source (files r ! i) = src"
    using assms(3) by (simp add: sources_def map_of_eq_Some_iff)
  moreover have "sf_line_index (files r ! i) = from_arc (sf_source (files r ! i))"
    using assms(1) i(1) by (simp add: registry_wf_def)
  ultimately have "get_file r fid = Some \<lparr>sf_path = path, sf_source = src, sf_line_index = from_arc src\<rparr>"
    using i u by (cases "files r ! i") (simp add: get_file_def)
  then show ?thesis using that fid by (simp add: get_id_by_path_def)
qed

text \<open>C35: after any sequence of at most \<open>2^32 - 1\<close> registrations the registry is the map from each registered path to the
  text of its first registration: the number of a path leads to that text with its line index, different
  paths have different numbers, and other paths have none.\<close>

theorem registry_keeps_first_source:
  assumes "length regs \<le> u32_max"
  shows "case map_of regs path of
      None \<Rightarrow> get_id_by_path (register_all regs) path = None
    | Some src \<Rightarrow> \<exists>fid. get_id_by_path (register_all regs) path = Some fid \<and>
        get_file (register_all regs) fid = Some \<lparr>sf_path = path, sf_source = src, sf_line_index = from_arc src\<rparr>"
proof -
  let ?r = "register_all regs"
  have r: "registry_wf ?r" "sources ?r = map_of regs" using register_all_refines by blast+
  have "length (files ?r) \<le> u32_max" using register_all_files [of regs] assms by simp
  then show ?thesis
    using get_file_of_path [OF r(1), of path] sources_dom [OF r(1), of path] r(2)
    by (auto simp: get_id_by_path_def split: option.splits)
qed

theorem registry_keeps_first_source_witness:
  "case map_of [(''a'', ''x''), (''b'', ''y''), (''a'', ''z'')] ''a'' of
      None \<Rightarrow> get_id_by_path (register_all [(''a'', ''x''), (''b'', ''y''), (''a'', ''z'')]) ''a'' = None
    | Some src \<Rightarrow> \<exists>fid. get_id_by_path (register_all [(''a'', ''x''), (''b'', ''y''), (''a'', ''z'')]) ''a'' = Some fid \<and>
        get_file (register_all [(''a'', ''x''), (''b'', ''y''), (''a'', ''z'')]) fid =
          Some \<lparr>sf_path = ''a'', sf_source = src, sf_line_index = from_arc src\<rparr>"
  by (rule registry_keeps_first_source) (simp add: u32_max_def)

end
