(* ===== verification/Spec2Isabelle.thy ===== *)
theory Spec2Isabelle
  imports BitMatrix GenRef LockProgress DomFrontiers LayoutTotal LexerCorrect SourceRegistry
begin

text \<open>
  A verification library for the Arandu compiler and runtime. (Work in progress: base containers.)
\<close>

end
